(* ===== verification/Prelude.thy ===== *)
theory Prelude
  imports Main "HOL-Library.Word" "HOL-Library.Multiset"
begin

text \<open>
  What every component of the client shares: the results of a C++ call (a value, the exit
  of the process, undefined behaviour), the machine integers as \<open>int\<close> with their wrap-around
  written out, network byte order, the operations of \<open>std::string\<close> the sources call
  (\<open>find\<close>, \<open>find_first_of\<close>, \<open>substr\<close>, \<open>erase\<close>, \<open>std::stoul\<close>), the stable sort of
  \<open>std::list\<close>, and the hash table (\<open>std::unordered_map\<close>) as an association list.
  The contracts of the last two are locales; the components interpret them.
\<close>

named_theorems model_defs \<open>definitions of the model that proofs unfold together\<close>

section \<open>Results\<close>

text \<open>
  A call returns (\<open>Inr\<close>) or stops: \<open>Exit\<close> is \<open>Csz::ErrQuit\<close> or \<open>exit\<close> (the process
  ends), \<open>Undef\<close> is undefined behaviour of C++ (an access out of range, a value read at
  the wrong type), \<open>Fuel\<close> is a loop that has not returned within the iterations given.
\<close>

datatype stop = Exit | Undef | Fuel

type_synonym 'a res = "stop + 'a"

definition rbind :: "'a res \<Rightarrow> ('a \<Rightarrow> 'b res) \<Rightarrow> 'b res" where
  "rbind r f = (case r of Inl e \<Rightarrow> Inl e | Inr x \<Rightarrow> f x)"

lemma rbind_simps [simp]: "rbind (Inl e) f = Inl e" "rbind (Inr x) f = f x"
  by (simp_all add: rbind_def)

lemma rbind_Inr_iff: "rbind r f = Inr y \<longleftrightarrow> (\<exists>x. r = Inr x \<and> f x = Inr y)"
  by (cases r) auto

section \<open>Machine integers\<close>

type_synonym byte = "8 word"

definition i32 :: "int \<Rightarrow> int" where
  "i32 x = (x + 2147483648) mod 4294967296 - 2147483648"

definition u32 :: "int \<Rightarrow> int" where
  "u32 x = x mod 4294967296"

definition u64 :: "int \<Rightarrow> int" where
  "u64 x = x mod 18446744073709551616"

lemma i32_id: "- 2147483648 \<le> x \<Longrightarrow> x < 2147483648 \<Longrightarrow> i32 x = x"
  by (simp add: i32_def)

lemma u32_id: "0 \<le> x \<Longrightarrow> x < 4294967296 \<Longrightarrow> u32 x = x"
  by (simp add: u32_def)

lemma u64_id: "0 \<le> x \<Longrightarrow> x < 18446744073709551616 \<Longrightarrow> u64 x = x"
  by (simp add: u64_def)

lemma i32_range: "- 2147483648 \<le> i32 x" "i32 x < 2147483648"
  by (simp_all add: i32_def)

lemma i32_idem [simp]: "i32 (i32 x) = i32 x"
  by (rule i32_id) (simp_all add: i32_range)

lemma i32_mod: "i32 (x mod 4294967296) = i32 x"
  by (simp add: i32_def mod_simps)

lemma u32_i32: "u32 (i32 x) = u32 x"
  by (simp add: i32_def u32_def mod_simps)

lemma u32_range: "0 \<le> u32 x" "u32 x < 4294967296"
  by (simp_all add: u32_def)

lemma i32_u64: "i32 (u64 x) = i32 x"
proof -
  have "x mod 18446744073709551616 mod 4294967296 = x mod 4294967296"
    by (rule mod_mod_cancel) simp
  then have "(x mod 18446744073709551616 + 2147483648) mod 4294967296 = (x + 2147483648) mod 4294967296"
    by (metis mod_add_left_eq)
  then show ?thesis by (simp add: i32_def u64_def)
qed

section \<open>Network byte order\<close>

text \<open>
  \<open>*reinterpret_cast<int32_t*>(p) = htonl(x)\<close> leaves the four bytes of \<open>x\<close>, the most
  significant first, at \<open>p\<close>; \<open>ntohl(*reinterpret_cast<int32_t*>(p))\<close>, kept in an
  \<open>int32_t\<close>, reads them back.
\<close>

definition be32 :: "int \<Rightarrow> byte list" where
  "be32 x = [word_of_int (x div 16777216), word_of_int (x div 65536),
             word_of_int (x div 256), word_of_int x]"

definition rd32 :: "byte list \<Rightarrow> int" where
  "rd32 bs = i32 (uint (bs ! 0) * 16777216 + uint (bs ! 1) * 65536 + uint (bs ! 2) * 256 + uint (bs ! 3))"

lemma length_be32 [simp]: "length (be32 x) = 4"
  by (simp add: be32_def)

lemma be32_sum:
  "(x div 16777216) mod 256 * 16777216 + (x div 65536) mod 256 * 65536
     + (x div 256) mod 256 * 256 + x mod 256 = x mod (4294967296 :: int)"
proof -
  define a where "a = x div 256"
  define b where "b = a div 256"
  define c where "c = b div 256"
  have ab: "x div 65536 = b" "x div 16777216 = c"
    by (simp_all add: a_def b_def c_def zdiv_zmult2_eq [symmetric])
  have "x = a * 256 + x mod 256" "a = b * 256 + a mod 256" "b = c * 256 + b mod 256"
    "c = c div 256 * 256 + c mod 256"
    by (simp_all add: a_def b_def c_def)
  then have eq: "x = c div 256 * 4294967296
      + (c mod 256 * 16777216 + b mod 256 * 65536 + a mod 256 * 256 + x mod 256)"
    by linarith
  have lt: "c mod 256 * 16777216 + b mod 256 * 65536 + a mod 256 * 256 + x mod 256 < 4294967296"
    "0 \<le> c mod 256 * 16777216 + b mod 256 * 65536 + a mod 256 * 256 + x mod 256"
    using pos_mod_bound [of 256 c] pos_mod_bound [of 256 b] pos_mod_bound [of 256 a]
      pos_mod_bound [of 256 x] by linarith+
  have "x mod 4294967296
      = c mod 256 * 16777216 + b mod 256 * 65536 + a mod 256 * 256 + x mod 256"
    by (subst eq) (use lt in \<open>simp add: mod_pos_pos_trivial\<close>)
  then show ?thesis by (simp add: ab a_def)
qed

lemma rd32_be32_append: "rd32 (be32 x @ bs) = i32 x"
proof -
  have "uint (word_of_int y :: byte) = y mod 256" for y
    by (simp add: uint_word_of_int)
  then have "rd32 (be32 x @ bs) = i32 (x mod 4294967296)"
    by (simp add: rd32_def be32_def be32_sum)
  then show ?thesis by (simp add: i32_mod)
qed

lemma rd32_be32 [simp]: "rd32 (be32 x) = i32 x"
  using rd32_be32_append [of x "[]"] by simp

section \<open>Strings\<close>

text \<open>
  A \<open>std::string\<close> is a list of \<open>char\<close> (eight bits). \<open>substr(p, n)\<close> is
  \<open>take n (drop p s)\<close>, \<open>erase(0, n)\<close> is \<open>drop n s\<close>; positions that are not found
  (\<open>npos\<close>) are \<open>None\<close>.
\<close>

definition bytes_of :: "string \<Rightarrow> byte list" where
  "bytes_of s = map of_char s"

fun find_ch :: "char \<Rightarrow> string \<Rightarrow> nat option" where
  "find_ch c [] = None"
| "find_ch c (x # xs) = (if x = c then Some 0 else map_option Suc (find_ch c xs))"

definition find_from :: "char \<Rightarrow> nat \<Rightarrow> string \<Rightarrow> nat option" where
  "find_from c pos s = map_option ((+) pos) (find_ch c (drop pos s))"

fun find_sub :: "string \<Rightarrow> string \<Rightarrow> nat option" where
  "find_sub p [] = (if p = [] then Some 0 else None)"
| "find_sub p (x # xs) =
     (if take (length p) (x # xs) = p then Some 0 else map_option Suc (find_sub p xs))"

lemma find_ch_append: "c \<notin> set xs \<Longrightarrow> find_ch c (xs @ c # ys) = Some (length xs)"
  by (induction xs) auto

lemma find_ch_None_iff: "find_ch c s = None \<longleftrightarrow> c \<notin> set s"
  by (induction s) auto

lemma find_ch_less: "find_ch c s = Some n \<Longrightarrow> n < length s"
  by (induction s arbitrary: n) (auto split: if_splits)

definition is_digit :: "char \<Rightarrow> bool" where
  "is_digit c \<longleftrightarrow> c \<in> set ''0123456789''"

definition is_space :: "char \<Rightarrow> bool" where
  "is_space c \<longleftrightarrow> (of_char c :: nat) \<in> {9, 10, 11, 12, 13, 32}"

definition digit_val :: "char \<Rightarrow> nat" where
  "digit_val c = of_char c - 48"

definition digits_val :: "string \<Rightarrow> nat" where
  "digits_val ds = foldl (\<lambda>n c. 10 * n + digit_val c) 0 ds"

text \<open>
  \<open>std::stoul\<close> (base 10, 64 bits): leading white space, an optional sign, the longest run of
  digits, the rest ignored. No digit is \<open>std::invalid_argument\<close>, a value over \<open>ULONG_MAX\<close>
  is \<open>std::out_of_range\<close>; a minus sign negates modulo $2^{64}$, as \<open>strtoul\<close> does.
\<close>

datatype num_error = InvalidArgument | OutOfRange

definition split_sign :: "string \<Rightarrow> bool \<times> string" where
  "split_sign t = (case t of [] \<Rightarrow> (False, [])
     | c # r \<Rightarrow> if c = CHR ''-'' then (True, r) else if c = CHR ''+'' then (False, r) else (False, t))"

definition stoul :: "string \<Rightarrow> num_error + nat" where
  "stoul s =
     (let (neg, u) = split_sign (dropWhile is_space s); ds = takeWhile is_digit u; v = digits_val ds
      in if ds = [] then Inl InvalidArgument
         else if 18446744073709551616 \<le> v then Inl OutOfRange
         else Inr (if neg then (18446744073709551616 - v) mod 18446744073709551616 else v))"

text \<open>\<open>std::to_string\<close> of a number that is not negative.\<close>

fun dec :: "nat \<Rightarrow> string" where
  "dec n = (if n < 10 then [char_of (48 + n)] else dec (n div 10) @ [char_of (48 + n mod 10)])"

declare dec.simps [simp del]

lemma less_10_cases: "(n::nat) < 10 \<Longrightarrow>
  n = 0 \<or> n = 1 \<or> n = 2 \<or> n = 3 \<or> n = 4 \<or> n = 5 \<or> n = 6 \<or> n = 7 \<or> n = 8 \<or> n = 9"
  by presburger

lemma digit_char: "n < 10 \<Longrightarrow> is_digit (char_of (48 + n)) \<and> digit_val (char_of (48 + n)) = n"
  by (auto dest!: less_10_cases simp: is_digit_def digit_val_def char_of_def bit_0)

lemma digits_val_snoc: "digits_val (ds @ [c]) = 10 * digits_val ds + digit_val c"
  by (simp add: digits_val_def)

lemma dec_spec: "dec n \<noteq> [] \<and> list_all is_digit (dec n) \<and> digits_val (dec n) = n"
proof (induction n rule: dec.induct)
  case (1 n)
  show ?case
  proof (cases "n < 10")
    case True
    then show ?thesis
      by (subst (1 2 3) dec.simps) (simp add: digit_char digits_val_def)
  next
    case False
    with 1 have "list_all is_digit (dec (n div 10)) \<and> digits_val (dec (n div 10)) = n div 10"
      by blast
    then show ?thesis
      using False by (subst (1 2 3) dec.simps) (simp add: digit_char digits_val_snoc)
  qed
qed

lemma dec_digits: "c \<in> set (dec n) \<Longrightarrow> is_digit c"
  using dec_spec [of n] by (simp add: list_all_iff)

lemma digit_props: "is_digit c \<Longrightarrow> \<not> is_space c \<and> c \<noteq> CHR ''-'' \<and> c \<noteq> CHR ''+''
    \<and> c \<noteq> CHR ''i'' \<and> c \<noteq> CHR ''l'' \<and> c \<noteq> CHR ''d'' \<and> c \<noteq> CHR ''e'' \<and> c \<noteq> CHR '':''"
  by (auto simp: is_digit_def is_space_def)

lemma dec_not: "CHR '':'' \<notin> set (dec n)" "CHR ''e'' \<notin> set (dec n)"
  using dec_digits digit_props by blast+

lemma takeWhile_digits: "takeWhile is_digit (dec n) = dec n"
  by (simp add: takeWhile_eq_all_conv dec_digits)

lemma dec_Cons: obtains c ds where "dec n = c # ds" "is_digit c"
  by (metis dec_spec dec_digits neq_Nil_conv list.set_intros(1))

lemma stoul_dec: "n < 18446744073709551616 \<Longrightarrow> stoul (dec n) = Inr n"
proof -
  assume n: "n < 18446744073709551616"
  obtain c ds where eq: "dec n = c # ds" and c: "is_digit c" by (rule dec_Cons)
  have "split_sign (dropWhile is_space (dec n)) = (False, dec n)"
    using c by (simp add: eq split_sign_def digit_props)
  then show ?thesis
    using n dec_spec [of n] by (simp add: stoul_def takeWhile_digits)
qed

section \<open>The stable sort of a list\<close>

text \<open>
  \<open>std::list::sort(comp)\<close> is stable: elements the comparator does not order keep their
  places. The comparator must be a strict weak order, which the standard requires.
\<close>

fun list_insert :: "('a \<Rightarrow> 'a \<Rightarrow> bool) \<Rightarrow> 'a \<Rightarrow> 'a list \<Rightarrow> 'a list" where
  "list_insert lt x [] = [x]"
| "list_insert lt x (y # ys) = (if lt y x then y # list_insert lt x ys else x # y # ys)"

definition list_sort :: "('a \<Rightarrow> 'a \<Rightarrow> bool) \<Rightarrow> 'a list \<Rightarrow> 'a list" where
  "list_sort lt xs = foldr (list_insert lt) xs []"

lemma mset_list_insert: "mset (list_insert lt x xs) = add_mset x (mset xs)"
  by (induction xs) auto

lemma mset_list_sort [simp]: "mset (list_sort lt xs) = mset xs"
  by (induction xs) (simp_all add: list_sort_def mset_list_insert)

lemma set_list_sort [simp]: "set (list_sort lt xs) = set xs"
  by (metis mset_list_sort set_mset_mset)

lemma set_list_insert: "set (list_insert lt x xs) = insert x (set xs)"
  by (metis mset_list_insert set_mset_add_mset_insert set_mset_mset)

lemma length_list_sort [simp]: "length (list_sort lt xs) = length xs"
  by (metis mset_list_sort size_mset)

locale strict_weak_order =
  fixes lt :: "'a \<Rightarrow> 'a \<Rightarrow> bool"
  assumes asym: "lt x y \<Longrightarrow> \<not> lt y x"
    and neg_trans: "\<not> lt x y \<Longrightarrow> \<not> lt y z \<Longrightarrow> \<not> lt x z"
begin

lemma irrefl [simp]: "\<not> lt x x"
  using asym by blast

lemma insert_sorted:
  "sorted_wrt (\<lambda>x y. \<not> lt y x) xs \<Longrightarrow> sorted_wrt (\<lambda>x y. \<not> lt y x) (list_insert lt x xs)"
proof (induction xs)
  case (Cons a xs)
  show ?case
  proof (cases "lt a x")
    case True
    then show ?thesis using Cons asym [OF True] by (simp add: set_list_insert)
  next
    case False
    have "\<not> lt y x" if "y \<in> set xs" for y
      using neg_trans [of y a x] False Cons.prems that by auto
    then show ?thesis using False Cons.prems by auto
  qed
qed simp

lemma sort_sorted: "sorted_wrt (\<lambda>x y. \<not> lt y x) (list_sort lt xs)"
  by (induction xs) (simp_all add: list_sort_def insert_sorted)

lemma insert_stable:
  assumes "sorted_wrt (\<lambda>x y. \<not> lt y x) xs"
  shows "filter (\<lambda>y. \<not> lt a y \<and> \<not> lt y a) (list_insert lt x xs)
       = filter (\<lambda>y. \<not> lt a y \<and> \<not> lt y a) (x # xs)"
  using assms by (induction xs) (auto dest: neg_trans asym)

lemma sort_stable:
  "filter (\<lambda>y. \<not> lt a y \<and> \<not> lt y a) (list_sort lt xs) = filter (\<lambda>y. \<not> lt a y \<and> \<not> lt y a) xs"
proof (induction xs)
  case Nil
  then show ?case by (simp add: list_sort_def)
next
  case (Cons x xs)
  have "list_sort lt (x # xs) = list_insert lt x (list_sort lt xs)"
    by (simp add: list_sort_def)
  then show ?case using Cons insert_stable [OF sort_sorted, of a x xs] by auto
qed

lemma sort_head_least: "list_sort lt xs = y # ys \<Longrightarrow> x \<in> set xs \<Longrightarrow> \<not> lt x y"
  using sort_sorted [of xs] by (metis irrefl set_ConsD set_list_sort sorted_wrt.simps(2))

end

end
