(* ===== verification/Messages.thy ===== *)
theory Messages
  imports Prelude
begin

text \<open>
  The messages of the peer protocol as the classes of \<open>CszBitTorrent.h\<close> build them: a byte array
  (\<open>char data[N]\<close> or a \<open>std::string\<close>) with the length prefix and the id set by the constructor
  and the fields written by \<open>SetParameter\<close>. A frame is a length prefix, an id and a payload; the
  locale \<open>wire_message\<close> is what a sender relies on, interpreted by every message class.
\<close>

definition put_at :: "nat \<Rightarrow> byte list \<Rightarrow> byte list \<Rightarrow> byte list" where
  "put_at i bs d = take i d @ bs @ drop (i + length bs) d"

definition be16 :: "int \<Rightarrow> byte list" where
  "be16 x = [word_of_int (x div 256), word_of_int x]"

definition frame :: "byte \<Rightarrow> byte list \<Rightarrow> byte list" where
  "frame i payload = be32 (1 + int (length payload)) @ i # payload"

section \<open>Messages without fields\<close>

definition KeepAlive :: "byte list" where
  "KeepAlive = replicate 4 0"

definition Choke :: "byte list" where
  "Choke = (put_at 0 (be32 1) (replicate 5 0)) [4 := 0]"

definition UnChoke :: "byte list" where
  "UnChoke = (put_at 0 (be32 1) (replicate 5 0)) [4 := 1]"

definition Interested :: "byte list" where
  "Interested = (put_at 0 (be32 1) (replicate 5 0)) [4 := 2]"

definition UnInterested :: "byte list" where
  "UnInterested = (put_at 0 (be32 1) (replicate 5 0)) [4 := 3]"

section \<open>Messages with fields\<close>

definition Have :: "byte list" where
  "Have = (put_at 0 (be32 5) (replicate 9 0)) [4 := 4]"

definition Have_SetParameter :: "int \<Rightarrow> byte list \<Rightarrow> byte list" where
  "Have_SetParameter T_index d = put_at 5 (be32 T_index) d"

definition ReqCleBase :: "byte \<Rightarrow> byte list" where
  "ReqCleBase T_id = put_at 0 (be32 13) ((replicate 17 0) [4 := T_id])"

definition ReqCleBase_SetParameter :: "int \<Rightarrow> int \<Rightarrow> int \<Rightarrow> byte list \<Rightarrow> byte list" where
  "ReqCleBase_SetParameter T_index T_begin T_length d =
     put_at 13 (be32 T_length) (put_at 9 (be32 T_begin) (put_at 5 (be32 T_index) d))"

definition Request :: "byte list" where
  "Request = ReqCleBase 6"

definition Cancle :: "byte list" where
  "Cancle = ReqCleBase 8"

definition Piece :: "byte list" where
  "Piece = (replicate 13 0) [4 := 7]"

definition Piece_SetPrefixLength :: "byte list \<Rightarrow> byte list" where
  "Piece_SetPrefixLength d =
     (if length d \<le> 13 then d else put_at 0 (be32 (int (length d) - 4)) d)"

definition Piece_SetParameter :: "int \<Rightarrow> int \<Rightarrow> byte list \<Rightarrow> byte list \<Rightarrow> byte list" where
  "Piece_SetParameter T_index T_begin T_slice d =
     (if T_index < 0 \<or> T_begin < 0 \<or> T_slice = [] then d
      else Piece_SetPrefixLength (put_at 9 (be32 T_begin) (put_at 5 (be32 T_index) d) @ T_slice))"

definition Port :: "byte list" where
  "Port = put_at 0 (be32 3) ((replicate 7 0) [4 := 9])"

definition Port_SetParameter :: "int \<Rightarrow> byte list \<Rightarrow> byte list" where
  "Port_SetParameter T_port d = put_at 5 (be16 T_port) d"

section \<open>The handshake\<close>

text \<open>
  A \<open>const char*\<close> is \<open>None\<close> for a null pointer and otherwise the bytes up to the end of its
  buffer; reading past that end is undefined. An empty buffer holds the terminator.
\<close>

definition first_zero :: "byte list \<Rightarrow> bool" where
  "first_zero p \<longleftrightarrow> (case p of [] \<Rightarrow> True | b # _ \<Rightarrow> b = 0)"

definition mem_read :: "byte list \<Rightarrow> nat \<Rightarrow> byte list res" where
  "mem_read p n = (if n \<le> length p then Inr (take n p) else Inl Undef)"

definition protocol_name :: "byte list" where
  "protocol_name = map (\<lambda>c. word_of_nat (of_char c)) ''BitTorrent protocol''"

definition HandShake :: "byte list" where
  "HandShake = put_at 1 protocol_name ((replicate 68 0) [0 := 19])"

definition put_field :: "nat \<Rightarrow> nat \<Rightarrow> byte list option \<Rightarrow> byte list \<Rightarrow> byte list res" where
  "put_field i n p d =
     (case p of None \<Rightarrow> Inr d
      | Some bs \<Rightarrow> if first_zero bs then Inr d else rbind (mem_read bs n) (\<lambda>f. Inr (put_at i f d)))"

definition HandShake_SetParameter ::
  "byte list option \<Rightarrow> byte list option \<Rightarrow> byte list option \<Rightarrow> byte list \<Rightarrow> (bool \<times> byte list) res" where
  "HandShake_SetParameter T_reserved T_info_hash T_peer_id d =
     (case T_info_hash of None \<Rightarrow> Inr (False, d)
      | Some h \<Rightarrow>
          if first_zero h then Inr (False, d)
          else rbind (mem_read h 20) (\<lambda>f. rbind (put_field 20 8 T_reserved (put_at 28 f d))
                 (\<lambda>d'. rbind (put_field 48 20 T_peer_id d') (\<lambda>d''. Inr (True, d'')))))"

definition HandShake_Varification :: "byte list option \<Rightarrow> byte list \<Rightarrow> bool res" where
  "HandShake_Varification T_str d =
     (case T_str of None \<Rightarrow> Inr False
      | Some p \<Rightarrow>
          if first_zero p then Inr False
          else if length p < 20 then Inl Undef
          else if take 20 p \<noteq> take 20 d then Inr False
          else if length p < 48 then Inl Undef
          else Inr (take 20 (drop 28 p) = take 20 (drop 28 d)))"

section \<open>Lemmas\<close>

lemma length_put_at [simp]: "i + length bs \<le> length d \<Longrightarrow> length (put_at i bs d) = length d"
  by (simp add: put_at_def)

lemma length_frame [simp]: "length (frame i p) = 5 + length p"
  by (simp add: frame_def)

lemma be32_nth: "be32 x = [be32 x ! 0, be32 x ! 1, be32 x ! 2, be32 x ! 3]"
  by (simp add: be32_def)

lemma be32_put: "put_at 0 (be32 x) (a # b # c # d # r) = be32 x @ r"
  by (simp add: put_at_def)

lemma be32_update [simp]: "(be32 x @ a # r) [4 := b] = be32 x @ b # r"
  by (simp add: be32_def)

lemma put_at_append: "length pre = i \<Longrightarrow> put_at i bs (pre @ d) = pre @ put_at 0 bs d"
  by (simp add: put_at_def)

lemma short_frames:
  "Choke = frame 0 []" "UnChoke = frame 1 []" "Interested = frame 2 []" "UnInterested = frame 3 []"
  by (simp_all add: Choke_def UnChoke_def Interested_def UnInterested_def frame_def put_at_def be32_def eval_nat_numeral)

lemma Have_frame: "Have_SetParameter i Have = frame 4 (be32 i)"
  by (simp add: Have_SetParameter_def Have_def frame_def put_at_def be32_def eval_nat_numeral)

lemma ReqCleBase_frame:
  "ReqCleBase_SetParameter i b l (ReqCleBase k) = frame k (be32 i @ be32 b @ be32 l)"
  by (simp add: ReqCleBase_SetParameter_def ReqCleBase_def frame_def put_at_def be32_def eval_nat_numeral)

lemma Port_frame: "Port_SetParameter p Port = frame 9 (be16 p)"
  by (simp add: Port_SetParameter_def Port_def frame_def put_at_def be32_def be16_def eval_nat_numeral)

lemma Piece_frame:
  assumes "0 \<le> i" and "0 \<le> b" and "s \<noteq> []"
  shows "Piece_SetParameter i b s Piece = frame 7 (be32 i @ be32 b @ s)"
proof -
  have "put_at 9 (be32 b) (put_at 5 (be32 i) Piece) = 0 # 0 # 0 # 0 # 7 # be32 i @ be32 b"
    by (simp add: Piece_def put_at_def be32_def eval_nat_numeral)
  then show ?thesis
    using assms by (simp add: Piece_SetParameter_def Piece_SetPrefixLength_def frame_def be32_put)
qed

section \<open>What a receiver reads back\<close>

locale wire_message =
  fixes bytes :: "'p \<Rightarrow> byte list"
    and ident :: byte
    and payload :: "'p \<Rightarrow> byte list"
    and ok :: "'p \<Rightarrow> bool"
  assumes framed: "ok p \<Longrightarrow> bytes p = frame ident (payload p)"
begin

lemma prefix_field:
  "ok p \<Longrightarrow> length (payload p) < 2147483647 \<Longrightarrow> rd32 (bytes p) = 1 + int (length (payload p))"
  by (simp add: framed frame_def rd32_be32_append i32_id)

lemma ident_field: "ok p \<Longrightarrow> bytes p ! 4 = ident"
  by (simp add: framed frame_def nth_append)

lemma payload_field: "ok p \<Longrightarrow> drop 5 (bytes p) = payload p"
  by (simp add: framed frame_def be32_def)

lemma total_size: "ok p \<Longrightarrow> length (bytes p) = 5 + length (payload p)"
  by (simp add: framed)

end

interpretation choke: wire_message "\<lambda>_::unit. Choke" 0 "\<lambda>_. []" "\<lambda>_. True"
  by unfold_locales (simp add: short_frames)

interpretation unchoke: wire_message "\<lambda>_::unit. UnChoke" 1 "\<lambda>_. []" "\<lambda>_. True"
  by unfold_locales (simp add: short_frames)

interpretation interested: wire_message "\<lambda>_::unit. Interested" 2 "\<lambda>_. []" "\<lambda>_. True"
  by unfold_locales (simp add: short_frames)

interpretation uninterested: wire_message "\<lambda>_::unit. UnInterested" 3 "\<lambda>_. []" "\<lambda>_. True"
  by unfold_locales (simp add: short_frames)

interpretation have_msg: wire_message "\<lambda>i. Have_SetParameter i Have" 4 be32 "\<lambda>_. True"
  by unfold_locales (simp add: Have_frame)

interpretation request: wire_message "\<lambda>(i, b, l). ReqCleBase_SetParameter i b l Request" 6
    "\<lambda>(i, b, l). be32 i @ be32 b @ be32 l" "\<lambda>_. True"
  by unfold_locales (auto simp: ReqCleBase_frame Request_def)

interpretation cancle: wire_message "\<lambda>(i, b, l). ReqCleBase_SetParameter i b l Cancle" 8
    "\<lambda>(i, b, l). be32 i @ be32 b @ be32 l" "\<lambda>_. True"
  by unfold_locales (auto simp: ReqCleBase_frame Cancle_def)

interpretation piece: wire_message "\<lambda>(i, b, s). Piece_SetParameter i b s Piece" 7
    "\<lambda>(i, b, s). be32 i @ be32 b @ s" "\<lambda>(i, b, s). 0 \<le> i \<and> 0 \<le> b \<and> s \<noteq> []"
  by unfold_locales (auto simp: Piece_frame)

interpretation port: wire_message "\<lambda>p. Port_SetParameter p Port" 9 be16 "\<lambda>_. True"
  by unfold_locales (simp add: Port_frame)

lemma frame_drop: "5 \<le> n \<Longrightarrow> drop n (frame k p) = drop (n - 5) p"
  by (simp add: frame_def drop_Cons' Suc_diff_Suc)

lemma frame_ident: "frame k p ! 4 = k"
  by (simp add: frame_def nth_append)

lemma frame_prefix: "rd32 (frame k p) = i32 (1 + int (length p))"
  by (simp add: frame_def rd32_be32_append)

lemma first_zero_replicate [simp]: "first_zero (replicate n b) \<longleftrightarrow> n = 0 \<or> b = 0"
  by (cases n) (auto simp: first_zero_def)

lemma handshake_shape:
  assumes "length h = 20" and "\<not> first_zero h" and "length pid = 20" and "\<not> first_zero pid"
  shows "HandShake_SetParameter None (Some h) (Some pid) HandShake
    = Inr (True, 19 # protocol_name @ replicate 8 0 @ h @ pid)"
proof -
  have hs: "HandShake = 19 # protocol_name @ replicate 8 0 @ replicate 20 0 @ replicate 20 0"
    by (simp add: HandShake_def protocol_name_def put_at_def eval_nat_numeral)
  have len: "length protocol_name = 19" by (simp add: protocol_name_def)
  have "put_at 28 h HandShake = 19 # protocol_name @ replicate 8 0 @ h @ replicate 20 0"
    by (simp add: hs put_at_def len assms(1) eval_nat_numeral)
  moreover have "put_at 48 pid (19 # protocol_name @ replicate 8 0 @ h @ replicate 20 0)
      = 19 # protocol_name @ replicate 8 0 @ h @ pid"
    by (simp add: put_at_def len assms eval_nat_numeral)
  ultimately show ?thesis
    using assms by (simp add: HandShake_SetParameter_def mem_read_def put_field_def)
qed

section \<open>Properties\<close>

text \<open>C25: what a peer parses out of a \<open>Piece\<close>, a \<open>Request\<close> and a \<open>Have\<close> message (length prefix, id, the
  fields in network order, the slice) is what \<open>SetParameter\<close> was given.\<close>

theorem message_roundtrip:
  assumes "0 \<le> i" and "i < 2147483648" and "0 \<le> b" and "b < 2147483648" and "0 \<le> l" and "l < 2147483648"
    and "s \<noteq> []" and "length s < 2147483639"
  shows "(let m = Piece_SetParameter i b s Piece in rd32 m = 9 + int (length s) \<and> m ! 4 = 7
        \<and> rd32 (drop 5 m) = i \<and> rd32 (drop 9 m) = b \<and> drop 13 m = s)
    \<and> (let m = ReqCleBase_SetParameter i b l Request in rd32 m = 13 \<and> m ! 4 = 6 \<and> length m = 17
        \<and> rd32 (drop 5 m) = i \<and> rd32 (drop 9 m) = b \<and> rd32 (drop 13 m) = l)
    \<and> (let m = Have_SetParameter i Have in rd32 m = 5 \<and> m ! 4 = 4 \<and> length m = 9 \<and> rd32 (drop 5 m) = i)"
proof -
  have ids: "i32 i = i" "i32 b = b" "i32 l = l"
    using assms by (simp_all add: i32_id)
  have p: "Piece_SetParameter i b s Piece = frame 7 (be32 i @ be32 b @ s)"
    using assms by (simp add: Piece_frame)
  have q: "ReqCleBase_SetParameter i b l Request = frame 6 (be32 i @ be32 b @ be32 l)"
    by (simp add: ReqCleBase_frame Request_def)
  show ?thesis
    using assms ids unfolding p q Have_frame
    by (simp add: Let_def frame_drop frame_ident frame_prefix rd32_be32_append i32_id)
qed

theorem message_roundtrip_witness:
  "(let m = Piece_SetParameter 3 16384 [1, 2] Piece in rd32 m = 9 + int (length [1::byte, 2]) \<and> m ! 4 = 7
        \<and> rd32 (drop 5 m) = 3 \<and> rd32 (drop 9 m) = 16384 \<and> drop 13 m = [1, 2])
    \<and> (let m = ReqCleBase_SetParameter 3 16384 2 Request in rd32 m = 13 \<and> m ! 4 = 6 \<and> length m = 17
        \<and> rd32 (drop 5 m) = 3 \<and> rd32 (drop 9 m) = 16384 \<and> rd32 (drop 13 m) = 2)
    \<and> (let m = Have_SetParameter 3 Have in rd32 m = 5 \<and> m ! 4 = 4 \<and> length m = 9 \<and> rd32 (drop 5 m) = 3)"
  by (rule message_roundtrip) simp_all

text \<open>Once \<open>SetParameter\<close> has stored an info hash whose first byte is not 0, \<open>Varification\<close> accepts
  a peer's handshake of 68 bytes exactly when it opens with the protocol header and carries that hash.\<close>

theorem handshake_accepts:
  assumes "length h = 20" and "\<not> first_zero h" and "length pid = 20" and "\<not> first_zero pid"
    and "length p = 68"
  shows "\<exists>d. HandShake_SetParameter None (Some h) (Some pid) HandShake = Inr (True, d) \<and> length d = 68
    \<and> HandShake_Varification (Some p) d
        = Inr (take 20 p = 19 # protocol_name \<and> take 20 (drop 28 p) = h)"
proof -
  have len: "length protocol_name = 19" by (simp add: protocol_name_def)
  have z: "first_zero p \<Longrightarrow> take 20 p \<noteq> 19 # protocol_name"
    using assms(5) by (cases p) (auto simp: first_zero_def)
  show ?thesis
    using handshake_shape [OF assms(1-4)] assms z
    by (auto simp: HandShake_Varification_def len)
qed

theorem handshake_accepts_witness:
  "\<exists>d. HandShake_SetParameter None (Some (replicate 20 7)) (Some (replicate 20 49)) HandShake = Inr (True, d)
    \<and> length d = 68 \<and> HandShake_Varification (Some (replicate 68 19)) d
        = Inr (take 20 (replicate 68 19) = 19 # protocol_name \<and> take 20 (drop 28 (replicate 68 19)) = replicate 20 (7::byte))"
  by (rule handshake_accepts) (simp_all add: first_zero_replicate)

text \<open>An info hash whose first byte is 0 is taken for an empty one: \<open>SetParameter\<close> fails and leaves the
  hash of the handshake 0, so that no peer of the torrent is accepted.\<close>

theorem handshake_zero_hash:
  assumes "length h = 20" and "hd h = 0" and "h \<noteq> replicate 20 0" and "length p = 68" and "take 20 (drop 28 p) = h"
  shows "HandShake_SetParameter None (Some h) pid HandShake = Inr (False, HandShake)
    \<and> HandShake_Varification (Some p) HandShake = Inr False"
proof -
  have "first_zero h" using assms by (cases h) (auto simp: first_zero_def)
  moreover have "take 20 (drop 28 HandShake) = replicate 20 0"
    by (simp add: HandShake_def protocol_name_def put_at_def eval_nat_numeral)
  ultimately show ?thesis
    using assms by (auto simp: HandShake_SetParameter_def HandShake_Varification_def)
qed

theorem handshake_zero_hash_witness:
  "HandShake_SetParameter None (Some (0 # replicate 19 5)) None HandShake = Inr (False, HandShake)
    \<and> HandShake_Varification (Some (replicate 28 19 @ 0 # replicate 19 5 @ replicate 20 1)) HandShake = Inr False"
  by (rule handshake_zero_hash) (auto dest!: arg_cong [of _ _ last])

end
