(* ===== verification/RW_Lock.thy ===== *)
theory RW_Lock
  imports Prelude
begin

text \<open>
  The read-write lock (\<open>pthread_rwlock_t\<close>) every component of the client guards its state with,
  and the RAII wrapper \<open>UniqueRWLock\<close> of \<open>Lock/\<close>. A thread runs one operation after the other;
  \<open>None\<close> is a call that does not get the lock: the error code of a lock that is not live, or a
  lock still held, on which POSIX lets the call report \<open>EDEADLK\<close> or block for ever. Either way
  the operation that made the call has no effect on the state the lock guards.
\<close>

record rwlock =
  lk_live :: bool
  lk_readers :: nat
  lk_writer :: bool

definition lock_idle :: rwlock where
  "lock_idle = \<lparr>lk_live = True, lk_readers = 0, lk_writer = False\<rparr>"

definition rwlock_rdlock :: "rwlock \<Rightarrow> rwlock option" where
  "rwlock_rdlock l =
     (if lk_live l \<and> \<not> lk_writer l then Some (l\<lparr>lk_readers := Suc (lk_readers l)\<rparr>) else None)"

definition rwlock_wrlock :: "rwlock \<Rightarrow> rwlock option" where
  "rwlock_wrlock l =
     (if lk_live l \<and> \<not> lk_writer l \<and> lk_readers l = 0 then Some (l\<lparr>lk_writer := True\<rparr>) else None)"

definition rwlock_unlock :: "rwlock \<Rightarrow> rwlock option" where
  "rwlock_unlock l =
     (if \<not> lk_live l then None
      else if lk_writer l then Some (l\<lparr>lk_writer := False\<rparr>)
      else if lk_readers l \<noteq> 0 then Some (l\<lparr>lk_readers := lk_readers l - 1\<rparr>)
      else None)"

definition rwlock_destroy :: "rwlock \<Rightarrow> rwlock" where
  "rwlock_destroy l = l\<lparr>lk_live := False\<rparr>"

text \<open>An unlock whose result the source ignores.\<close>

definition unlock :: "rwlock \<Rightarrow> rwlock" where
  "unlock l = (case rwlock_unlock l of None \<Rightarrow> l | Some l' \<Rightarrow> l')"

lemma wrlock_unlock: "rwlock_wrlock l = Some l' \<Longrightarrow> unlock l' = l"
  by (auto simp: rwlock_wrlock_def unlock_def rwlock_unlock_def split: if_splits)

lemma rdlock_unlock: "rwlock_rdlock l = Some l' \<Longrightarrow> unlock l' = l"
  by (auto simp: rwlock_rdlock_def unlock_def rwlock_unlock_def split: if_splits)

lemma wrlock_idle [simp]: "rwlock_wrlock lock_idle = Some (lock_idle\<lparr>lk_writer := True\<rparr>)"
  by (simp add: rwlock_wrlock_def lock_idle_def)

lemma rdlock_idle [simp]: "rwlock_rdlock lock_idle = Some (lock_idle\<lparr>lk_readers := 1\<rparr>)"
  by (simp add: rwlock_rdlock_def lock_idle_def)

lemma unlock_idle [simp]:
  "unlock (lock_idle\<lparr>lk_writer := True\<rparr>) = lock_idle"
  "unlock (lock_idle\<lparr>lk_readers := Suc 0\<rparr>) = lock_idle"
  by (simp_all add: unlock_def rwlock_unlock_def lock_idle_def)

lemma held_refuses: "lk_writer l \<Longrightarrow> rwlock_wrlock l = None \<and> rwlock_rdlock l = None"
  by (simp add: rwlock_wrlock_def rwlock_rdlock_def)

section \<open>UniqueRWLock\<close>

text \<open>The wrapper holds a flag \<open>lock\<close> and a pointer to the lock: the pair of both states.\<close>

type_synonym unique = "bool \<times> rwlock"

definition UniqueRWLock :: "rwlock \<Rightarrow> bool \<Rightarrow> unique" where
  "UniqueRWLock l rd =
     (if rd then (case rwlock_rdlock l of None \<Rightarrow> (False, l) | Some l' \<Rightarrow> (True, l'))
      else (case rwlock_wrlock l of None \<Rightarrow> (False, l) | Some l' \<Rightarrow> (True, l')))"

definition RdLock :: "unique \<Rightarrow> unique" where
  "RdLock u = (if fst u then u
     else (case rwlock_rdlock (snd u) of None \<Rightarrow> u | Some l' \<Rightarrow> (True, l')))"

definition WrLock :: "unique \<Rightarrow> unique" where
  "WrLock u = (if fst u then u
     else (case rwlock_wrlock (snd u) of None \<Rightarrow> u | Some l' \<Rightarrow> (True, l')))"

definition UnLock :: "unique \<Rightarrow> unique" where
  "UnLock u = (if \<not> fst u then u
     else (case rwlock_unlock (snd u) of None \<Rightarrow> u | Some l' \<Rightarrow> (False, l')))"

definition UniqueRWLock_dtor :: "unique \<Rightarrow> rwlock" where
  "UniqueRWLock_dtor u = (if fst u then snd (UnLock u) else snd u)"

datatype lock_op = LRd | LWr | LUn

fun lock_step :: "unique \<Rightarrow> lock_op \<Rightarrow> unique" where
  "lock_step u LRd = RdLock u"
| "lock_step u LWr = WrLock u"
| "lock_step u LUn = UnLock u"

definition scope :: "rwlock \<Rightarrow> bool \<Rightarrow> lock_op list \<Rightarrow> rwlock" where
  "scope l rd ops = UniqueRWLock_dtor (foldl lock_step (UniqueRWLock l rd) ops)"

text \<open>The wrapper owns the lock exactly when its flag is set: what a scope relies on.\<close>

definition owns :: "rwlock \<Rightarrow> unique \<Rightarrow> bool" where
  "owns l u \<longleftrightarrow> (if fst u then rwlock_rdlock l = Some (snd u) \<or> rwlock_wrlock l = Some (snd u)
     else snd u = l)"

lemma owns_new: "owns l (UniqueRWLock l rd)"
  by (simp add: owns_def UniqueRWLock_def split: option.splits)

lemma owned_unlock:
  "rwlock_rdlock l = Some l' \<or> rwlock_wrlock l = Some l' \<Longrightarrow> rwlock_unlock l' = Some l"
  by (auto simp: rwlock_rdlock_def rwlock_wrlock_def rwlock_unlock_def split: if_splits)

lemma owns_step: "owns l u \<Longrightarrow> owns l (lock_step u x)"
  by (cases x) (auto simp: owns_def RdLock_def WrLock_def UnLock_def owned_unlock split: option.splits)

lemma owns_steps: "owns l u \<Longrightarrow> owns l (foldl lock_step u ops)"
  by (induction ops arbitrary: u) (simp_all add: owns_step)

lemma owns_dtor: "owns l u \<Longrightarrow> UniqueRWLock_dtor u = l"
  by (auto simp: owns_def UniqueRWLock_dtor_def UnLock_def owned_unlock split: option.splits)

end
