(* ===== verification/Tables.thy ===== *)
theory Tables
  imports Prelude
begin

text \<open>
  The hash table (\<open>std::unordered_map\<close>) the components keep their sockets, ids, pieces and
  headers in: the operations the sources call (\<open>find\<close>, \<open>emplace\<close>, \<open>erase\<close>, a write through the
  iterator \<open>find\<close> returned), as operations of an association list, and the contract the
  components rely on as the locale \<open>hash_table\<close>. \<open>emplace\<close> keeps the entry that is there.
\<close>

type_synonym ('k, 'v) table = "('k \<times> 'v) list"

definition tfind :: "('k, 'v) table \<Rightarrow> 'k \<Rightarrow> 'v option" where
  "tfind t k = map_of t k"

definition templace :: "'k \<Rightarrow> 'v \<Rightarrow> ('k, 'v) table \<Rightarrow> ('k, 'v) table" where
  "templace k v t = (if map_of t k = None then t @ [(k, v)] else t)"

definition terase :: "'k \<Rightarrow> ('k, 'v) table \<Rightarrow> ('k, 'v) table" where
  "terase k t = filter (\<lambda>p. fst p \<noteq> k) t"

definition tadjust :: "'k \<Rightarrow> ('v \<Rightarrow> 'v) \<Rightarrow> ('k, 'v) table \<Rightarrow> ('k, 'v) table" where
  "tadjust k f t = map (\<lambda>p. (fst p, if fst p = k then f (snd p) else snd p)) t"

definition tkeys :: "('k, 'v) table \<Rightarrow> 'k list" where
  "tkeys t = map fst t"

locale hash_table =
  fixes find :: "'t \<Rightarrow> 'k \<Rightarrow> 'v option"
    and emplace :: "'k \<Rightarrow> 'v \<Rightarrow> 't \<Rightarrow> 't"
    and erase :: "'k \<Rightarrow> 't \<Rightarrow> 't"
    and adjust :: "'k \<Rightarrow> ('v \<Rightarrow> 'v) \<Rightarrow> 't \<Rightarrow> 't"
    and keys :: "'t \<Rightarrow> 'k list"
  assumes find_emplace: "find (emplace k v t) k'
      = (if k' = k \<and> find t k = None then Some v else find t k')"
    and find_erase: "find (erase k t) k' = (if k' = k then None else find t k')"
    and find_adjust: "find (adjust k f t) k' = (if k' = k then map_option f (find t k) else find t k')"
    and keys_find: "k \<in> set (keys t) \<longleftrightarrow> find t k \<noteq> None"
    and distinct_emplace: "distinct (keys t) \<Longrightarrow> distinct (keys (emplace k v t))"
    and distinct_erase: "distinct (keys t) \<Longrightarrow> distinct (keys (erase k t))"
    and keys_adjust: "keys (adjust k f t) = keys t"
begin

lemma keys_emplace: "set (keys (emplace k v t)) = insert k (set (keys t))"
  by (auto simp: set_eq_iff keys_find find_emplace)

lemma keys_erase: "set (keys (erase k t)) = set (keys t) - {k}"
  by (auto simp: set_eq_iff keys_find find_erase)

lemma emplace_found: "find t k = Some v \<Longrightarrow> find (emplace k w t) k' = find t k'"
  by (simp add: find_emplace)

lemma find_adjust_same: "find t k = Some v \<Longrightarrow> find (adjust k f t) k = Some (f v)"
  by (simp add: find_adjust)

lemma find_adjust_other: "k' \<noteq> k \<Longrightarrow> find (adjust k f t) k' = find t k'"
  by (simp add: find_adjust)

lemma erase_erase: "find (erase k (erase k t)) k' = find (erase k t) k'"
  by (simp add: find_erase)

end

lemma map_of_filter_fst: "map_of (filter (\<lambda>p. fst p \<noteq> k) t) k' = (if k' = k then None else map_of t k')"
  by (induction t) auto

lemma map_of_map_adjust:
  "map_of (map (\<lambda>p. (fst p, if fst p = k then f (snd p) else snd p)) t) k'
     = (if k' = k then map_option f (map_of t k) else map_of t k')"
  by (induction t) auto

interpretation tbl: hash_table tfind templace terase tadjust tkeys
proof unfold_locales
  fix k k' :: 'a and v :: 'b and t :: "('a, 'b) table" and f
  show "tfind (templace k v t) k' = (if k' = k \<and> tfind t k = None then Some v else tfind t k')"
    by (auto simp: tfind_def templace_def map_add_def split: option.splits)
  show "tfind (terase k t) k' = (if k' = k then None else tfind t k')"
    by (simp add: tfind_def terase_def map_of_filter_fst)
  show "tfind (tadjust k f t) k' = (if k' = k then map_option f (tfind t k) else tfind t k')"
    by (simp add: tfind_def tadjust_def map_of_map_adjust)
  show "k \<in> set (tkeys t) \<longleftrightarrow> tfind t k \<noteq> None"
    by (auto simp: tkeys_def tfind_def map_of_eq_None_iff)
  show "distinct (tkeys t) \<Longrightarrow> distinct (tkeys (templace k v t))"
    by (auto simp: tkeys_def templace_def map_of_eq_None_iff)
  show "distinct (tkeys t) \<Longrightarrow> distinct (tkeys (terase k t))"
    by (simp add: tkeys_def terase_def distinct_map_filter)
  show "tkeys (tadjust k f t) = tkeys t"
    by (simp add: tkeys_def tadjust_def comp_def)
qed

lemmas tbl_find [simp] = tbl.find_emplace tbl.find_erase tbl.find_adjust

lemma tfind_Nil [simp]: "tfind [] k = None"
  by (simp add: tfind_def)

lemma tfind_Cons: "tfind ((k, v) # t) k' = (if k' = k then Some v else tfind t k')"
  by (simp add: tfind_def)

lemma tfind_set: "distinct (tkeys t) \<Longrightarrow> (k, v) \<in> set t \<longleftrightarrow> tfind t k = Some v"
  by (simp add: tfind_def tkeys_def)

lemma tfind_in_set: "tfind t k = Some v \<Longrightarrow> (k, v) \<in> set t"
  by (simp add: tfind_def map_of_SomeD)

end
