(* ===== verification/Bencode.thy ===== *)
theory Bencode
  imports Tables
begin

text \<open>
  The bencode reader: \<open>BInt\<close>, \<open>BStr\<close>, \<open>BList\<close>, \<open>BDict\<close> with their \<open>Decode\<close> methods, which
  consume the text they are given, and \<open>GetDictLength\<close>, which measures a dictionary without
  building it. The two loops of \<open>BList::Decode\<close> and \<open>BDict::Decode\<close> need not end (see
  \<open>decode_hangs\<close> in the root theory), so the four methods take fuel; \<open>no_wrap\<close> is the
  condition under which three units per character are always enough. The encoder \<open>bencode\<close> is
  the format's specification (the program has none).
\<close>

datatype bdata = BInt nat | BStr string | BList "bdata list" | BDict "(string \<times> bdata) list"

section \<open>Decode\<close>

definition BInt_Decode :: "string \<Rightarrow> (bdata \<times> string) res" where
  "BInt_Decode s =
     (if s = [] \<or> hd s \<noteq> CHR ''i'' then Inl Exit
      else (case find_ch CHR ''e'' s of
          None \<Rightarrow> Inl Exit
        | Some stop \<Rightarrow>
            (case stoul (take (stop - 1) (drop 1 s)) of
               Inl _ \<Rightarrow> Inl Exit
             | Inr n \<Rightarrow> Inr (BInt n, drop (stop + 1) s))))"

definition BStr_Decode :: "string \<Rightarrow> (string \<times> string) res" where
  "BStr_Decode s =
     (if s = [] then Inr ([], [])
      else (case find_ch CHR '':'' s of
          None \<Rightarrow> Inl Exit
        | Some mid \<Rightarrow>
            (case stoul (take mid s) of
               Inl _ \<Rightarrow> Inl Exit
             | Inr num \<Rightarrow>
                 (let tot = (num + mid + 1) mod 18446744073709551616
                  in if length s < tot then Inl Exit
                     else Inr (take num (drop (mid + 1) s), drop tot s)))))"

text \<open>The character the \<open>switch\<close> looks at: \<open>T_content[0]\<close> of an empty string is the terminator.\<close>

definition head_char :: "string \<Rightarrow> char" where
  "head_char s = (case s of [] \<Rightarrow> CHR 0x00 | c # _ \<Rightarrow> c)"

fun decode_next :: "nat \<Rightarrow> string \<Rightarrow> (bdata \<times> string) res"
  and BList_Decode :: "nat \<Rightarrow> string \<Rightarrow> (bdata \<times> string) res"
  and list_loop :: "nat \<Rightarrow> bdata list \<Rightarrow> string \<Rightarrow> (bdata list \<times> string) res"
  and BDict_Decode :: "nat \<Rightarrow> string \<Rightarrow> (bdata \<times> string) res"
  and dict_loop :: "nat \<Rightarrow> (string \<times> bdata) list \<Rightarrow> string
        \<Rightarrow> ((string \<times> bdata) list \<times> string) res" where
  "decode_next 0 s = Inl Fuel"
| "decode_next (Suc n) s =
     (if head_char s = CHR ''i'' then BInt_Decode s
      else if head_char s = CHR ''l'' then BList_Decode n s
      else if head_char s = CHR ''d'' then BDict_Decode n s
      else rbind (BStr_Decode s) (\<lambda>(d, s'). Inr (BStr d, s')))"
| "BList_Decode 0 s = Inl Fuel"
| "BList_Decode (Suc n) s =
     (if s = [] \<or> hd s \<noteq> CHR ''l'' then Inl Exit
      else rbind (list_loop n [] (drop 1 s)) (\<lambda>(xs, s'). Inr (BList xs, s')))"
| "list_loop 0 acc s = Inl Fuel"
| "list_loop (Suc n) acc s =
     (if s \<noteq> [] \<and> hd s \<noteq> CHR ''e''
      then rbind (decode_next n s) (\<lambda>(v, s'). list_loop n (acc @ [v]) s')
      else Inr (acc, drop 1 s))"
| "BDict_Decode 0 s = Inl Fuel"
| "BDict_Decode (Suc n) s =
     (if s = [] \<or> hd s \<noteq> CHR ''d'' then Inl Exit
      else rbind (dict_loop n [] (drop 1 s)) (\<lambda>(kvs, s'). Inr (BDict kvs, s')))"
| "dict_loop 0 acc s = Inl Fuel"
| "dict_loop (Suc n) acc s =
     (if s \<noteq> [] \<and> hd s \<noteq> CHR ''e''
      then rbind (BStr_Decode s)
             (\<lambda>(key, s1). rbind (decode_next n s1) (\<lambda>(v, s2). dict_loop n (templace key v acc) s2))
      else Inr (acc, drop 1 s))"

section \<open>Enough fuel\<close>

definition tag_fits :: "string \<Rightarrow> bool" where
  "tag_fits s = (case find_ch CHR '':'' s of None \<Rightarrow> True
     | Some mid \<Rightarrow> (case stoul (take mid s) of Inl _ \<Rightarrow> True
         | Inr n \<Rightarrow> n + mid + 1 < 18446744073709551616))"

definition no_wrap :: "string \<Rightarrow> bool" where
  "no_wrap s = list_all (\<lambda>i. tag_fits (drop i s)) [0..<length s]"

lemma no_wrap_drop: "no_wrap s \<Longrightarrow> no_wrap (drop k s)"
  by (auto simp: no_wrap_def list_all_iff)

lemma no_wrap_fits: "no_wrap s \<Longrightarrow> s \<noteq> [] \<Longrightarrow> tag_fits s"
  by (auto simp: no_wrap_def list_all_iff dest: bspec [where x = 0])

lemma BInt_Decode_drop: "BInt_Decode s = Inr (v, s') \<Longrightarrow> \<exists>k > 0. s' = drop k s"
  by (auto simp: BInt_Decode_def split: if_splits option.splits sum.splits)

lemma BStr_Decode_drop:
  assumes "no_wrap s" and "BStr_Decode s = Inr (d, s')"
  shows "\<exists>k. s' = drop k s \<and> (s \<noteq> [] \<longrightarrow> 0 < k)"
proof (cases "s = []")
  case True
  with assms show ?thesis by (simp add: BStr_Decode_def)
next
  case False
  with assms(2) obtain mid n where f: "find_ch CHR '':'' s = Some mid" and n: "stoul (take mid s) = Inr n"
    and s': "s' = drop ((n + mid + 1) mod 18446744073709551616) s"
    by (auto simp: BStr_Decode_def Let_def split: option.splits sum.splits if_splits)
  have "n + mid + 1 < 18446744073709551616"
    using no_wrap_fits [OF assms(1) False] f n by (simp add: tag_fits_def)
  then show ?thesis using s' by auto
qed

definition shrinks :: "string \<Rightarrow> string \<Rightarrow> bool" where
  "shrinks s s' \<longleftrightarrow> (\<exists>k. s' = drop k s \<and> (s \<noteq> [] \<longrightarrow> 0 < k))"

lemma shrinks_weak: "shrinks s s' \<Longrightarrow> \<exists>k. s' = drop k s"
  by (auto simp: shrinks_def)

lemma shrinks_less: "shrinks s s' \<Longrightarrow> s \<noteq> [] \<Longrightarrow> length s' < length s"
  by (auto simp: shrinks_def)

lemma shrinks_no_wrap: "shrinks s s' \<Longrightarrow> no_wrap s \<Longrightarrow> no_wrap s'"
  by (auto simp: shrinks_def intro: no_wrap_drop)

lemma drop_no_wrap: "\<exists>k. s' = drop k s \<Longrightarrow> no_wrap s \<Longrightarrow> no_wrap s'"
  by (auto intro: no_wrap_drop)

lemma drop_trans: "\<exists>k. t = drop k s \<Longrightarrow> \<exists>k. u = drop k t \<Longrightarrow> \<exists>k. u = drop k s"
  by auto

text \<open>What every method leaves is a suffix of what it was given.\<close>

definition consumes :: "nat \<Rightarrow> bool" where
  "consumes n \<longleftrightarrow>
     (\<forall>s v s'. no_wrap s \<longrightarrow> decode_next n s = Inr (v, s') \<longrightarrow> shrinks s s')
   \<and> (\<forall>s v s'. no_wrap s \<longrightarrow> BList_Decode n s = Inr (v, s') \<longrightarrow> shrinks s s')
   \<and> (\<forall>s acc xs s'. no_wrap s \<longrightarrow> list_loop n acc s = Inr (xs, s') \<longrightarrow> (\<exists>k. s' = drop k s))
   \<and> (\<forall>s v s'. no_wrap s \<longrightarrow> BDict_Decode n s = Inr (v, s') \<longrightarrow> shrinks s s')
   \<and> (\<forall>s acc xs s'. no_wrap s \<longrightarrow> dict_loop n acc s = Inr (xs, s') \<longrightarrow> (\<exists>k. s' = drop k s))"

lemma shrinks_drop1: "s \<noteq> [] \<Longrightarrow> \<exists>k. s' = drop k (drop 1 s) \<Longrightarrow> shrinks s s'"
  by (auto simp: shrinks_def)

lemma BStr_shrinks: "no_wrap s \<Longrightarrow> BStr_Decode s = Inr (d, s') \<Longrightarrow> shrinks s s'"
  by (simp add: shrinks_def BStr_Decode_drop)

lemma BInt_shrinks: "BInt_Decode s = Inr (v, s') \<Longrightarrow> shrinks s s'"
  by (auto simp: shrinks_def dest!: BInt_Decode_drop)

lemma consumes: "consumes n"
proof (induction n)
  case 0
  show ?case by (simp add: consumes_def)
next
  case (Suc n)
  have next_n: "shrinks s s'" if "no_wrap s" "decode_next n s = Inr (v, s')" for s v s'
    using Suc that by (auto simp: consumes_def)
  have loops: "\<exists>k. s' = drop k s" if "no_wrap s"
    "list_loop n acc s = Inr (xs, s') \<or> dict_loop n acc2 s = Inr (kvs, s')" for s acc acc2 xs kvs s'
    using Suc that by (auto simp: consumes_def)
  have step: "shrinks s s'" if "no_wrap s" "s \<noteq> []"
    "list_loop n [] (drop 1 s) = Inr (xs, s') \<or> dict_loop n [] (drop 1 s) = Inr (kvs, s')" for s xs kvs s'
    using loops [OF no_wrap_drop [OF that(1)] that(3)] shrinks_drop1 that(2) by blast
  have dec: "shrinks s s'" if "no_wrap s" "BList_Decode n s = Inr (v, s') \<or> BDict_Decode n s = Inr (v, s')" for s v s'
    using Suc that by (auto simp: consumes_def)
  have a: "shrinks s s'" if "no_wrap s" "decode_next (Suc n) s = Inr (v, s')" for s v s'
    using that dec by (auto simp: rbind_Inr_iff BInt_shrinks BStr_shrinks split: if_splits)
  have b: "shrinks s s'" if "no_wrap s" "BList_Decode (Suc n) s = Inr (v, s')" for s v s'
    using that step by (auto simp: rbind_Inr_iff split: if_splits)
  have d: "shrinks s s'" if "no_wrap s" "BDict_Decode (Suc n) s = Inr (v, s')" for s v s'
    using that step by (auto simp: rbind_Inr_iff split: if_splits)
  have l: "\<exists>k. s' = drop k s" if w: "no_wrap s" and e: "list_loop (Suc n) acc s = Inr (xs, s')" for s acc xs s'
  proof (cases "s \<noteq> [] \<and> hd s \<noteq> CHR ''e''")
    case True
    with e obtain v t where t: "decode_next n s = Inr (v, t)" and r: "list_loop n (acc @ [v]) t = Inr (xs, s')"
      by (auto simp: rbind_Inr_iff)
    have st: "shrinks s t" using next_n [OF w t] .
    show ?thesis
      by (rule drop_trans [OF shrinks_weak [OF st] loops [OF shrinks_no_wrap [OF st w] disjI1 [OF r]]])
  qed (use e in auto)
  have t: "\<exists>k. s' = drop k s" if w: "no_wrap s" and e: "dict_loop (Suc n) acc s = Inr (xs, s')" for s acc xs s'
  proof (cases "s \<noteq> [] \<and> hd s \<noteq> CHR ''e''")
    case True
    with e obtain key t v u where t: "BStr_Decode s = Inr (key, t)" and u: "decode_next n t = Inr (v, u)"
      and r: "dict_loop n (templace key v acc) u = Inr (xs, s')"
      by (auto simp: rbind_Inr_iff)
    have st: "shrinks s t" using BStr_shrinks [OF w t] .
    have tu: "shrinks t u" using next_n [OF shrinks_no_wrap [OF st w] u] .
    have "\<exists>k. s' = drop k t"
      by (rule drop_trans [OF shrinks_weak [OF tu]
            loops [OF shrinks_no_wrap [OF tu shrinks_no_wrap [OF st w]] disjI2 [OF r]]])
    then show ?thesis by (rule drop_trans [OF shrinks_weak [OF st]])
  qed (use e in auto)
  show ?case unfolding consumes_def
    by (intro conjI allI impI) (erule (1) a, erule (1) b, erule (1) l, erule (1) d, erule (1) t)
qed

definition returns :: "nat \<Rightarrow> bool" where
  "returns n \<longleftrightarrow>
     (\<forall>s. no_wrap s \<longrightarrow> 3 * length s + 2 \<le> n \<longrightarrow> decode_next n s \<noteq> Inl Fuel)
   \<and> (\<forall>s. no_wrap s \<longrightarrow> 3 * length s + 1 \<le> n \<longrightarrow> BList_Decode n s \<noteq> Inl Fuel)
   \<and> (\<forall>s acc. no_wrap s \<longrightarrow> 3 * length s + 3 \<le> n \<longrightarrow> list_loop n acc s \<noteq> Inl Fuel)
   \<and> (\<forall>s. no_wrap s \<longrightarrow> 3 * length s + 1 \<le> n \<longrightarrow> BDict_Decode n s \<noteq> Inl Fuel)
   \<and> (\<forall>s acc. no_wrap s \<longrightarrow> 3 * length s + 3 \<le> n \<longrightarrow> dict_loop n acc s \<noteq> Inl Fuel)"

lemma rbind_Fuel: "rbind r f = Inl Fuel \<longleftrightarrow> r = Inl Fuel \<or> (\<exists>x. r = Inr x \<and> f x = Inl Fuel)"
  by (cases r) auto

lemma BInt_not_Fuel: "BInt_Decode s \<noteq> Inl Fuel"
  by (auto simp: BInt_Decode_def split: option.splits sum.splits)

lemma BStr_not_Fuel: "BStr_Decode s \<noteq> Inl Fuel"
  by (auto simp: BStr_Decode_def Let_def split: option.splits sum.splits)

lemma returns: "returns n"
proof (induction n)
  case 0
  show ?case by (simp add: returns_def)
next
  case (Suc n)
  have nx: "decode_next n s \<noteq> Inl Fuel" if "no_wrap s" "3 * length s + 2 \<le> n" for s
    using Suc that by (auto simp: returns_def)
  have lp: "list_loop n acc s \<noteq> Inl Fuel" "dict_loop n acc2 s \<noteq> Inl Fuel"
    if "no_wrap s" "3 * length s + 3 \<le> n" for s acc acc2
    using Suc that by (auto simp: returns_def)
  have dc: "BList_Decode n s \<noteq> Inl Fuel" "BDict_Decode n s \<noteq> Inl Fuel"
    if "no_wrap s" "3 * length s + 1 \<le> n" for s
    using Suc that by (auto simp: returns_def)
  have shr: "shrinks s s'" if "no_wrap s" "decode_next n s = Inr (v, s')" for s v s'
    using consumes [of n] that by (auto simp: consumes_def)
  have a: "decode_next (Suc n) s \<noteq> Inl Fuel" if "no_wrap s" "3 * length s + 2 \<le> Suc n" for s
    using that dc [of s] by (auto simp: rbind_Fuel BInt_not_Fuel BStr_not_Fuel)
  have b: "BList_Decode (Suc n) s \<noteq> Inl Fuel" "BDict_Decode (Suc n) s \<noteq> Inl Fuel"
    if "no_wrap s" "3 * length s + 1 \<le> Suc n" for s
    using that lp [OF no_wrap_drop [OF that(1), of 1]] by (cases s; auto simp: rbind_Fuel)+
  have l: "list_loop (Suc n) acc s \<noteq> Inl Fuel" if w: "no_wrap s" and l: "3 * length s + 3 \<le> Suc n" for s acc
  proof (cases "s \<noteq> [] \<and> hd s \<noteq> CHR ''e''")
    case True
    have "list_loop n (acc @ [v]) t \<noteq> Inl Fuel" if "decode_next n s = Inr (v, t)" for v t
      using lp(1) [OF shrinks_no_wrap [OF shr [OF w that] w]] shrinks_less [OF shr [OF w that]] True l by auto
    then show ?thesis using True nx [OF w] l by (auto simp: rbind_Fuel)
  qed auto
  have t: "dict_loop (Suc n) acc s \<noteq> Inl Fuel" if w: "no_wrap s" and l: "3 * length s + 3 \<le> Suc n" for s acc
  proof (cases "s \<noteq> [] \<and> hd s \<noteq> CHR ''e''")
    case True
    {
      fix key t
      assume t: "BStr_Decode s = Inr (key, t)"
      have st: "shrinks s t" using BStr_shrinks [OF w t] .
      have wt: "no_wrap t" using shrinks_no_wrap [OF st w] .
      have lt: "length t < length s" using shrinks_less [OF st] True by blast
      have "dict_loop n (templace key v acc) u \<noteq> Inl Fuel" if u: "decode_next n t = Inr (v, u)" for v u
      proof -
        have "length u \<le> length t" using shr [OF wt u] by (auto simp: shrinks_def)
        then show ?thesis using lp(2) [OF shrinks_no_wrap [OF shr [OF wt u] wt]] lt l by auto
      qed
      then have "rbind (decode_next n t) (\<lambda>(v, s2). dict_loop n (templace key v acc) s2) \<noteq> Inl Fuel"
        using nx [OF wt] lt l by (auto simp: rbind_Fuel)
    }
    then show ?thesis using True by (auto simp: rbind_Fuel BStr_not_Fuel)
  qed auto
  show ?case unfolding returns_def
    by (intro conjI allI impI) (erule (1) a, erule (1) b(1), erule (1) l, erule (1) b(2), erule (1) t)
qed

section \<open>The format\<close>

definition bstr :: "string \<Rightarrow> string" where
  "bstr s = dec (length s) @ CHR '':'' # s"

lemma size_bdata_value [termination_simp]:
  "p \<in> set kvs \<Longrightarrow> size (snd p) < Suc (size_list (size_prod (\<lambda>x. 0) size) kvs)"
  by (induction kvs) (auto simp: less_Suc_eq_le)

fun bencode :: "bdata \<Rightarrow> string" where
  "bencode (BInt n) = CHR ''i'' # dec n @ ''e''"
| "bencode (BStr s) = bstr s"
| "bencode (BList xs) = CHR ''l'' # concat (map bencode xs) @ ''e''"
| "bencode (BDict kvs) = CHR ''d'' # concat (map (\<lambda>p. bstr (fst p) @ bencode (snd p)) kvs) @ ''e''"

definition str_fits :: "string \<Rightarrow> bool" where
  "str_fits s \<longleftrightarrow> length (bstr s) < 18446744073709551616"

fun wf_bdata :: "bdata \<Rightarrow> bool" where
  "wf_bdata (BInt n) = (n < 18446744073709551616)"
| "wf_bdata (BStr s) = str_fits s"
| "wf_bdata (BList xs) = list_all wf_bdata xs"
| "wf_bdata (BDict kvs) =
     (distinct (map fst kvs) \<and> list_all (\<lambda>p. str_fits (fst p) \<and> wf_bdata (snd p)) kvs)"

fun need :: "bdata \<Rightarrow> nat" where
  "need (BInt n) = 1"
| "need (BStr s) = 1"
| "need (BList xs) = 3 + sum_list (map (\<lambda>x. Suc (need x)) xs)"
| "need (BDict kvs) = 3 + sum_list (map (\<lambda>p. Suc (need (snd p))) kvs)"

lemma bdata_induct [case_names BInt BStr BList BDict]:
  assumes "\<And>n. P (BInt n)" "\<And>s. P (BStr s)"
    "\<And>xs. (\<And>x. x \<in> set xs \<Longrightarrow> P x) \<Longrightarrow> P (BList xs)"
    "\<And>kvs. (\<And>p. p \<in> set kvs \<Longrightarrow> P (snd p)) \<Longrightarrow> P (BDict kvs)"
  shows "P v"
  using assms by (induction v) auto

lemma bstr_Cons: obtains c r where "bstr s = c # r" "is_digit c"
  by (metis dec_Cons bstr_def append_Cons)

lemma bencode_Cons: obtains c r where "bencode v = c # r" "c \<noteq> CHR ''e''"
proof (cases v)
  case (BStr s)
  then show ?thesis using that bstr_Cons [of s] digit_props by (metis bencode.simps(2))
qed (use that in auto)

lemma length_bencode: "2 \<le> length (bencode v)"
proof (cases v)
  case (BStr s)
  then show ?thesis using dec_spec [of "length s"] by (cases "dec (length s)") (auto simp: bstr_def)
qed auto

lemma need_bound: "Suc (need v) \<le> 2 * length (bencode v)"
proof (induction v rule: bdata_induct)
  case (BStr s)
  then show ?case using length_bencode [of "BStr s"] by simp
next
  case (BList xs)
  have "sum_list (map (\<lambda>x. Suc (need x)) xs) \<le> sum_list (map (\<lambda>x. 2 * length (bencode x)) xs)"
    by (rule sum_list_mono) (use BList in auto)
  then show ?case by (simp add: length_concat comp_def flip: sum_list_const_mult)
next
  case (BDict kvs)
  have "sum_list (map (\<lambda>p. Suc (need (snd p))) kvs)
      \<le> sum_list (map (\<lambda>p. 2 * length (bstr (fst p) @ bencode (snd p))) kvs)"
    by (rule sum_list_mono) (use BDict in force)
  then show ?case by (simp add: length_concat comp_def flip: sum_list_const_mult)
qed auto

lemma BStr_Decode_bstr: "str_fits s \<Longrightarrow> BStr_Decode (bstr s @ rest) = Inr (s, rest)"
proof -
  assume fits: "str_fits s"
  have find: "find_ch CHR '':'' (bstr s @ rest) = Some (length (dec (length s)))"
    using find_ch_append [OF dec_not(1), of "length s" "s @ rest"] by (simp add: bstr_def)
  have tot: "(length s + length (dec (length s)) + 1) mod 18446744073709551616
      = length s + length (dec (length s)) + 1"
    using fits by (simp add: str_fits_def bstr_def)
  have n: "stoul (dec (length s)) = Inr (length s)"
    using fits by (intro stoul_dec) (simp add: str_fits_def bstr_def)
  show ?thesis
    unfolding BStr_Decode_def find
    using n tot by (simp add: Let_def bstr_def)
qed

lemma BInt_Decode_bencode:
  "n < 18446744073709551616 \<Longrightarrow> BInt_Decode (bencode (BInt n) @ rest) = Inr (BInt n, rest)"
  using find_ch_append [of "CHR ''e''" "CHR ''i'' # dec n" rest]
  by (simp add: BInt_Decode_def dec_not stoul_dec)

lemma list_loop_bencode:
  assumes "\<And>x rest m. x \<in> set xs \<Longrightarrow> need x \<le> m \<Longrightarrow> decode_next m (bencode x @ rest) = Inr (x, rest)"
    and "1 + sum_list (map (\<lambda>x. Suc (need x)) xs) \<le> n"
  shows "list_loop n acc (concat (map bencode xs) @ CHR ''e'' # rest) = Inr (acc @ xs, rest)"
  using assms
proof (induction xs arbitrary: acc n)
  case Nil
  then show ?case by (cases n) auto
next
  case (Cons x xs)
  then obtain m where m: "n = Suc m" by (cases n) auto
  obtain c r where c: "bencode x = c # r" "c \<noteq> CHR ''e''" by (rule bencode_Cons)
  have "decode_next m (bencode x @ concat (map bencode xs) @ CHR ''e'' # rest)
      = Inr (x, concat (map bencode xs) @ CHR ''e'' # rest)"
    using Cons.prems m by simp
  then show ?case using Cons.IH [of m "acc @ [x]"] Cons.prems m c by simp
qed

lemma dict_loop_bencode:
  assumes "\<And>p rest m. p \<in> set kvs \<Longrightarrow> need (snd p) \<le> m
      \<Longrightarrow> decode_next m (bencode (snd p) @ rest) = Inr (snd p, rest)"
    and "1 + sum_list (map (\<lambda>p. Suc (need (snd p))) kvs) \<le> n"
    and "list_all (\<lambda>p. str_fits (fst p)) kvs" and "distinct (map fst (acc @ kvs))"
  shows "dict_loop n acc (concat (map (\<lambda>p. bstr (fst p) @ bencode (snd p)) kvs) @ CHR ''e'' # rest)
      = Inr (acc @ kvs, rest)"
  using assms
proof (induction kvs arbitrary: acc n)
  case Nil
  then show ?case by (cases n) auto
next
  case (Cons p kvs)
  let ?tl = "concat (map (\<lambda>p. bstr (fst p) @ bencode (snd p)) kvs) @ CHR ''e'' # rest"
  obtain m where m: "n = Suc m" using Cons.prems(2) by (cases n) auto
  obtain c r where c: "bstr (fst p) = c # r" "is_digit c" by (rule bstr_Cons)
  have key: "BStr_Decode (bstr (fst p) @ bencode (snd p) @ ?tl) = Inr (fst p, bencode (snd p) @ ?tl)"
    using Cons.prems(3) by (simp add: BStr_Decode_bstr)
  have val: "decode_next m (bencode (snd p) @ ?tl) = Inr (snd p, ?tl)"
    using Cons.prems m by simp
  have "map_of acc (fst p) = None"
    using Cons.prems(4) by (auto simp: map_of_eq_None_iff)
  then have emp: "templace (fst p) (snd p) acc = acc @ [p]"
    by (simp add: templace_def)
  have "dict_loop m (acc @ [p]) ?tl = Inr ((acc @ [p]) @ kvs, rest)"
    by (rule Cons.IH) (use Cons.prems m in auto)
  then show ?case
    using key val m c digit_props [OF c(2)] by (simp add: emp)
qed

lemma decode_next_bencode:
  "wf_bdata v \<Longrightarrow> need v \<le> n \<Longrightarrow> decode_next n (bencode v @ rest) = Inr (v, rest)"
proof (induction v arbitrary: n rest rule: bdata_induct)
  case (BInt k)
  then obtain m where "n = Suc m" by (cases n) auto
  then show ?case using BInt_Decode_bencode [of k rest] BInt.prems by (simp add: head_char_def)
next
  case (BStr s)
  then obtain m where "n = Suc m" by (cases n) auto
  moreover obtain c r where "bstr s = c # r" "is_digit c" by (rule bstr_Cons)
  ultimately show ?case
    using BStr_Decode_bstr [of s rest] BStr.prems digit_props [of c] by (simp add: head_char_def)
next
  case (BList xs)
  then obtain m where "n = Suc (Suc m)" by (cases n; cases "n - 1") auto
  then show ?case
    using list_loop_bencode [of xs m "[]" rest] BList by (simp add: head_char_def list_all_iff)
next
  case (BDict kvs)
  then obtain m where "n = Suc (Suc m)" by (cases n; cases "n - 1") auto
  then show ?case
    using dict_loop_bencode [of kvs m "[]" rest] BDict by (simp add: head_char_def list_all_iff)
qed

lemma BDict_Decode_bencode:
  assumes "wf_bdata (BDict kvs)" and "2 * length (bencode (BDict kvs)) \<le> n"
  shows "BDict_Decode n (bencode (BDict kvs) @ rest) = Inr (BDict kvs, rest)"
proof -
  have "decode_next (Suc n) (bencode (BDict kvs) @ rest) = Inr (BDict kvs, rest)"
    by (rule decode_next_bencode [OF assms(1)]) (use assms(2) need_bound [of "BDict kvs"] in linarith)
  then show ?thesis by (simp add: head_char_def)
qed

section \<open>GetDictLength\<close>

text \<open>
  \<open>T_str\<close> is a position in the buffer \<open>b\<close>; the terminator is at \<open>length b\<close> and a read past it is
  undefined. \<open>T_len\<close> counts the tokens the loop may still read, not characters.
\<close>

definition peek :: "string \<Rightarrow> nat \<Rightarrow> char res" where
  "peek b p = (if p < length b then Inr (b ! p) else if p = length b then Inr (CHR 0x00) else Inl Undef)"

definition digit_run :: "string \<Rightarrow> nat \<Rightarrow> string" where
  "digit_run b p = takeWhile is_digit (drop p b)"

fun dict_len_loop :: "string \<Rightarrow> nat \<Rightarrow> nat \<Rightarrow> nat \<Rightarrow> int res" where
  "dict_len_loop b 0 p c = Inr (int p)"
| "dict_len_loop b (Suc n) p c =
     (if c = 0 then Inr (int p)
      else rbind (peek b p) (\<lambda>ch.
        if ch = CHR ''d'' \<or> ch = CHR ''l'' then dict_len_loop b n (p + 1) (c + 1)
        else if ch = CHR ''e'' then dict_len_loop b n (p + 1) (c - 1)
        else if ch = CHR ''i'' then dict_len_loop b n (p + 1 + length (digit_run b (p + 1)) + 1) c
        else let num = digits_val (digit_run b p)
             in if 2147483648 \<le> num then Inl Undef
                else if num = 0 then Inr (- 1)
                else dict_len_loop b n (p + length (digit_run b p) + num + 1) c))"

definition GetDictLength :: "string \<Rightarrow> int \<Rightarrow> int res" where
  "GetDictLength b T_len =
     (if T_len \<le> 0 then Inr (- 1)
      else rbind (peek b 0) (\<lambda>ch. if ch \<noteq> CHR ''d'' then Inr (- 1) else dict_len_loop b (nat T_len) 1 1))"

text \<open>The tokens of a value, and the strings \<open>GetDictLength\<close> measures: not empty, an \<open>int\<close> long.\<close>

fun tokens :: "bdata \<Rightarrow> nat" where
  "tokens (BInt n) = 1"
| "tokens (BStr s) = 1"
| "tokens (BList xs) = 2 + sum_list (map tokens xs)"
| "tokens (BDict kvs) = 2 + sum_list (map (\<lambda>p. 1 + tokens (snd p)) kvs)"

definition str_short :: "string \<Rightarrow> bool" where
  "str_short s \<longleftrightarrow> s \<noteq> [] \<and> length s < 2147483648"

fun short_bdata :: "bdata \<Rightarrow> bool" where
  "short_bdata (BInt n) = True"
| "short_bdata (BStr s) = str_short s"
| "short_bdata (BList xs) = list_all short_bdata xs"
| "short_bdata (BDict kvs) = list_all (\<lambda>p. str_short (fst p) \<and> short_bdata (snd p)) kvs"

lemma peek_append [simp]: "peek (pre @ c # r) (length pre) = Inr c"
  by (simp add: peek_def)

lemma digit_run_dec:
  "\<not> is_digit c \<Longrightarrow> digit_run (pre @ dec n @ c # r) (length pre) = dec n"
  by (simp add: digit_run_def takeWhile_append dec_digits)

lemma dict_len_bstr:
  assumes "str_short s" and "0 < c"
  shows "dict_len_loop (pre @ bstr s @ rest) (Suc n) (length pre) c
    = dict_len_loop (pre @ bstr s @ rest) n (length pre + length (bstr s)) c"
proof -
  obtain d ds where d: "dec (length s) = d # ds" "is_digit d" by (rule dec_Cons)
  have "peek (pre @ bstr s @ rest) (length pre) = Inr d"
    using d by (simp add: bstr_def)
  moreover have "digit_run (pre @ bstr s @ rest) (length pre) = dec (length s)"
    using digit_run_dec [of "CHR '':''"] by (simp add: bstr_def is_digit_def)
  ultimately show ?thesis
    using assms digit_props [OF d(2)] dec_spec [of "length s"]
    by (simp add: str_short_def bstr_def add.assoc Let_def)
qed

lemma dict_len_seq:
  assumes "\<And>x pre rest n c. x \<in> set xs \<Longrightarrow> 0 < c \<Longrightarrow>
      dict_len_loop (pre @ f x @ rest) (t x + n) (length pre) c
        = dict_len_loop (pre @ f x @ rest) n (length pre + length (f x)) c"
    and "0 < c"
  shows "dict_len_loop (pre @ concat (map f xs) @ rest) (sum_list (map t xs) + n) (length pre) c
    = dict_len_loop (pre @ concat (map f xs) @ rest) n (length pre + length (concat (map f xs))) c"
  using assms
proof (induction xs arbitrary: pre)
  case (Cons x xs)
  from Cons.prems(1) [of x c pre "concat (map f xs) @ rest" "sum_list (map t xs) + n"] Cons.prems(2)
    Cons.IH [of "pre @ f x"] Cons.prems
  show ?case by (simp add: add.assoc)
qed simp

lemma dict_len_entries:
  assumes val: "\<And>p c pre rest n. p \<in> set kvs \<Longrightarrow> 0 < c \<Longrightarrow>
      dict_len_loop (pre @ bencode (snd p) @ rest) (tokens (snd p) + n) (length pre) c
        = dict_len_loop (pre @ bencode (snd p) @ rest) n (length pre + length (bencode (snd p))) c"
    and short: "\<And>p. p \<in> set kvs \<Longrightarrow> str_short (fst p)"
  shows "dict_len_loop (pre @ bencode (BDict kvs) @ rest)
      (sum_list (map (\<lambda>p. 1 + tokens (snd p)) kvs) + Suc n) (length pre + 1) (Suc c)
    = dict_len_loop (pre @ bencode (BDict kvs) @ rest) n (length pre + length (bencode (BDict kvs))) c"
proof -
  let ?f = "\<lambda>p. bstr (fst p) @ bencode (snd p)" and ?t = "\<lambda>p. 1 + tokens (snd p)"
  have one: "dict_len_loop (pre @ ?f p @ rest) (?t p + n) (length pre) c
        = dict_len_loop (pre @ ?f p @ rest) n (length pre + length (?f p)) c"
    if "p \<in> set kvs" "0 < c" for p pre rest n c
    using dict_len_bstr [OF short [OF that(1)] that(2), of pre "bencode (snd p) @ rest" "tokens (snd p) + n"]
      val [OF that, of "pre @ bstr (fst p)" rest n]
    by (simp add: add.assoc)
  have "dict_len_loop ((pre @ ''d'') @ concat (map ?f kvs) @ CHR ''e'' # rest)
        (sum_list (map ?t kvs) + Suc n) (length (pre @ ''d'')) (Suc c)
      = dict_len_loop ((pre @ ''d'') @ concat (map ?f kvs) @ CHR ''e'' # rest) (Suc n)
          (length (pre @ ''d'') + length (concat (map ?f kvs))) (Suc c)"
    by (rule dict_len_seq) (use one in auto)
  moreover have "peek ((pre @ CHR ''d'' # concat (map ?f kvs)) @ CHR ''e'' # rest)
      (length (pre @ CHR ''d'' # concat (map ?f kvs))) = Inr CHR ''e''"
    by (rule peek_append)
  ultimately show ?thesis by simp
qed

lemma dict_len_value:
  "short_bdata v \<Longrightarrow> 0 < c \<Longrightarrow> dict_len_loop (pre @ bencode v @ rest) (tokens v + n) (length pre) c
    = dict_len_loop (pre @ bencode v @ rest) n (length pre + length (bencode v)) c"
proof (induction v arbitrary: c pre rest n rule: bdata_induct)
  case (BInt k)
  have "digit_run (pre @ CHR ''i'' # dec k @ CHR ''e'' # rest) (Suc (length pre)) = dec k"
    using digit_run_dec [of "CHR ''e''" "pre @ ''i''" k rest] by (simp add: is_digit_def)
  then show ?case using BInt by simp
next
  case (BStr s)
  then show ?case using dict_len_bstr [of s c pre rest n] by simp
next
  case (BList xs)
  have "dict_len_loop ((pre @ ''l'') @ concat (map bencode xs) @ CHR ''e'' # rest)
        (sum_list (map tokens xs) + Suc n) (length (pre @ ''l'')) (c + 1)
      = dict_len_loop ((pre @ ''l'') @ concat (map bencode xs) @ CHR ''e'' # rest) (Suc n)
          (length (pre @ ''l'') + length (concat (map bencode xs))) (c + 1)"
    by (rule dict_len_seq) (use BList in \<open>auto simp: list_all_iff\<close>)
  moreover have "peek ((pre @ CHR ''l'' # concat (map bencode xs)) @ CHR ''e'' # rest)
      (length (pre @ CHR ''l'' # concat (map bencode xs))) = Inr CHR ''e''"
    by (rule peek_append)
  ultimately show ?case using BList.prems by simp
next
  case (BDict kvs)
  have "dict_len_loop (pre @ bencode (BDict kvs) @ rest)
      (sum_list (map (\<lambda>p. 1 + tokens (snd p)) kvs) + Suc n) (length pre + 1) (Suc c)
    = dict_len_loop (pre @ bencode (BDict kvs) @ rest) n (length pre + length (bencode (BDict kvs))) c"
    by (rule dict_len_entries) (use BDict in \<open>auto simp: list_all_iff\<close>)
  then show ?case using BDict.prems by simp
qed

lemma tokens_bound: "tokens v \<le> length (bencode v)"
proof (induction v rule: bdata_induct)
  case (BStr s)
  then show ?case using length_bencode [of "BStr s"] by simp
next
  case (BList xs)
  have "sum_list (map tokens xs) \<le> sum_list (map (\<lambda>x. length (bencode x)) xs)"
    by (rule sum_list_mono) (use BList in auto)
  then show ?case by (simp add: length_concat comp_def)
next
  case (BDict kvs)
  have "1 + tokens (snd p) \<le> length (bstr (fst p) @ bencode (snd p))" if "p \<in> set kvs" for p
    using BDict [OF that] length_bencode [of "BStr (fst p)"] by simp
  then have "sum_list (map (\<lambda>p. 1 + tokens (snd p)) kvs)
      \<le> sum_list (map (\<lambda>p. length (bstr (fst p) @ bencode (snd p))) kvs)"
    by (intro sum_list_mono) auto
  then show ?case by (simp add: length_concat comp_def)
qed simp

lemma dict_len_closed: "dict_len_loop b n p 0 = Inr (int p)"
  by (cases n) simp_all

lemma dict_length_bencode:
  assumes "short_bdata (BDict kvs)" and "int (length (bencode (BDict kvs))) \<le> T_len"
  shows "GetDictLength (bencode (BDict kvs) @ rest) T_len = Inr (int (length (bencode (BDict kvs))))"
proof -
  let ?b = "bencode (BDict kvs) @ rest"
  have le: "tokens (BDict kvs) \<le> nat T_len" and pos: "0 < T_len"
    using tokens_bound [of "BDict kvs"] assms(2) length_bencode [of "BDict kvs"] by linarith+
  from le obtain n where n: "nat T_len = sum_list (map (\<lambda>p. 1 + tokens (snd p)) kvs) + Suc n"
    by (auto dest!: le_Suc_ex)
  have "dict_len_loop ([] @ ?b) (sum_list (map (\<lambda>p. 1 + tokens (snd p)) kvs) + Suc n) (length ([] :: string) + 1) (Suc 0)
      = dict_len_loop ([] @ ?b) n (length ([] :: string) + length (bencode (BDict kvs))) 0"
    by (rule dict_len_entries) (use assms(1) in \<open>auto simp: list_all_iff dict_len_value\<close>)
  then have "dict_len_loop ?b (nat T_len) 1 1 = Inr (int (length (bencode (BDict kvs))))"
    by (simp add: n dict_len_closed del: bencode.simps)
  then show ?thesis using pos by (simp add: GetDictLength_def peek_def)
qed

section \<open>Lemmas: what Decode returns\<close>

text \<open>A text so short that every string in it can be measured in \<open>size_t\<close>.\<close>

definition small_text :: "string \<Rightarrow> bool" where
  "small_text s \<longleftrightarrow> 2 * length s + 2 < 18446744073709551616"

lemma small_text_le: "small_text s \<Longrightarrow> length t \<le> length s \<Longrightarrow> small_text t"
  by (simp add: small_text_def)

lemma length_dec: "length (dec n) \<le> n + 1"
proof (induction n rule: dec.induct)
  case (1 n)
  then show ?case by (subst dec.simps) (auto simp: not_less)
qed

lemma small_fits: "small_text s \<Longrightarrow> length d \<le> length s \<Longrightarrow> str_fits d"
  using length_dec [of "length d"] by (simp add: small_text_def str_fits_def bstr_def)

lemma BInt_Decode_wf: "BInt_Decode s = Inr (v, s') \<Longrightarrow> wf_bdata v \<and> length s' \<le> length s"
  by (auto simp: BInt_Decode_def stoul_def Let_def split: if_splits option.splits sum.splits prod.splits)

lemma BStr_Decode_wf: "small_text s \<Longrightarrow> BStr_Decode s = Inr (d, s') \<Longrightarrow> str_fits d \<and> length s' \<le> length s"
  by (auto simp: BStr_Decode_def Let_def intro!: small_fits split: if_splits option.splits sum.splits)

definition well_typed :: "nat \<Rightarrow> bool" where
  "well_typed n \<longleftrightarrow>
     (\<forall>s v s'. small_text s \<longrightarrow> decode_next n s = Inr (v, s') \<longrightarrow> wf_bdata v \<and> length s' \<le> length s)
   \<and> (\<forall>s v s'. small_text s \<longrightarrow> BList_Decode n s = Inr (v, s') \<longrightarrow> wf_bdata v \<and> length s' \<le> length s)
   \<and> (\<forall>s acc xs s'. small_text s \<longrightarrow> wf_bdata (BList acc) \<longrightarrow> list_loop n acc s = Inr (xs, s')
         \<longrightarrow> wf_bdata (BList xs) \<and> length s' \<le> length s)
   \<and> (\<forall>s v s'. small_text s \<longrightarrow> BDict_Decode n s = Inr (v, s') \<longrightarrow> wf_bdata v \<and> length s' \<le> length s)
   \<and> (\<forall>s acc kvs s'. small_text s \<longrightarrow> wf_bdata (BDict acc) \<longrightarrow> dict_loop n acc s = Inr (kvs, s')
         \<longrightarrow> wf_bdata (BDict kvs) \<and> length s' \<le> length s)"

lemma well_typedD:
  assumes "well_typed n" and "small_text s"
  shows "decode_next n s = Inr (v, s') \<Longrightarrow> wf_bdata v \<and> length s' \<le> length s"
    and "BList_Decode n s = Inr (v, s') \<Longrightarrow> wf_bdata v \<and> length s' \<le> length s"
    and "BDict_Decode n s = Inr (v, s') \<Longrightarrow> wf_bdata v \<and> length s' \<le> length s"
    and "wf_bdata (BList xs) \<Longrightarrow> list_loop n xs s = Inr (ys, s') \<Longrightarrow> wf_bdata (BList ys) \<and> length s' \<le> length s"
    and "wf_bdata (BDict kvs) \<Longrightarrow> dict_loop n kvs s = Inr (kvs', s') \<Longrightarrow> wf_bdata (BDict kvs') \<and> length s' \<le> length s"
  using assms unfolding well_typed_def by blast+

lemma wf_templace: "wf_bdata (BDict acc) \<Longrightarrow> str_fits k \<Longrightarrow> wf_bdata v \<Longrightarrow> wf_bdata (BDict (templace k v acc))"
  by (auto simp: templace_def map_of_eq_None_iff list_all_iff)

lemma well_typed: "well_typed n"
proof (induction n)
  case 0
  show ?case by (simp add: well_typed_def)
next
  case (Suc n)
  note h = well_typedD [OF Suc]
  have a: "wf_bdata v \<and> length s' \<le> length s" if "small_text s" "decode_next (Suc n) s = Inr (v, s')" for s v s'
  proof -
    note p = that(2)
    consider "BInt_Decode s = Inr (v, s')" | "BList_Decode n s = Inr (v, s')" | "BDict_Decode n s = Inr (v, s')"
      | d where "BStr_Decode s = Inr (d, s')" "v = BStr d"
      using p by (auto simp: rbind_Inr_iff split: if_splits)
    then show ?thesis
    proof cases
      case 1
      then show ?thesis by (rule BInt_Decode_wf)
    next
      case 2
      then show ?thesis by (rule h(2) [OF that(1)])
    next
      case 3
      then show ?thesis by (rule h(3) [OF that(1)])
    next
      case 4
      then show ?thesis using BStr_Decode_wf [OF that(1)] by simp
    qed
  qed
  have b: "wf_bdata v \<and> length s' \<le> length s" if "small_text s" "BList_Decode (Suc n) s = Inr (v, s')" for s v s'
  proof -
    note p = that
    obtain xs where "list_loop n [] (drop 1 s) = Inr (xs, s')" "v = BList xs"
      using p(2) by (auto simp: rbind_Inr_iff split: if_splits)
    then show ?thesis using h(4) [OF small_text_le [OF p(1), of "drop 1 s"], of "[]" xs s'] by (auto dest: order_trans [OF _ diff_le_self])
  qed
  have d: "wf_bdata v \<and> length s' \<le> length s" if "small_text s" "BDict_Decode (Suc n) s = Inr (v, s')" for s v s'
  proof -
    note p = that
    obtain kvs where "dict_loop n [] (drop 1 s) = Inr (kvs, s')" "v = BDict kvs"
      using p(2) by (auto simp: rbind_Inr_iff split: if_splits)
    then show ?thesis using h(5) [OF small_text_le [OF p(1), of "drop 1 s"], of "[]" kvs s'] by (auto dest: order_trans [OF _ diff_le_self])
  qed
  have l: "wf_bdata (BList xs) \<and> length s' \<le> length s"
    if "small_text s" "wf_bdata (BList acc)" "list_loop (Suc n) acc s = Inr (xs, s')" for s acc xs s'
  proof (cases "s \<noteq> [] \<and> hd s \<noteq> CHR ''e''")
    case True
    note p = that
    then obtain v t where t: "decode_next n s = Inr (v, t)" "list_loop n (acc @ [v]) t = Inr (xs, s')"
      using p(3) True by (auto simp: rbind_Inr_iff)
    then have v: "wf_bdata v" "length t \<le> length s" using h(1) [OF p(1) t(1)] by simp_all
    have "wf_bdata (BList (acc @ [v]))" using v(1) p(2) by simp
    then have "wf_bdata (BList xs) \<and> length s' \<le> length t" using h(4) [OF small_text_le [OF p(1) v(2)] _ t(2)] by blast
    then show ?thesis using v(2) by simp
  qed (use that in auto)
  have t: "wf_bdata (BDict kvs) \<and> length s' \<le> length s"
    if "small_text s" "wf_bdata (BDict acc)" "dict_loop (Suc n) acc s = Inr (kvs, s')" for s acc kvs s'
  proof (cases "s \<noteq> [] \<and> hd s \<noteq> CHR ''e''")
    case True
    note p = that
    then obtain key t v u where t: "BStr_Decode s = Inr (key, t)" "decode_next n t = Inr (v, u)"
      "dict_loop n (templace key v acc) u = Inr (kvs, s')"
      using p(3) True by (auto simp: rbind_Inr_iff)
    have k: "str_fits key" "length t \<le> length s" using BStr_Decode_wf [OF that(1) t(1)] by simp_all
    have v: "wf_bdata v" "length u \<le> length t" using h(1) [OF small_text_le [OF p(1) k(2)] t(2)] by simp_all
    have "wf_bdata (BDict kvs) \<and> length s' \<le> length u"
      using h(5) [OF small_text_le [OF p(1)] wf_templace [OF p(2) k(1) v(1)] t(3)] k(2) v(2) by simp
    then show ?thesis using k(2) v(2) by simp
  qed (use that in auto)
  show ?case unfolding well_typed_def
  proof (intro conjI)
    show "\<forall>s v s'. small_text s \<longrightarrow> decode_next (Suc n) s = Inr (v, s') \<longrightarrow> wf_bdata v \<and> length s' \<le> length s"
      using a by blast
    show "\<forall>s v s'. small_text s \<longrightarrow> BList_Decode (Suc n) s = Inr (v, s') \<longrightarrow> wf_bdata v \<and> length s' \<le> length s"
      using b by blast
    show "\<forall>s v s'. small_text s \<longrightarrow> BDict_Decode (Suc n) s = Inr (v, s') \<longrightarrow> wf_bdata v \<and> length s' \<le> length s"
      using d by blast
  qed (use l t in blast)+
qed

section \<open>Properties\<close>

text \<open>C8: every well-formed dictionary, encoded by the format's rules and followed by any text,
  is decoded to itself by \<open>BDict::Decode\<close>, which leaves exactly the text behind it.\<close>

theorem decode_bencode:
  assumes "wf_bdata (BDict kvs)" and "2 * length (bencode (BDict kvs)) \<le> n"
  shows "BDict_Decode n (bencode (BDict kvs) @ rest) = Inr (BDict kvs, rest)"
  by (rule BDict_Decode_bencode [OF assms])

theorem decode_bencode_witness:
  "BDict_Decode 40 (bencode (BDict [(''a'', BInt 5), (''b'', BList [BStr ''x''])]) @ ''tail'')
     = Inr (BDict [(''a'', BInt 5), (''b'', BList [BStr ''x''])], ''tail'')"
  by (rule decode_bencode) (simp_all add: str_fits_def bstr_def dec.simps)

text \<open>C31: on every text none of whose length prefixes wraps around in 64 bits, \<open>BDict::Decode\<close>
  returns or exits the process: fuel of three units per character and one is enough.\<close>

theorem decode_returns:
  assumes "no_wrap s" and "3 * length s + 1 \<le> n"
  shows "BDict_Decode n s \<noteq> Inl Fuel"
  using returns [of n] assms by (simp add: returns_def)

theorem decode_returns_witness: "BDict_Decode 22 ''d1:ai5e'' \<noteq> Inl Fuel"
  by (rule decode_returns)
    (simp_all add: no_wrap_def upt_rec tag_fits_def stoul_def split_sign_def is_space_def is_digit_def
      digits_val_def digit_val_def Let_def)

lemma BStr_Decode_stuck: "BStr_Decode ''-3:ee'' = Inr (''ee'', ''-3:ee'')"
  by (simp add: BStr_Decode_def stoul_def split_sign_def is_space_def is_digit_def digits_val_def
      digit_val_def Let_def)

lemma dict_loop_stuck: "dict_loop n acc ''-3:ee'' = Inl Fuel"
proof (induction n arbitrary: acc)
  case (Suc n)
  then show ?case
    by (cases n) (simp_all add: BStr_Decode_stuck head_char_def)
qed simp

text \<open>C32: the 15 bytes \<open>d4:infode-3:ee\<close> are a torrent file on which the client never gets past the
  decoder: the length prefix -3 wraps to a total of 0 bytes, the loop of \<open>BDict::Decode\<close> removes
  nothing and goes round for ever, whatever the fuel; the measure of the \<open>info\<close> dictionary, which
  \<open>main\<close> takes first, succeeds.\<close>

theorem decode_hangs:
  "BDict_Decode n ''d4:infode-3:ee'' = Inl Fuel \<and> GetDictLength ''de-3:ee'' 7 = Inr 2"
proof
  have key: "BStr_Decode ''4:infode-3:ee'' = Inr (''info'', ''de-3:ee'')"
    by (simp add: BStr_Decode_def stoul_def split_sign_def is_space_def is_digit_def digits_val_def
        digit_val_def Let_def)
  have val: "decode_next m ''de-3:ee'' = Inl Fuel \<or> decode_next m ''de-3:ee'' = Inr (BDict [], ''-3:ee'')" for m
    by (cases m; cases "m - 1"; cases "m - 2") (auto simp: head_char_def)
  have "dict_loop m [] ''4:infode-3:ee'' = Inl Fuel" for m
    by (cases m) (use key dict_loop_stuck val [of "m - 1"] in auto)
  then show "BDict_Decode n ''d4:infode-3:ee'' = Inl Fuel" by (cases n) auto
  show "GetDictLength ''de-3:ee'' 7 = Inr 2" by (simp add: GetDictLength_def peek_def eval_nat_numeral)
qed

text \<open>On the encoding of a dictionary whose strings are not empty, \<open>GetDictLength\<close> returns the
  length of that encoding, so \<open>main\<close> hashes exactly the bytes of the \<open>info\<close> dictionary.\<close>

theorem GetDictLength_bencode:
  assumes "short_bdata (BDict kvs)" and "int (length (bencode (BDict kvs))) \<le> T_len"
  shows "GetDictLength (bencode (BDict kvs) @ rest) T_len = Inr (int (length (bencode (BDict kvs))))"
  by (rule dict_length_bencode [OF assms])

theorem GetDictLength_bencode_witness:
  "GetDictLength (bencode (BDict [(''name'', BStr ''x''), (''n'', BInt 5)]) @ ''e'') 30
     = Inr (int (length (bencode (BDict [(''name'', BStr ''x''), (''n'', BInt 5)]))))"
  by (rule GetDictLength_bencode) (simp_all add: str_short_def bstr_def dec.simps)

text \<open>C9: whatever the text, what \<open>BDict::Decode\<close> returns is a value of the format: every integer fits in \<open>size_t\<close>, every string can
  be measured, no key occurs twice; and the value encodes to a text from which \<open>Decode\<close> reads the same value again, even when
  the text it came from was not in that canonical form.\<close>

theorem Decode_well_formed:
  assumes "BDict_Decode n s = Inr (v, rest)" and "small_text s" and "2 * length (bencode v) \<le> m"
  shows "wf_bdata v \<and> BDict_Decode m (bencode v @ more) = Inr (v, more)"
proof -
  have wf: "wf_bdata v" using well_typed [of n] assms(1,2) unfolding well_typed_def by blast
  obtain kvs where "v = BDict kvs" using assms(1) by (cases n) (auto simp: rbind_Inr_iff split: if_splits)
  then show ?thesis using wf assms(3) BDict_Decode_bencode [of kvs m more] by simp
qed

theorem Decode_well_formed_witness:
  "wf_bdata (BDict [(''a'', BInt 7)]) \<and> BDict_Decode 100 (bencode (BDict [(''a'', BInt 7)]) @ ''x'') = Inr (BDict [(''a'', BInt 7)], ''x'')"
proof (rule Decode_well_formed)
  have "BStr_Decode ''1:ai07eerest'' = Inr (''a'', ''i07eerest'')"
    using BStr_Decode_bstr [of "''a''" "''i07eerest''"] by (simp add: bstr_def str_fits_def dec.simps char_of_def bit_0)
  moreover have "BInt_Decode ''i07eerest'' = Inr (BInt 7, ''erest'')"
    by (simp add: BInt_Decode_def stoul_def split_sign_def is_digit_def is_space_def digit_val_def digits_val_def)
  ultimately show "BDict_Decode 20 ''d1:ai07eerest'' = Inr (BDict [(''a'', BInt 7)], ''rest'')"
    by (simp add: eval_nat_numeral head_char_def templace_def)
  show "2 * length (bencode (BDict [(''a'', BInt 7)])) \<le> 100" by (simp add: bstr_def dec.simps)
qed (simp add: small_text_def)

end
