(* ===== verification/Torrent_File.thy ===== *)
theory Torrent_File
  imports Bencode
begin

text \<open>
  \<open>TorrentFile\<close>: what the torrent file says, filled by the callbacks \<open>ReadData\<close> runs over the
  decoded dictionary, and the arithmetic on pieces, slices and files every other component asks
  it for. Lengths are \<open>uint64_t\<close>, piece numbers and offsets \<open>int32_t\<close>; the conversions of the
  source are written out. \<open>ReadData\<close> visits a dictionary in the order of its list: the table's
  iteration order is unspecified, so its theorems hold for every order of the entries.
\<close>

definition SLICESIZE :: int where
  "SLICESIZE = 16384"

definition i64 :: "int \<Rightarrow> int" where
  "i64 x = (x + 9223372036854775808) mod 18446744073709551616 - 9223372036854775808"

lemma i64_id: "- 9223372036854775808 \<le> x \<Longrightarrow> x < 9223372036854775808 \<Longrightarrow> i64 x = x"
  by (simp add: i64_def)

lemma i64_u64: "i64 (u64 x) = i64 x"
  by (simp add: i64_def u64_def mod_simps)

text \<open>Division and remainder of C++ by a positive number: towards zero.\<close>

definition cdiv :: "int \<Rightarrow> int \<Rightarrow> int" where
  "cdiv a b = (if 0 \<le> a then a div b else - ((- a) div b))"

definition cmod :: "int \<Rightarrow> int \<Rightarrow> int" where
  "cmod a b = a - cdiv a b * b"

lemma cdiv_nonneg: "0 \<le> a \<Longrightarrow> cdiv a b = a div b"
  by (simp add: cdiv_def)

lemma cmod_nonneg: "0 \<le> a \<Longrightarrow> cmod a b = a mod b"
  by (simp add: cmod_def cdiv_def minus_div_mult_eq_mod)

section \<open>The state\<close>

record file_t =
  fl_length :: int
  fl_path :: string

record torrent =
  tf_files :: "file_t list"
  tf_pieces :: string
  tf_name :: string
  tf_length :: int
  tf_piece_length :: int
  tf_single :: bool
  tf_announce_list :: "string list"
  tf_comment :: string
  tf_create_by :: string
  tf_creation_date :: int
  tf_name_data :: "string list"

definition callback_names :: "string list" where
  "callback_names = [''announce'', ''announce-list'', ''comment'', ''create by'', ''creation data'',
     ''infopiece length'', ''infopieces'', ''infofileslength'', ''infofilespath'', ''infoname'', ''infolength'']"

definition new_torrent :: torrent where
  "new_torrent = \<lparr>tf_files = [], tf_pieces = [], tf_name = [], tf_length = 0, tf_piece_length = 0,
     tf_single = True, tf_announce_list = [], tf_comment = [], tf_create_by = [], tf_creation_date = 0,
     tf_name_data = callback_names\<rparr>"

section \<open>The callbacks and ReadData\<close>

text \<open>A callback reads the \<open>void*\<close> it is given as the type it expects: the other type is undefined.\<close>

datatype value_t = VInt nat | VStr string

definition with_int :: "value_t \<Rightarrow> (int \<Rightarrow> torrent) \<Rightarrow> torrent res" where
  "with_int v f = (case v of VInt n \<Rightarrow> Inr (f (int n)) | VStr _ \<Rightarrow> Inl Undef)"

definition with_str :: "value_t \<Rightarrow> (string \<Rightarrow> torrent) \<Rightarrow> torrent res" where
  "with_str v f = (case v of VStr s \<Rightarrow> Inr (f s) | VInt _ \<Rightarrow> Inl Undef)"

definition add_file_length :: "int \<Rightarrow> file_t list \<Rightarrow> file_t list" where
  "add_file_length n fs =
     (if fs = [] then [\<lparr>fl_length = n, fl_path = []\<rparr>]
      else if fl_length (last fs) = 0 then butlast fs @ [(last fs)\<lparr>fl_length := n\<rparr>]
      else fs @ [\<lparr>fl_length = n, fl_path = []\<rparr>])"

definition add_file_path :: "string \<Rightarrow> file_t list \<Rightarrow> file_t list" where
  "add_file_path s fs =
     (if fs = [] then [\<lparr>fl_length = 0, fl_path = []\<rparr>]
      else if fl_path (last fs) \<noteq> [] then butlast fs @ [(last fs)\<lparr>fl_path := s\<rparr>]
      else fs @ [\<lparr>fl_length = 0, fl_path = s\<rparr>])"

definition callback :: "string \<Rightarrow> value_t \<Rightarrow> torrent \<Rightarrow> torrent res" where
  "callback name v t =
     (if name = ''announce'' \<or> name = ''announce-list''
        then with_str v (\<lambda>s. t\<lparr>tf_announce_list := tf_announce_list t @ [s]\<rparr>)
      else if name = ''comment'' then with_str v (\<lambda>s. t\<lparr>tf_comment := s\<rparr>)
      else if name = ''create by'' then with_str v (\<lambda>s. t\<lparr>tf_create_by := s\<rparr>)
      else if name = ''creation data'' then with_int v (\<lambda>n. t\<lparr>tf_creation_date := n\<rparr>)
      else if name = ''infopiece length'' then with_int v (\<lambda>n. t\<lparr>tf_piece_length := n\<rparr>)
      else if name = ''infopieces'' then with_str v (\<lambda>s. t\<lparr>tf_pieces := s\<rparr>)
      else if name = ''infofileslength'' then with_int v (\<lambda>n. t\<lparr>tf_files := add_file_length n (tf_files t)\<rparr>)
      else if name = ''infofilespath''
        then with_str v (\<lambda>s. t\<lparr>tf_single := False, tf_files := add_file_path s (tf_files t)\<rparr>)
      else if name = ''infoname'' then with_str v (\<lambda>s. t\<lparr>tf_name := s\<rparr>)
      else if name = ''infolength'' then with_int v (\<lambda>n. t\<lparr>tf_single := True, tf_length := n\<rparr>)
      else Inr t)"

text \<open>\<open>name_data.find\<close>: only a registered name has a callback.\<close>

definition visit :: "string \<Rightarrow> value_t \<Rightarrow> torrent \<Rightarrow> torrent res" where
  "visit name v t = (if name \<in> set (tf_name_data t) then callback name v t else Inr t)"

fun foldr_res :: "('a \<Rightarrow> 's \<Rightarrow> 's res) \<Rightarrow> 'a list \<Rightarrow> 's \<Rightarrow> 's res" where
  "foldr_res f [] s = Inr s"
| "foldr_res f (x # xs) s = rbind (f x s) (foldr_res f xs)"

lemma foldr_res_cong [fundef_cong]:
  assumes "xs = ys" "s = t" "\<And>x s. x \<in> set ys \<Longrightarrow> f x s = g x s"
  shows "foldr_res f xs s = foldr_res g ys t"
proof -
  have "foldr_res f ys t = foldr_res g ys t"
    using assms(3) by (induction ys arbitrary: t) (auto simp: rbind_def split: sum.splits)
  then show ?thesis by (simp add: assms(1,2))
qed

lemma size_last [termination_simp]: "xs \<noteq> [] \<Longrightarrow> size (last xs) < Suc (size_list size xs)"
  by (induction xs) auto

fun ReadData :: "string \<Rightarrow> bdata \<Rightarrow> torrent \<Rightarrow> torrent res" where
  "ReadData name (BInt n) t = visit name (VInt n) t"
| "ReadData name (BStr s) t = visit name (VStr s) t"
| "ReadData name (BList xs) t =
     (if xs = [] then Inr t
      else if name = ''infofilespath'' then ReadData name (last xs) t
      else foldr_res (\<lambda>x. ReadData name x) xs t)"
| "ReadData name (BDict kvs) t =
     (if kvs = [] then Inr t
      else foldr_res (\<lambda>p. ReadData (name @ fst p) (snd p)) kvs t)"

section \<open>Pieces\<close>

definition pieces_size :: "torrent \<Rightarrow> int" where
  "pieces_size t = int (length (tf_pieces t))"

definition GetHash :: "torrent \<Rightarrow> int \<Rightarrow> string res" where
  "GetHash t T_index =
     (if 2147483647 < (T_index + 1) * 20 then Inl Undef
      else if pieces_size t < (T_index + 1) * 20 \<or> T_index < 0 then Inr []
      else Inr (take 20 (drop (nat (T_index * 20)) (tf_pieces t))))"

fun sum_lengths :: "int \<Rightarrow> file_t list \<Rightarrow> int" where
  "sum_lengths a [] = a"
| "sum_lengths a (f # fs) = sum_lengths (u64 (a + fl_length f)) fs"

definition GetFileTotal :: "torrent \<Rightarrow> int" where
  "GetFileTotal t = (if tf_single t then tf_length t else sum_lengths 0 (tf_files t))"

definition GetIndexTotal :: "torrent \<Rightarrow> int res" where
  "GetIndexTotal t = (if tf_pieces t = [] then Inl Exit else Inr (u32 (pieces_size t div 20)))"

definition GetIndexBitTotal :: "torrent \<Rightarrow> int res" where
  "GetIndexBitTotal t =
     (if tf_pieces t = [] then Inl Exit
      else let ret = u32 (pieces_size t div 20)
           in Inr (if ret mod 8 = 0 then ret div 8 else ret div 8 + 1))"

definition GetIndexEnd :: "torrent \<Rightarrow> int" where
  "GetIndexEnd t = i32 (u64 (pieces_size t div 20 - 1))"

definition GetIndexEndLength :: "torrent \<Rightarrow> int" where
  "GetIndexEndLength t =
     (let total = (if tf_single t then u64 (tf_length t) else sum_lengths 0 (tf_files t))
      in i32 (u64 (total - u64 (GetIndexEnd t * tf_piece_length t))))"

definition GetIndexNormalLength :: "torrent \<Rightarrow> int" where
  "GetIndexNormalLength t = i32 (tf_piece_length t)"

fun sum_lengths32 :: "int \<Rightarrow> file_t list \<Rightarrow> int" where
  "sum_lengths32 a [] = a"
| "sum_lengths32 a (f # fs) = sum_lengths32 (i32 (u64 (a + fl_length f))) fs"

definition GetPieceLength :: "torrent \<Rightarrow> int \<Rightarrow> int" where
  "GetPieceLength t T_index =
     (if T_index < 0 then 0
      else let index_count = i32 (pieces_size t div 20) - 1
           in if index_count = T_index \<and> 0 = index_count
              then (if tf_single t then i32 (tf_length t) else sum_lengths32 0 (tf_files t))
              else if index_count = T_index
              then (if tf_single t
                    then i32 (u64 (tf_length t - u64 (index_count * tf_piece_length t)))
                    else i32 (u64 (sum_lengths32 0 (tf_files t) - u64 (index_count * tf_piece_length t))))
              else i32 (tf_piece_length t))"

definition GetPieceBit :: "torrent \<Rightarrow> int \<Rightarrow> int" where
  "GetPieceBit t T_index =
     (let ret = GetPieceLength t T_index
      in if cmod ret SLICESIZE = 0 then cdiv ret SLICESIZE else cdiv ret SLICESIZE + 1)"

definition CheckEndSlice :: "torrent \<Rightarrow> int \<Rightarrow> bool \<times> int" where
  "CheckEndSlice t T_index =
     (if T_index = GetIndexEnd t
      then let second = cmod (GetPieceLength t T_index) SLICESIZE
           in (True, if 0 = second then SLICESIZE else second)
      else (False, 0))"

definition CheckEndSlice_begin :: "torrent \<Rightarrow> int \<Rightarrow> int \<Rightarrow> bool \<times> int" where
  "CheckEndSlice_begin t T_index T_begin =
     (if T_index = GetIndexEnd t
      then let piece_len = GetPieceLength t T_index
           in (True,
               if piece_len < SLICESIZE then (if 0 = T_begin then piece_len else - 1)
               else if 0 = cmod T_begin SLICESIZE
               then (if piece_len < i32 (T_begin + SLICESIZE) then cmod piece_len SLICESIZE else SLICESIZE)
               else - 1)
      else (False, 0))"

section \<open>Files\<close>

text \<open>A file name with the place in it: begin and length.\<close>

type_synonym fileinfo = "string \<times> int \<times> int"

fun spill :: "string \<Rightarrow> file_t list \<Rightarrow> int \<Rightarrow> fileinfo list" where
  "spill base [] T_length = []"
| "spill base (f # fs) T_length =
     (if 0 < T_length
      then (base @ fl_path f, 0, if 0 < u64 (T_length - fl_length f) then i32 (fl_length f) else T_length)
             # spill base fs (i32 (u64 (T_length - fl_length f)))
      else [])"

fun locate :: "string \<Rightarrow> file_t list \<Rightarrow> int \<Rightarrow> int \<Rightarrow> fileinfo list" where
  "locate base [] cur_total T_length = []"
| "locate base (f # fs) cur_total T_length =
     (let cur = i64 (cur_total - fl_length f)
      in if cur < 0
         then (if cur + T_length \<le> 0
               then [(base @ fl_path f, i32 (u64 (cur + fl_length f)), T_length)]
               else (base @ fl_path f, i32 (u64 (cur + fl_length f)), i32 (fl_length f))
                      # spill base fs (i32 (T_length + cur)))
         else locate base fs cur T_length)"

definition GetFileName :: "torrent \<Rightarrow> int \<Rightarrow> int \<Rightarrow> int \<Rightarrow> fileinfo list" where
  "GetFileName t T_index T_begin T_length =
     (if T_index < 0 then []
      else if tf_single t
      then (if T_index = GetIndexEnd t
            then let first = i32 (u64 (T_index * tf_piece_length t))
                 in [(tf_name t, first, i32 (u64 (GetFileTotal t - first)))]
            else [(tf_name t, i32 (u64 (T_index * tf_piece_length t + T_begin)), T_length)])
      else let base = tf_name t @ ''/'';
               found = locate base (tf_files t) (i64 (u64 (T_index * tf_piece_length t + T_begin))) T_length
           in found @ replicate (length (tf_files t) - length found) (base, 0, 0))"

definition GetFileName_piece :: "torrent \<Rightarrow> int \<Rightarrow> fileinfo list" where
  "GetFileName_piece t T_index = GetFileName t T_index 0 (i32 (tf_piece_length t))"

definition Torrent_Clear :: "torrent \<Rightarrow> torrent" where
  "Torrent_Clear t = t\<lparr>tf_files := [], tf_pieces := [], tf_name := [], tf_announce_list := [],
     tf_comment := [], tf_create_by := [], tf_name_data := []\<rparr>"

section \<open>The trackers\<close>

record tracker_info =
  ti_tcp :: bool
  ti_fd :: int
  ti_host :: string
  ti_serv :: string
  ti_uri :: string

text \<open>\<open>substr(p, n)\<close> with \<open>n\<close> computed in \<open>size_t\<close>.\<close>

definition substr :: "string \<Rightarrow> nat \<Rightarrow> int \<Rightarrow> string" where
  "substr s p n = take (nat (u64 n)) (drop p s)"

definition track_info :: "string \<Rightarrow> tracker_info res" where
  "track_info val =
     (case find_sub ''//'' val of
        None \<Rightarrow> Inl Exit
      | Some host_flag \<Rightarrow>
          (case find_from CHR ''/'' (host_flag + 2) val of
             None \<Rightarrow> Inl Exit
           | Some uri_flag \<Rightarrow>
               let serv_flag = find_from CHR '':'' host_flag val in
               Inr \<lparr>ti_tcp = (find_sub ''udp'' val = None),
                    ti_fd = - 3,
                    ti_host = (case serv_flag of
                        None \<Rightarrow> substr val (host_flag + 2) (int uri_flag - int host_flag - 2)
                      | Some sf \<Rightarrow> substr val (host_flag + 2) (int sf - int host_flag - 2)),
                    ti_serv = (case serv_flag of
                        None \<Rightarrow> ''http''
                      | Some sf \<Rightarrow> substr val (sf + 1) (int uri_flag - int sf - 1)),
                    ti_uri = drop uri_flag val\<rparr>))"

definition GetTrackInfo :: "torrent \<Rightarrow> tracker_info list \<Rightarrow> tracker_info list res" where
  "GetTrackInfo t info =
     (if tf_announce_list t = [] then Inl Exit
      else foldr_res (\<lambda>val info. rbind (track_info val) (\<lambda>d. Inr (info @ [d]))) (tf_announce_list t) info)"

section \<open>Lemmas: reading the info dictionary\<close>

text \<open>One entry of a flat \<open>info\<close> dictionary, of the type its callback expects.\<close>

definition info_entry :: "string \<times> bdata \<Rightarrow> bool" where
  "info_entry p = (case snd p of
       BInt n \<Rightarrow> fst p \<notin> set [''pieces'', ''name'', ''filespath'', ''fileslength'']
     | BStr s \<Rightarrow> fst p \<notin> set [''length'', ''piece length'', ''filespath'', ''fileslength'']
     | _ \<Rightarrow> False)"

definition int_field :: "bdata option \<Rightarrow> int \<Rightarrow> int" where
  "int_field v d = (case v of Some (BInt n) \<Rightarrow> int n | _ \<Rightarrow> d)"

definition str_field :: "bdata option \<Rightarrow> string \<Rightarrow> string" where
  "str_field v d = (case v of Some (BStr s) \<Rightarrow> s | _ \<Rightarrow> d)"

definition info_fields :: "(string \<Rightarrow> bdata option) \<Rightarrow> torrent \<Rightarrow> torrent" where
  "info_fields m t = t\<lparr>tf_length := int_field (m ''length'') (tf_length t),
     tf_single := (m ''length'' \<noteq> None \<or> tf_single t),
     tf_piece_length := int_field (m ''piece length'') (tf_piece_length t),
     tf_pieces := str_field (m ''pieces'') (tf_pieces t),
     tf_name := str_field (m ''name'') (tf_name t)\<rparr>"

lemma info_fields_names [simp]: "tf_name_data (info_fields m t) = tf_name_data t"
  by (simp add: info_fields_def)

lemma visit_info:
  assumes "info_entry (k, v)" and "tf_name_data t = callback_names"
  shows "ReadData (''info'' @ k) v t = Inr (info_fields [k \<mapsto> v] t)"
proof (cases v)
  case (BInt n)
  then show ?thesis using assms
    by (auto simp: visit_def callback_names_def callback_def with_int_def info_entry_def info_fields_def
        int_field_def str_field_def)
next
  case (BStr s)
  then show ?thesis using assms
    by (auto simp: visit_def callback_names_def callback_def with_str_def info_entry_def info_fields_def
        int_field_def str_field_def)
qed (use assms in \<open>auto simp: info_entry_def\<close>)

lemma info_fields_step:
  assumes "m k = None"
  shows "info_fields m (info_fields [k \<mapsto> v] t) = info_fields (m(k \<mapsto> v)) t"
  using assms by (auto simp: info_fields_def int_field_def str_field_def split: option.splits bdata.splits)

lemma read_info:
  assumes "list_all info_entry kvs" and "distinct (map fst kvs)" and "tf_name_data t = callback_names"
  shows "foldr_res (\<lambda>p. ReadData (''info'' @ fst p) (snd p)) kvs t = Inr (info_fields (map_of kvs) t)"
  using assms
proof (induction kvs arbitrary: t)
  case Nil
  then show ?case by (simp add: info_fields_def int_field_def str_field_def)
next
  case (Cons p kvs)
  have none: "map_of kvs (fst p) = None" using Cons.prems by (simp add: map_of_eq_None_iff)
  have "foldr_res (\<lambda>p. ReadData (''info'' @ fst p) (snd p)) kvs (info_fields [fst p \<mapsto> snd p] t)
      = Inr (info_fields (map_of kvs) (info_fields [fst p \<mapsto> snd p] t))"
    by (rule Cons.IH) (use Cons.prems in auto)
  then show ?case
    using visit_info [of "fst p" "snd p" t] Cons.prems info_fields_step [of "map_of kvs", OF none]
    by (simp add: fun_upd_def)
qed

lemma ReadData_info:
  assumes "list_all info_entry kvs" and "distinct (map fst kvs)" and "tf_name_data t = callback_names"
  shows "ReadData ''info'' (BDict kvs) t = Inr (info_fields (map_of kvs) t)"
  using read_info [OF assms] by (auto simp: info_fields_def int_field_def str_field_def)

section \<open>Lemmas: pieces\<close>

definition pieces_num :: "torrent \<Rightarrow> int" where
  "pieces_num t = pieces_size t div 20"

definition wf_torrent :: "torrent \<Rightarrow> bool" where
  "wf_torrent t \<longleftrightarrow> 0 < tf_piece_length t \<and> tf_piece_length t \<le> 1073741824
     \<and> 0 < pieces_num t \<and> pieces_num t < 2147483648
     \<and> (pieces_num t - 1) * tf_piece_length t < GetFileTotal t
     \<and> GetFileTotal t \<le> pieces_num t * tf_piece_length t
     \<and> GetFileTotal t < 18446744073709551616"

definition end_length :: "torrent \<Rightarrow> int" where
  "end_length t = GetFileTotal t - (pieces_num t - 1) * tf_piece_length t"

lemma i32_cong: "a mod 4294967296 = b mod 4294967296 \<Longrightarrow> i32 a = i32 b"
  unfolding i32_def by (metis mod_add_left_eq)

lemma i32_mod_eq: "i32 a mod 4294967296 = a mod 4294967296"
  by (simp add: i32_def mod_simps)

lemma u64_mod_eq: "u64 a mod 4294967296 = a mod 4294967296"
  unfolding u64_def by (rule mod_mod_cancel) simp

lemma i32_add_left: "i32 (i32 a + b) = i32 (a + b)"
  by (rule i32_cong) (metis i32_mod_eq mod_add_left_eq)

lemma i32_diff_u64: "i32 (u64 (i32 x - u64 y)) = i32 (x - y)"
  unfolding i32_u64 by (rule i32_cong) (metis i32_mod_eq u64_mod_eq mod_diff_eq)

lemma sum_lengths32_eq: "sum_lengths32 (i32 a) fs = i32 (sum_lengths a fs)"
proof (induction fs arbitrary: a)
  case (Cons f fs)
  have "i32 (u64 (i32 a + fl_length f)) = i32 (u64 (a + fl_length f))"
    by (simp add: i32_u64 i32_add_left)
  then show ?case using Cons [of "u64 (a + fl_length f)"] by simp
qed simp

lemma GetIndexEnd_wf: "wf_torrent t \<Longrightarrow> GetIndexEnd t = pieces_num t - 1"
  by (simp add: GetIndexEnd_def wf_torrent_def pieces_num_def i32_u64 i32_id)

lemma end_length_bounds:
  assumes "wf_torrent t"
  shows "0 < end_length t" "end_length t \<le> tf_piece_length t" "end_length t < 2147483648"
  using assms by (auto simp: wf_torrent_def end_length_def algebra_simps)

lemma GetPieceLength_wf:
  assumes w: "wf_torrent t" and i: "0 \<le> i"
  shows "GetPieceLength t i = (if i = pieces_num t - 1 then end_length t else tf_piece_length t)"
proof -
  have ic: "i32 (pieces_size t div 20) = pieces_num t"
    using w by (simp add: wf_torrent_def pieces_num_def i32_id)
  have pl: "i32 (tf_piece_length t) = tf_piece_length t"
    using w by (simp add: wf_torrent_def i32_id)
  have tot: "(if tf_single t then i32 (tf_length t) else sum_lengths32 0 (tf_files t)) = i32 (GetFileTotal t)"
    using sum_lengths32_eq [of 0 "tf_files t"] by (simp add: GetFileTotal_def i32_id)
  have el: "i32 (end_length t) = end_length t"
    using end_length_bounds [OF w] by (simp add: i32_id)
  have single: "i32 (u64 (tf_length t - u64 y)) = i32 (tf_length t - y)" for y
    unfolding i32_u64 by (rule i32_cong) (metis u64_mod_eq mod_diff_right_eq)
  have last: "(if tf_single t then i32 (u64 (tf_length t - u64 y))
      else i32 (u64 (sum_lengths32 0 (tf_files t) - u64 y))) = i32 (GetFileTotal t - y)" for y
    using sum_lengths32_eq [of 0 "tf_files t"] i32_diff_u64 [of "sum_lengths 0 (tf_files t)" y]
    by (simp add: GetFileTotal_def single i32_id)
  have "end_length t = GetFileTotal t" if "pieces_num t = 1"
    using that by (simp add: end_length_def)
  then show ?thesis
    using i ic pl tot last [of "(pieces_num t - 1) * tf_piece_length t"] el
    by (auto simp: GetPieceLength_def Let_def end_length_def)
qed

lemma sum_pieces:
  assumes "wf_torrent t"
  shows "(\<Sum>i < nat (pieces_num t). GetPieceLength t (int i)) = GetFileTotal t"
proof -
  define n where "n = nat (pieces_num t - 1)"
  have n: "nat (pieces_num t) = Suc n" "int n = pieces_num t - 1"
    using assms by (auto simp: n_def wf_torrent_def)
  have "GetPieceLength t (int i) = tf_piece_length t" if "i < n" for i
    using that n GetPieceLength_wf [OF assms, of "int i"] by simp
  then have "(\<Sum>i < n. GetPieceLength t (int i)) = int n * tf_piece_length t"
    by simp
  then show ?thesis
    using n GetPieceLength_wf [OF assms, of "int n"] by (simp add: end_length_def)
qed

lemma CheckEndSlice_wf:
  assumes "wf_torrent t" and "0 \<le> i"
  shows "CheckEndSlice t i = (if i = pieces_num t - 1
     then (True, if end_length t mod SLICESIZE = 0 then SLICESIZE else end_length t mod SLICESIZE)
     else (False, 0))"
  using assms end_length_bounds [OF assms(1)]
  by (auto simp: CheckEndSlice_def GetIndexEnd_wf GetPieceLength_wf cmod_nonneg Let_def)

lemma ceil_div:
  fixes L :: int
  shows "(L + 16383) div 16384 = L div 16384 + (if L mod 16384 = 0 then 0 else 1)"
proof -
  define q r where "q = L div 16384" and "r = L mod 16384"
  have L: "L + 16383 = (r + 16383) + 16384 * q" and r: "0 \<le> r" "r < 16384"
    by (simp_all add: q_def r_def)
  have "(L + 16383) div 16384 = (r + 16383) div 16384 + q"
    unfolding L by simp
  also have "(r + 16383) div 16384 = (if r = 0 then 0 else 1)"
    using r by (auto simp: div_pos_geq)
  finally show ?thesis by (simp add: q_def r_def)
qed

lemma GetPieceBit_wf:
  "0 \<le> GetPieceLength t i \<Longrightarrow> GetPieceBit t i = (GetPieceLength t i + 16383) div 16384"
  by (simp add: GetPieceBit_def Let_def SLICESIZE_def cmod_nonneg cdiv_nonneg ceil_div)

lemma ceil_slices:
  fixes L :: int
  shows "((L + 16383) div 16384 - 1) * 16384 + (if L mod 16384 = 0 then 16384 else L mod 16384) = L"
proof -
  have "L = L div 16384 * 16384 + L mod 16384" by simp
  then show ?thesis unfolding ceil_div by (cases "L mod 16384 = 0") simp_all
qed

section \<open>Lemmas: files\<close>

definition sum_file_lengths :: "file_t list \<Rightarrow> int" where
  "sum_file_lengths fs = sum_list (map fl_length fs)"

lemma locate_within:
  assumes "list_all (\<lambda>f. 0 \<le> fl_length f) pre" and "0 \<le> off" and "off < 2147483648" and "0 < l"
    and "off + l \<le> fl_length f" and "sum_file_lengths pre + fl_length f < 9223372036854775808"
  shows "locate base (pre @ f # post) (sum_file_lengths pre + off) l = [(base @ fl_path f, off, l)]"
  using assms
proof (induction pre)
  case Nil
  then show ?case
    by (simp add: sum_file_lengths_def i64_id i32_u64 i32_id Let_def)
next
  case (Cons g pre)
  have ge: "0 \<le> sum_file_lengths pre"
    using Cons.prems(1) by (auto simp: sum_file_lengths_def list_all_iff intro!: sum_list_nonneg)
  have "i64 (sum_file_lengths (g # pre) + off - fl_length g) = sum_file_lengths pre + off"
    using Cons.prems ge by (simp add: sum_file_lengths_def i64_id)
  moreover have "locate base (pre @ f # post) (sum_file_lengths pre + off) l = [(base @ fl_path f, off, l)]"
    by (rule Cons.IH) (use Cons.prems in \<open>auto simp: sum_file_lengths_def\<close>)
  ultimately show ?case using Cons.prems ge by (simp add: Let_def)
qed

lemma read_single:
  assumes "mset ikvs = mset [(''length'', BInt n), (''name'', BStr nm), (''piece length'', BInt pl), (''pieces'', BStr ps)]"
    and "mset kvs = mset [(''announce'', BStr a), (''info'', BDict ikvs)]"
  shows "ReadData [] (BDict kvs) new_torrent = Inr (new_torrent\<lparr>tf_pieces := ps, tf_name := nm,
      tf_length := int n, tf_piece_length := int pl, tf_single := True, tf_announce_list := [a]\<rparr>)"
proof -
  have dist: "distinct (map fst ikvs)"
    using mset_eq_imp_distinct_iff [of "map fst ikvs" "[''length'', ''name'', ''piece length'', ''pieces'']"]
      arg_cong [OF assms(1), of "image_mset fst"] by simp
  have set: "set ikvs = {(''length'', BInt n), (''name'', BStr nm), (''piece length'', BInt pl), (''pieces'', BStr ps)}"
    using arg_cong [OF assms(1), of set_mset] by simp
  have lookup: "map_of ikvs ''length'' = Some (BInt n)" "map_of ikvs ''name'' = Some (BStr nm)"
    "map_of ikvs ''piece length'' = Some (BInt pl)" "map_of ikvs ''pieces'' = Some (BStr ps)"
    by (rule map_of_is_SomeI [OF dist], simp add: set)+
  have entries: "list_all info_entry ikvs"
    by (simp add: list_all_iff set info_entry_def)
  have info: "ReadData ''info'' (BDict ikvs) t = Inr (info_fields (map_of ikvs) t)"
    if "tf_name_data t = callback_names" for t
    by (rule ReadData_info [OF entries dist that])
  have "kvs = [(''announce'', BStr a), (''info'', BDict ikvs)] \<or> kvs = [(''info'', BDict ikvs), (''announce'', BStr a)]"
    using assms(2) by (cases kvs; cases "tl kvs") (auto simp: add_eq_conv_diff split: if_splits)
  then show ?thesis
    by (elim disjE) (simp_all add: info lookup new_torrent_def info_fields_def int_field_def str_field_def
        visit_def callback_names_def callback_def with_str_def del: ReadData.simps(4) add: ReadData.simps(4) [of "[]"])
qed

section \<open>Properties\<close>

text \<open>C24: whatever order the dictionaries are iterated in, \<open>ReadData\<close> fills the torrent of a
  single-file torrent file with exactly its announce URL, file length, name, piece length and
  piece hashes.\<close>

theorem ReadData_single:
  assumes "mset ikvs = mset [(''length'', BInt n), (''name'', BStr nm), (''piece length'', BInt pl), (''pieces'', BStr ps)]"
    and "mset kvs = mset [(''announce'', BStr a), (''info'', BDict ikvs)]"
  shows "ReadData [] (BDict kvs) new_torrent = Inr (new_torrent\<lparr>tf_pieces := ps, tf_name := nm,
      tf_length := int n, tf_piece_length := int pl, tf_single := True, tf_announce_list := [a]\<rparr>)"
  by (rule read_single [OF assms])

theorem ReadData_single_witness:
  "ReadData [] (BDict [(''info'', BDict [(''pieces'', BStr ''hash''), (''length'', BInt 7), (''piece length'', BInt 9),
       (''name'', BStr ''f'')]), (''announce'', BStr ''http://h/'')]) new_torrent
   = Inr (new_torrent\<lparr>tf_pieces := ''hash'', tf_name := ''f'', tf_length := int 7, tf_piece_length := int 9,
       tf_single := True, tf_announce_list := [''http://h/'']\<rparr>)"
  by (rule ReadData_single) simp_all

text \<open>The lengths \<open>GetPieceLength\<close> gives the pieces of a torrent whose piece count fits its total
  length, in either mode, add up to that total, and every one of them lies between 1 and the piece length.\<close>

theorem GetPieceLength_total:
  assumes "wf_torrent t"
  shows "(\<Sum>i < nat (pieces_num t). GetPieceLength t (int i)) = GetFileTotal t
    \<and> (\<forall>i < nat (pieces_num t). 0 < GetPieceLength t (int i) \<and> GetPieceLength t (int i) \<le> tf_piece_length t)"
  using sum_pieces [OF assms] end_length_bounds [OF assms] assms
  by (auto simp: GetPieceLength_wf wf_torrent_def)

definition sample_torrent :: torrent where
  "sample_torrent = new_torrent\<lparr>tf_pieces := replicate 60 CHR ''h'', tf_name := ''f'', tf_length := 70000,
     tf_piece_length := 32768\<rparr>"

lemma sample_torrent_wf: "wf_torrent sample_torrent"
  by (simp add: sample_torrent_def wf_torrent_def pieces_num_def pieces_size_def GetFileTotal_def new_torrent_def)

theorem GetPieceLength_total_witness:
  "(\<Sum>i < nat (pieces_num sample_torrent). GetPieceLength sample_torrent (int i)) = GetFileTotal sample_torrent"
  using GetPieceLength_total [OF sample_torrent_wf] by blast



text \<open>Of the last piece, \<open>CheckEndSlice(index, begin)\<close> accepts exactly the slices that lie on the
  slice grid, with the length that is left from \<open>begin\<close>, at most \<open>SLICESIZE\<close>; off the grid it gives -1,
  which no length of a received block equals.\<close>

theorem CheckEndSlice_begin_exact:
  assumes "wf_torrent t" and "0 \<le> b" and "b < end_length t"
  shows "CheckEndSlice_begin t (pieces_num t - 1) b
    = (True, if b mod SLICESIZE = 0 then min SLICESIZE (end_length t - b) else - 1)"
proof -
  have pl: "GetPieceLength t (pieces_num t - 1) = end_length t"
    using assms(1) by (simp add: GetPieceLength_wf wf_torrent_def)
  have i: "i32 (b + 16384) = b + 16384"
    using assms end_length_bounds [OF assms(1)] by (intro i32_id) (auto simp: wf_torrent_def)
  have b0: "b mod 16384 = 0 \<longleftrightarrow> b = 0" if "end_length t < 16384"
    using that assms by auto
  have last: "end_length t mod 16384 = end_length t - b" if "b mod 16384 = 0" "end_length t < b + 16384"
  proof -
    have "end_length t mod 16384 = (end_length t - b) mod 16384"
      using that(1) by (metis diff_0_right mod_diff_right_eq)
    then show ?thesis using that(2) assms by simp
  qed
  show ?thesis
    using assms pl i b0 last end_length_bounds [OF assms(1)]
    by (auto simp: CheckEndSlice_begin_def GetIndexEnd_wf Let_def SLICESIZE_def cmod_nonneg min_def)
qed

theorem CheckEndSlice_begin_exact_witness:
  "CheckEndSlice_begin sample_torrent (pieces_num sample_torrent - 1) 0
    = (True, if 0 mod SLICESIZE = 0 then min SLICESIZE (end_length sample_torrent - 0) else - 1)"
  by (rule CheckEndSlice_begin_exact [OF sample_torrent_wf])
    (simp_all add: sample_torrent_def end_length_def GetFileTotal_def pieces_num_def pieces_size_def new_torrent_def)

text \<open>In multi-file mode a slice that lies inside one file is found there: \<open>GetFileName\<close> gives that
  file's name, the offset in it and the slice's length, and empty entries behind it.\<close>

theorem GetFileName_within:
  assumes "\<not> tf_single t" and "tf_files t = pre @ f # post" and "0 \<le> i"
    and "list_all (\<lambda>f. 0 \<le> fl_length f) pre"
    and "i * tf_piece_length t + b = sum_file_lengths pre + off"
    and "0 \<le> off" and "off < 2147483648" and "0 < l" and "off + l \<le> fl_length f"
    and "sum_file_lengths pre + fl_length f < 9223372036854775808"
  shows "GetFileName t i b l = (tf_name t @ ''/'' @ fl_path f, off, l)
    # replicate (length (tf_files t) - 1) (tf_name t @ ''/'', 0, 0)"
proof -
  have "0 \<le> sum_file_lengths pre"
    using assms(4) by (auto simp: sum_file_lengths_def list_all_iff intro!: sum_list_nonneg)
  then have "i64 (u64 (i * tf_piece_length t + b)) = sum_file_lengths pre + off"
    using assms by (simp add: i64_u64 i64_id)
  then show ?thesis
    using assms locate_within [of pre off l f "tf_name t @ ''/''" post]
    by (simp add: GetFileName_def Let_def)
qed

definition sample_multi :: torrent where
  "sample_multi = new_torrent\<lparr>tf_pieces := replicate 60 CHR ''h'', tf_name := ''d'', tf_single := False,
     tf_files := [\<lparr>fl_length = 40000, fl_path = ''a''\<rparr>, \<lparr>fl_length = 30000, fl_path = ''b''\<rparr>],
     tf_piece_length := 32768\<rparr>"

theorem GetFileName_within_witness:
  "GetFileName sample_multi 1 16384 1000 = (tf_name sample_multi @ ''/'' @ fl_path \<lparr>fl_length = 30000, fl_path = ''b''\<rparr>, 9152, 1000)
    # replicate (length (tf_files sample_multi) - 1) (tf_name sample_multi @ ''/'', 0, 0)"
  by (rule GetFileName_within [where pre = "[\<lparr>fl_length = 40000, fl_path = ''a''\<rparr>]" and post = "[]"])
    (simp_all add: sample_multi_def sum_file_lengths_def)

text \<open>For the last piece of a single-file torrent \<open>GetFileName\<close> ignores the slice it is asked
  for: every \<open>begin\<close> and \<open>length\<close> give the whole rest of the file from the start of the piece.\<close>

theorem GetFileName_last_ignores_slice:
  assumes "wf_torrent t" and "tf_single t" and "GetFileTotal t < 2147483648"
  shows "GetFileName t (pieces_num t - 1) b l
    = [(tf_name t, (pieces_num t - 1) * tf_piece_length t, end_length t)]"
proof -
  have "0 \<le> (pieces_num t - 1) * tf_piece_length t" "(pieces_num t - 1) * tf_piece_length t < 2147483648"
    using assms by (auto simp: wf_torrent_def)
  then have first: "i32 (u64 ((pieces_num t - 1) * tf_piece_length t)) = (pieces_num t - 1) * tf_piece_length t"
    by (simp add: i32_u64 i32_id)
  have "i32 (u64 (GetFileTotal t - (pieces_num t - 1) * tf_piece_length t)) = end_length t"
    using end_length_bounds [OF assms(1)] by (simp add: i32_u64 i32_id flip: end_length_def)
  then show ?thesis
    using assms first by (simp add: GetFileName_def GetIndexEnd_wf wf_torrent_def Let_def)
qed

theorem GetFileName_last_ignores_slice_witness:
  "GetFileName sample_torrent (pieces_num sample_torrent - 1) 1000 16
    = [(tf_name sample_torrent, (pieces_num sample_torrent - 1) * tf_piece_length sample_torrent, end_length sample_torrent)]"
  by (rule GetFileName_last_ignores_slice [OF sample_torrent_wf])
    (simp_all add: sample_torrent_def GetFileTotal_def new_torrent_def)

text \<open>A single-file torrent of 2.25 GB: the offset of piece 8192 does not fit an \<open>int32_t\<close>.\<close>

definition large_torrent :: torrent where
  "large_torrent = new_torrent\<lparr>tf_pieces := replicate 180000 CHR ''h'', tf_name := ''f'',
     tf_length := 2359296000, tf_piece_length := 262144\<rparr>"

text \<open>The offsets \<open>GetFileName\<close> computes are truncated to 32 bits: in a well-formed torrent of more
  than 2 GB, piece 8192 is placed at offset -2147483648 of the file.\<close>

theorem GetFileName_offset_truncated:
  "wf_torrent large_torrent \<and> GetFileName_piece large_torrent 8192 = [(''f'', - 2147483648, 262144)]"
  by (simp add: large_torrent_def wf_torrent_def pieces_num_def pieces_size_def GetFileTotal_def new_torrent_def
      GetFileName_piece_def GetFileName_def GetIndexEnd_def i32_def u64_def)

lemma find_sub_slashes: "CHR ''/'' \<notin> set xs \<Longrightarrow> find_sub ''//'' (xs @ ''//'' @ ys) = Some (length xs)"
  by (induction xs) auto

lemma find_from_slash: "c \<notin> set xs \<Longrightarrow> n = length pre \<Longrightarrow> find_from c n (pre @ xs @ c # ys) = Some (length pre + length xs)"
  by (simp add: find_from_def find_ch_append)

text \<open>An announce URL with a host, a port and a path is split into exactly these, and taken for a
  UDP tracker when \<open>udp\<close> occurs anywhere in it.\<close>

theorem track_info_url:
  assumes "CHR ''/'' \<notin> set scheme" and "CHR ''/'' \<notin> set host" and "CHR '':'' \<notin> set host"
    and "CHR ''/'' \<notin> set port" and "length (host @ port) < 4294967296"
    and "url = scheme @ ''//'' @ host @ '':'' @ port @ ''/'' @ path"
  shows "track_info url = Inr \<lparr>ti_tcp = (find_sub ''udp'' url = None), ti_fd = - 3, ti_host = host,
      ti_serv = port, ti_uri = ''/'' @ path\<rparr>"
proof -
  have h: "find_sub ''//'' url = Some (length scheme)"
    using find_sub_slashes [OF assms(1)] assms(6) by simp
  have u: "find_from CHR ''/'' (length scheme + 2) url = Some (length scheme + 2 + (length host + 1 + length port))"
    using find_from_slash [of "CHR ''/''" "host @ '':'' @ port" "length scheme + 2" "scheme @ ''//''" path] assms
    by simp
  have s: "find_from CHR '':'' (length scheme) url = Some (length scheme + (2 + length host))"
    using find_from_slash [of "CHR '':''" "''//'' @ host" "length scheme" scheme "port @ ''/'' @ path"] assms
    by simp
  have "u64 (int (length host)) = int (length host)" "u64 (int (length port)) = int (length port)"
    using assms(5) by (simp_all add: u64_id)
  then show ?thesis
    unfolding track_info_def h option.case u Let_def s by (simp add: substr_def) (simp add: assms(6) numeral_3_eq_3)
qed

theorem track_info_url_witness:
  "track_info ''http://t.org:80/ann'' = Inr \<lparr>ti_tcp = (find_sub ''udp'' ''http://t.org:80/ann'' = None),
      ti_fd = - 3, ti_host = ''t.org'', ti_serv = ''80'', ti_uri = ''/'' @ ''ann''\<rparr>"
  by (rule track_info_url [where scheme = "''http:''"]) simp_all

text \<open>From a torrent with two files, each given as the format does (length, then path), the callbacks
  lose the first path and pair the second path with the second length only by overwriting: the list of
  files has no name for the first file.\<close>

theorem multi_file_path_lost:
  assumes "0 < l1" and "0 < l2" and "p1 \<noteq> []" and "p2 \<noteq> []"
  shows "ReadData [] (BDict [(''info'', BDict [(''files'', BList
      [BDict [(''length'', BInt l1), (''path'', BList [BStr dir, BStr p1])],
       BDict [(''length'', BInt l2), (''path'', BList [BStr p2])]])])]) new_torrent
    = Inr (new_torrent\<lparr>tf_single := False,
        tf_files := [\<lparr>fl_length = int l1, fl_path = []\<rparr>, \<lparr>fl_length = int l2, fl_path = p2\<rparr>]\<rparr>)"
  using assms by (simp add: visit_def new_torrent_def callback_names_def callback_def with_int_def
      with_str_def add_file_length_def add_file_path_def)

theorem multi_file_path_lost_witness:
  "ReadData [] (BDict [(''info'', BDict [(''files'', BList
      [BDict [(''length'', BInt 5), (''path'', BList [BStr ''d'', BStr ''a''])],
       BDict [(''length'', BInt 6), (''path'', BList [BStr ''b''])]])])]) new_torrent
    = Inr (new_torrent\<lparr>tf_single := False,
        tf_files := [\<lparr>fl_length = int 5, fl_path = []\<rparr>, \<lparr>fl_length = int 6, fl_path = ''b''\<rparr>]\<rparr>)"
  by (rule multi_file_path_lost) simp_all

end
