(* ===== verification/Sha1.thy ===== *)
theory Sha1
  imports Prelude
begin

text \<open>
  \<open>sha1.c\<close>: the hash that decides whether a downloaded piece is good. The block transform works
  in place on sixteen words, loads them little-endian and swaps each on first use; the update
  buffers what does not fill a block. Beside it stands the hash of FIPS 180-1 (big-endian words,
  the schedule of eighty words, the padding of the whole message), which it refines.
\<close>

unbundle bit_operations_syntax

type_synonym w32 = "32 word"
type_synonym sha_regs = "w32 \<times> w32 \<times> w32 \<times> w32 \<times> w32"

record sha_ctx =
  sc_state :: sha_regs
  sc_count0 :: w32
  sc_count1 :: w32
  sc_buffer :: "byte list"

section \<open>The block transform\<close>

definition rol :: "w32 \<Rightarrow> nat \<Rightarrow> w32" where
  "rol value bits = push_bit bits value OR drop_bit (32 - bits) value"

text \<open>The union of \<open>c[64]\<close> and \<open>l[16]\<close> on a little-endian machine.\<close>

definition load_le :: "byte list \<Rightarrow> nat \<Rightarrow> w32" where
  "load_le c i = ucast (c ! (4 * i)) OR push_bit 8 (ucast (c ! (4 * i + 1)))
     OR push_bit 16 (ucast (c ! (4 * i + 2))) OR push_bit 24 (ucast (c ! (4 * i + 3)))"

definition swap32 :: "w32 \<Rightarrow> w32" where
  "swap32 w = (rol w 24 AND 0xFF00FF00) OR (rol w 8 AND 0x00FF00FF)"

text \<open>\<open>blk0\<close> and \<open>blk\<close>: the word of round \<open>i\<close>, stored back into the block.\<close>

definition blk0 :: "nat \<Rightarrow> w32 list \<Rightarrow> w32" where
  "blk0 i l = swap32 (l ! i)"

definition blk :: "nat \<Rightarrow> w32 list \<Rightarrow> w32" where
  "blk i l = rol (l ! ((i + 13) mod 16) XOR l ! ((i + 8) mod 16) XOR l ! ((i + 2) mod 16) XOR l ! (i mod 16)) 1"

text \<open>
  The five round operations. The next round's registers are this round's \<open>z, v, w, x, y\<close>; after
  eighty rounds they are \<open>a, b, c, d, e\<close> again.
\<close>

definition sha_round :: "nat \<Rightarrow> sha_regs \<times> w32 list \<Rightarrow> sha_regs \<times> w32 list" where
  "sha_round i s =
     (let ((v, w, x, y, z), l) = s;
          wd = (if i < 16 then blk0 i l else blk i l);
          z' = (if i < 20 then z + (((w AND (x XOR y)) XOR y) + wd + 0x5A827999 + rol v 5)
                else if i < 40 then z + ((w XOR x XOR y) + wd + 0x6ED9EBA1 + rol v 5)
                else if i < 60 then z + ((((w OR x) AND y) OR (w AND x)) + wd + 0x8F1BBCDC + rol v 5)
                else z + ((w XOR x XOR y) + wd + 0xCA62C1D6 + rol v 5))
      in ((z', v, rol w 30, x, y), l [i mod 16 := wd]))"

definition SHA1Transform :: "sha_regs \<Rightarrow> byte list \<Rightarrow> sha_regs" where
  "SHA1Transform st buffer =
     (let ((a', b', c', d', e'), _) = foldl (\<lambda>s i. sha_round i s) (st, map (load_le buffer) [0..<16]) [0..<80];
          (a, b, c, d, e) = st
      in (a + a', b + b', c + c', d + d', e + e'))"

section \<open>Init, update, final\<close>

definition sha_iv :: sha_regs where
  "sha_iv = (0x67452301, 0xEFCDAB89, 0x98BADCFE, 0x10325476, 0xC3D2E1F0)"

definition SHA1Init :: "sha_ctx \<Rightarrow> sha_ctx" where
  "SHA1Init ctx = ctx\<lparr>sc_state := sha_iv, sc_count0 := 0, sc_count1 := 0\<rparr>"

text \<open>The loop of \<open>SHA1Update\<close>; \<open>i + 63\<close> is a \<open>uint32_t\<close>.\<close>

function upd_loop :: "sha_regs \<Rightarrow> byte list \<Rightarrow> nat \<Rightarrow> (sha_regs \<times> nat) res" where
  "upd_loop st data i =
     (if (i + 63) mod 4294967296 < length data
      then (if length data < i + 64 then Inl Undef
            else upd_loop (SHA1Transform st (take 64 (drop i data))) data (i + 64))
      else Inr (st, i))"
  by pat_completeness auto
termination by (relation "measure (\<lambda>(st, data, i). length data - i)") auto

declare upd_loop.simps [simp del]

definition count_add :: "nat \<Rightarrow> sha_ctx \<Rightarrow> sha_ctx" where
  "count_add len ctx =
     (let l3 = push_bit 3 (word_of_nat len :: w32);
          c0 = sc_count0 ctx + l3;
          c1 = (if c0 < l3 then sc_count1 ctx + 1 else sc_count1 ctx)
      in ctx\<lparr>sc_count0 := c0, sc_count1 := c1 + drop_bit 29 (word_of_nat len)\<rparr>)"

definition SHA1Update :: "sha_ctx \<Rightarrow> byte list \<Rightarrow> sha_ctx res" where
  "SHA1Update ctx data =
     (let len = length data;
          j = unat (drop_bit 3 (sc_count0 ctx) AND 63 :: w32);
          ctx = count_add len ctx
      in if 63 < (j + len) mod 4294967296
         then rbind (upd_loop (SHA1Transform (sc_state ctx) (take j (sc_buffer ctx) @ take (64 - j) data)) data (64 - j))
                (\<lambda>(st, i). if i + 64 < len then Inl Undef
                   else Inr (ctx\<lparr>sc_state := st,
                          sc_buffer := drop i data @ drop (len - i) (take j (sc_buffer ctx) @ take (64 - j) data)\<rparr>))
         else if 64 < j + len then Inl Undef
         else Inr (ctx\<lparr>sc_buffer := take j (sc_buffer ctx) @ data @ drop (j + len) (sc_buffer ctx)\<rparr>))"

text \<open>The padding loop of \<open>SHA1Final\<close>, one zero byte per iteration: fewer than 64 of them.\<close>

fun pad_loop :: "nat \<Rightarrow> sha_ctx \<Rightarrow> sha_ctx res" where
  "pad_loop 0 ctx = Inl Fuel"
| "pad_loop (Suc fuel) ctx =
     (if sc_count0 ctx AND 504 \<noteq> 448 then rbind (SHA1Update ctx [0]) (pad_loop fuel) else Inr ctx)"

definition word_bytes :: "w32 \<Rightarrow> byte list" where
  "word_bytes w = [ucast (drop_bit 24 w), ucast (drop_bit 16 w), ucast (drop_bit 8 w), ucast w]"

definition SHA1Final :: "sha_ctx \<Rightarrow> byte list res" where
  "SHA1Final ctx =
     (let finalcount = word_bytes (sc_count1 ctx) @ word_bytes (sc_count0 ctx)
      in rbind (SHA1Update ctx [0x80]) (\<lambda>ctx1. rbind (pad_loop 64 ctx1) (\<lambda>ctx2.
           rbind (SHA1Update ctx2 finalcount) (\<lambda>ctx3.
             (let (a, b, c, d, e) = sc_state ctx3
              in Inr (word_bytes a @ word_bytes b @ word_bytes c @ word_bytes d @ word_bytes e))))))"

text \<open>The context is a local variable: its buffer holds what the stack did.\<close>

definition Sha1_stack :: "sha_ctx \<Rightarrow> byte list \<Rightarrow> byte list res" where
  "Sha1_stack ctx ptr = rbind (SHA1Update (SHA1Init ctx) (take (length ptr mod 4294967296) ptr)) SHA1Final"

definition Sha1 :: "byte list \<Rightarrow> byte list res" where
  "Sha1 ptr = Sha1_stack \<lparr>sc_state = sha_iv, sc_count0 = 0, sc_count1 = 0, sc_buffer = replicate 64 0\<rparr> ptr"

section \<open>FIPS 180-1\<close>

definition load_be :: "byte list \<Rightarrow> nat \<Rightarrow> w32" where
  "load_be c i = push_bit 24 (ucast (c ! (4 * i))) OR push_bit 16 (ucast (c ! (4 * i + 1)))
     OR push_bit 8 (ucast (c ! (4 * i + 2))) OR ucast (c ! (4 * i + 3))"

fun fips_W :: "byte list \<Rightarrow> nat \<Rightarrow> w32" where
  "fips_W M t = (if t < 16 then load_be M t
     else rol (fips_W M (t - 3) XOR fips_W M (t - 8) XOR fips_W M (t - 14) XOR fips_W M (t - 16)) 1)"

declare fips_W.simps [simp del]

definition fips_f :: "nat \<Rightarrow> w32 \<Rightarrow> w32 \<Rightarrow> w32 \<Rightarrow> w32" where
  "fips_f t B C D = (if t < 20 then (B AND C) OR (NOT B AND D)
     else if t < 40 then B XOR C XOR D
     else if t < 60 then (B AND C) OR (B AND D) OR (C AND D)
     else B XOR C XOR D)"

definition fips_K :: "nat \<Rightarrow> w32" where
  "fips_K t = (if t < 20 then 0x5A827999 else if t < 40 then 0x6ED9EBA1
     else if t < 60 then 0x8F1BBCDC else 0xCA62C1D6)"

definition fips_round :: "byte list \<Rightarrow> sha_regs \<Rightarrow> nat \<Rightarrow> sha_regs" where
  "fips_round M r t = (let (A, B, C, D, E) = r
     in (rol A 5 + fips_f t B C D + E + fips_W M t + fips_K t, A, rol B 30, C, D))"

definition fips_block :: "sha_regs \<Rightarrow> byte list \<Rightarrow> sha_regs" where
  "fips_block H M = (let (a, b, c, d, e) = foldl (fips_round M) H [0..<80]; (A, B, C, D, E) = H
     in (A + a, B + b, C + c, D + d, E + e))"

function fips_blocks :: "sha_regs \<Rightarrow> byte list \<Rightarrow> sha_regs" where
  "fips_blocks H m = (if length m < 64 then H else fips_blocks (fips_block H (take 64 m)) (drop 64 m))"
  by pat_completeness auto
termination by (relation "measure (\<lambda>(H, m). length m)") auto

declare fips_blocks.simps [simp del]

definition fips_pad :: "byte list \<Rightarrow> byte list" where
  "fips_pad m = m @ 0x80 # replicate ((119 - length m mod 64) mod 64) 0
     @ word_bytes (word_of_nat (8 * length m div 4294967296)) @ word_bytes (word_of_nat (8 * length m))"

definition fips_sha1 :: "byte list \<Rightarrow> byte list" where
  "fips_sha1 m = (let (a, b, c, d, e) = fips_blocks sha_iv (fips_pad m)
     in word_bytes a @ word_bytes b @ word_bytes c @ word_bytes d @ word_bytes e)"

section \<open>The transform is the compression function\<close>

lemma byte_bit: "8 \<le> n \<Longrightarrow> \<not> bit (b :: byte) n"
  using bit_imp_le_length [of b n] by auto

lemma less_32_cases: "(n :: nat) < 32 \<Longrightarrow>
  n \<in> {0, 1, 2, 3, 4, 5, 6, 7, 8, 9, 10, 11, 12, 13, 14, 15, 16, 17, 18, 19, 20, 21, 22, 23, 24, 25, 26, 27, 28, 29, 30, 31}"
  by (simp add: less_Suc_eq eval_nat_numeral)

lemma swap_load: "swap32 (load_le c i) = load_be c i"
proof (rule bit_word_eqI)
  fix n assume "n < LENGTH(32)"
  then have "n \<in> {0, 1, 2, 3, 4, 5, 6, 7, 8, 9, 10, 11, 12, 13, 14, 15, 16, 17, 18, 19, 20, 21, 22, 23, 24, 25, 26, 27, 28, 29, 30, 31}" using less_32_cases by simp
  then show "bit (swap32 (load_le c i)) n = bit (load_be c i) n"
    by (simp only: insert_iff empty_iff) (elim disjE; simp add: swap32_def load_le_def load_be_def rol_def bit_simps byte_bit)
qed

lemma ch_eq: "((w AND (x XOR y)) XOR y) = (w AND x) OR (NOT w AND (y :: w32))"
  by (rule bit_word_eqI) (auto simp: bit_simps)

lemma maj_eq: "(((w OR x) AND y) OR (w AND x)) = (w AND x) OR (w AND y) OR (x AND (y :: w32))"
  by (rule bit_word_eqI) (auto simp: bit_simps)

text \<open>The block after \<open>t\<close> rounds: the last sixteen words of the schedule, and the words not yet swapped.\<close>

definition block_inv :: "byte list \<Rightarrow> nat \<Rightarrow> w32 list \<Rightarrow> bool" where
  "block_inv M t l \<longleftrightarrow> length l = 16 \<and> (\<forall>s<t. t \<le> s + 16 \<longrightarrow> l ! (s mod 16) = fips_W M s)
     \<and> (\<forall>k<16. t \<le> k \<longrightarrow> l ! k = load_le M k)"

lemma block_inv_0: "block_inv M 0 (map (load_le M) [0..<16])"
  by (simp add: block_inv_def)

lemma block_word:
  assumes "block_inv M t l"
  shows "(if t < 16 then blk0 t l else blk t l) = fips_W M t"
proof (cases "t < 16")
  case True
  then show ?thesis
    using assms by (simp add: block_inv_def blk0_def swap_load fips_W.simps [of M t])
next
  case False
  have "l ! ((t - k) mod 16) = fips_W M (t - k)" if "0 < k" "k \<le> 16" for k
    using assms False that by (simp add: block_inv_def)
  moreover have "(t + 13) mod 16 = (t - 3) mod 16" "(t + 8) mod 16 = (t - 8) mod 16"
    "(t + 2) mod 16 = (t - 14) mod 16" "t mod 16 = (t - 16) mod 16"
    using False mod_add_self2 [of "t - 3" 16] mod_add_self2 [of "t - 8" 16]
      mod_add_self2 [of "t - 14" 16] mod_add_self2 [of "t - 16" 16] by (simp_all add: add.commute del: mod_add_self2)
  ultimately show ?thesis
    using False by (simp add: blk_def fips_W.simps [of M t])
qed

lemma same_slot: "(s :: nat) mod 16 = t mod 16 \<Longrightarrow> s \<le> t \<Longrightarrow> t < s + 16 \<Longrightarrow> s = t"
  by (metis add_left_imp_eq add_less_cancel_left le_Suc_ex mod_eq_nat1E mod_less mult_is_0
      nat_dvd_not_less neq0_conv order_le_less dvd_triv_left)

lemma block_inv_step:
  assumes "block_inv M t l"
  shows "block_inv M (Suc t) (l [t mod 16 := fips_W M t])"
  unfolding block_inv_def
proof (intro conjI allI impI)
  show "length (l [t mod 16 := fips_W M t]) = 16" using assms by (simp add: block_inv_def)
next
  fix s assume s: "s < Suc t" "Suc t \<le> s + 16"
  have "s \<noteq> t \<Longrightarrow> s mod 16 \<noteq> t mod 16" using same_slot [of s t] s by auto
  then show "l [t mod 16 := fips_W M t] ! (s mod 16) = fips_W M s"
    using assms s by (cases "s = t") (simp_all add: block_inv_def)
next
  fix k :: nat assume "k < 16" "Suc t \<le> k"
  then show "l [t mod 16 := fips_W M t] ! k = load_le M k"
    using assms by (auto simp: block_inv_def)
qed

lemma round_eq:
  assumes "block_inv M t l"
  shows "sha_round t (r, l) = (fips_round M r t, l [t mod 16 := fips_W M t])"
proof -
  obtain v w x y z where r: "r = (v, w, x, y, z)" by (cases r)
  show ?thesis
    unfolding r sha_round_def fips_round_def Let_def split_conv block_word [OF assms]
    by (simp add: fips_f_def fips_K_def ch_eq maj_eq add.commute add.left_commute)
qed

lemma rounds_eq:
  "\<exists>l. foldl (\<lambda>s i. sha_round i s) (st, map (load_le M) [0..<16]) [0..<t] = (foldl (fips_round M) st [0..<t], l)
     \<and> block_inv M t l"
proof (induction t)
  case 0
  then show ?case by (simp add: block_inv_0 del: upt.simps)
next
  case (Suc t)
  then obtain l where l: "foldl (\<lambda>s i. sha_round i s) (st, map (load_le M) [0..<16]) [0..<t] = (foldl (fips_round M) st [0..<t], l)"
    "block_inv M t l" by blast
  show ?case
    using l(1) round_eq [OF l(2)] block_inv_step [OF l(2)] by (simp del: upt_rec_numeral)
qed

lemma transform_fips: "SHA1Transform st buffer = fips_block st buffer"
  using rounds_eq [of st buffer 80]
  by (auto simp: SHA1Transform_def fips_block_def split: prod.splits simp del: upt_rec_numeral)

section \<open>The update absorbs its data\<close>

lemma fips_blocks_append:
  "64 dvd length xs \<Longrightarrow> fips_blocks H (xs @ ys) = fips_blocks (fips_blocks H xs) ys"
proof (induction H xs rule: fips_blocks.induct)
  case (1 H m)
  show ?case
  proof (cases "length m < 64")
    case True
    then have "m = []" using 1(2) by (auto dest: dvd_imp_le)
    then show ?thesis by (simp add: fips_blocks.simps [of H "[]"])
  next
    case False
    then have "64 dvd length (drop 64 m)" using 1(2) by (simp add: dvd_diff_nat)
    then have "fips_blocks (fips_block H (take 64 m)) (drop 64 m @ ys)
        = fips_blocks (fips_blocks (fips_block H (take 64 m)) (drop 64 m)) ys"
      using False by (intro 1(1)) simp_all
    then show ?thesis
      using False by (simp add: fips_blocks.simps [of H m] fips_blocks.simps [of H "m @ ys"])
  qed
qed

lemma fips_blocks_one: "length b = 64 \<Longrightarrow> fips_blocks H b = fips_block H b"
  by (simp add: fips_blocks.simps [of H b] fips_blocks.simps [of _ "[]"])

lemma fips_blocks_whole: "fips_blocks H (take (64 * (length m div 64)) m) = fips_blocks H m"
proof -
  have "length (take (64 * (length m div 64)) m) = 64 * (length m div 64)" by simp
  then have "fips_blocks H (take (64 * (length m div 64)) m @ drop (64 * (length m div 64)) m)
      = fips_blocks (fips_blocks H (take (64 * (length m div 64)) m)) (drop (64 * (length m div 64)) m)"
    by (intro fips_blocks_append) (simp only: dvd_triv_left)
  moreover have "length (drop (64 * (length m div 64)) m) < 64"
    by (simp add: minus_mult_div_eq_mod)
  ultimately show ?thesis by (simp add: fips_blocks.simps [of _ "drop _ _"])
qed

lemma upd_loop_blocks:
  assumes "i \<le> length data" and "length data + 64 < 4294967296"
  shows "upd_loop st data i = Inr (fips_blocks st (drop i data), i + 64 * ((length data - i) div 64))"
  using assms(1)
proof (induction "length data - i" arbitrary: st i rule: less_induct)
  case less
  show ?case
  proof (cases "i + 64 \<le> length data")
    case True
    have "upd_loop (fips_block st (take 64 (drop i data))) data (i + 64)
        = Inr (fips_blocks (fips_block st (take 64 (drop i data))) (drop (i + 64) data),
               i + 64 + 64 * ((length data - (i + 64)) div 64))"
      using True by (intro less.hyps) auto
    moreover have "(length data - i) div 64 = Suc ((length data - (i + 64)) div 64)"
      using True by (simp add: le_div_geq)
    moreover have "\<not> length data - i < 64" using True by simp
    ultimately show ?thesis
      using True assms(2)
      by (simp add: upd_loop.simps [of st] fips_blocks.simps [of st "drop i data"] transform_fips add.commute)
  next
    case False
    then have "length data - i < 64" using less.prems by simp
    then show ?thesis
      using False less.prems assms(2) by (simp add: upd_loop.simps [of st] fips_blocks.simps [of st "drop i data"])
  qed
qed

text \<open>The context after the bytes \<open>m\<close>: the whole blocks are in the state, the rest in the buffer.\<close>

definition absorbed :: "byte list \<Rightarrow> sha_ctx \<Rightarrow> bool" where
  "absorbed m ctx \<longleftrightarrow> sc_state ctx = fips_blocks sha_iv m \<and> length (sc_buffer ctx) = 64
     \<and> take (length m mod 64) (sc_buffer ctx) = drop (64 * (length m div 64)) m
     \<and> sc_count0 ctx = word_of_nat (8 * length m)
     \<and> sc_count1 ctx = word_of_nat (8 * length m div 4294967296)"

lemma absorbed_init: "length (sc_buffer ctx) = 64 \<Longrightarrow> absorbed [] (SHA1Init ctx)"
  by (simp add: absorbed_def SHA1Init_def fips_blocks.simps)

lemma unat_and_63: "unat (w AND 63 :: w32) = unat w mod 64"
proof -
  have "(63 :: w32) = mask 6" by (simp add: mask_eq_exp_minus_1)
  then have "w AND 63 = take_bit 6 w" by (simp add: take_bit_eq_mask)
  also have "\<dots> = w mod 2 ^ 6" by (rule take_bit_eq_mod)
  finally show ?thesis by (simp add: unat_mod_distrib)
qed

lemma count_index: "unat (drop_bit 3 (word_of_nat (8 * n)) AND 63 :: w32) = n mod 64"
proof -
  have "unat (drop_bit 3 (word_of_nat (8 * n)) AND 63 :: w32) = (8 * n mod 4294967296) div 8 mod 64"
    unfolding unat_and_63 unat_drop_bit_eq by (simp add: drop_bit_eq_div unat_of_nat del: of_nat_mult)
  also have "(8 * n mod 4294967296) div 8 = n mod 536870912"
    using mod_mult_mult1 [of 8 n 536870912] by simp
  also have "n mod 536870912 mod 64 = n mod 64" by (rule mod_mod_cancel) simp
  finally show ?thesis .
qed

lemma high_bits: "l < 4294967296 \<Longrightarrow> drop_bit 29 (word_of_nat l :: w32) = word_of_nat (8 * l div 4294967296)"
proof -
  assume "l < 4294967296"
  then have "unat (drop_bit 29 (word_of_nat l :: w32)) = l div 536870912" "l div 536870912 < 4294967296"
    unfolding unat_drop_bit_eq by (simp_all add: drop_bit_eq_div unat_of_nat div_le_dividend le_less_trans)
  moreover have "8 * l div 4294967296 = l div 536870912" using div_mult_mult1 [of 8 l 536870912] by simp
  ultimately show ?thesis by (simp add: word_unat_eq_iff unat_of_nat)
qed

lemma carry: "(word_of_nat (n + k) :: w32) < word_of_nat k \<longleftrightarrow> (n mod 4294967296 + k mod 4294967296) div 4294967296 = 1"
proof -
  have "(word_of_nat (n + k) :: w32) < word_of_nat k \<longleftrightarrow> (n + k) mod 4294967296 < k mod 4294967296"
    by (simp add: word_less_nat_alt unat_of_nat del: of_nat_add)
  also have "(n + k) mod 4294967296 = (n mod 4294967296 + k mod 4294967296) mod 4294967296"
    by (rule mod_add_eq [symmetric])
  finally show ?thesis
    by (cases "n mod 4294967296 + k mod 4294967296 < 4294967296")
      (auto simp: mod_if [of "_ + _"] div_if [of _ "_ + _"])
qed

lemma count_add_eq:
  assumes "sc_count0 ctx = word_of_nat n" and "sc_count1 ctx = word_of_nat (n div 4294967296)"
    and "l < 4294967296"
  shows "sc_count0 (count_add l ctx) = word_of_nat (n + 8 * l)"
    and "sc_count1 (count_add l ctx) = word_of_nat ((n + 8 * l) div 4294967296)"
    and "sc_state (count_add l ctx) = sc_state ctx" and "sc_buffer (count_add l ctx) = sc_buffer ctx"
proof -
  have l3: "push_bit 3 (word_of_nat l :: w32) = word_of_nat (8 * l)" by (simp add: push_bit_eq_mult)
  let ?c = "(n mod 4294967296 + 8 * l mod 4294967296) div 4294967296"
  have "(n + 8 * l) div 4294967296 = n div 4294967296 + 8 * l div 4294967296 + ?c"
    by (rule div_add1_eq)
  moreover have "?c = 0 \<or> ?c = 1"
    using mod_less_divisor [of 4294967296 n] mod_less_divisor [of 4294967296 "8 * l"]
    by (cases "n mod 4294967296 + 8 * l mod 4294967296 < 4294967296") (simp_all add: le_div_geq)
  moreover have "(sc_count0 ctx + word_of_nat (8 * l) < word_of_nat (8 * l)) \<longleftrightarrow> ?c = 1"
    using carry [of n "8 * l"] by (simp add: assms(1))
  ultimately show "sc_count1 (count_add l ctx) = word_of_nat ((n + 8 * l) div 4294967296)"
    using assms(2) unfolding count_add_def Let_def l3 high_bits [OF assms(3)] by auto
qed (use assms in \<open>simp_all add: count_add_def Let_def push_bit_eq_mult\<close>)

lemma absorbed_count:
  assumes "absorbed m ctx" and "length d < 4294967296"
  shows "unat (drop_bit 3 (sc_count0 ctx) AND 63 :: w32) = length m mod 64"
    and "sc_count0 (count_add (length d) ctx) = word_of_nat (8 * length (m @ d))"
    and "sc_count1 (count_add (length d) ctx) = word_of_nat (8 * length (m @ d) div 4294967296)"
    and "sc_state (count_add (length d) ctx) = fips_blocks sha_iv m"
    and "sc_buffer (count_add (length d) ctx) = sc_buffer ctx"
  using assms count_add_eq [of ctx "8 * length m" "length d"]
  by (simp_all add: absorbed_def count_index distrib_left del: of_nat_mult)

lemma split_tail: "m = take (64 * (length m div 64)) m @ drop (64 * (length m div 64)) m"
  by simp

lemma tail_append:
  "fips_blocks H (m @ d) = fips_blocks (fips_blocks H m) (drop (64 * (length m div 64)) m @ d)"
proof -
  let ?w = "take (64 * (length m div 64)) m"
  have "length ?w = 64 * (length m div 64)" by simp
  then have "64 dvd length ?w" by (simp only: dvd_triv_left)
  then have "fips_blocks H (?w @ drop (64 * (length m div 64)) m @ d)
      = fips_blocks (fips_blocks H ?w) (drop (64 * (length m div 64)) m @ d)"
    by (rule fips_blocks_append)
  moreover have "?w @ drop (64 * (length m div 64)) m @ d = m @ d"
    by (metis append.assoc append_take_drop_id)
  ultimately show ?thesis by (simp only: fips_blocks_whole)
qed

lemma div_mod_64: "r < 64 \<Longrightarrow> (64 * q + r) div 64 = (q :: nat)" "r < 64 \<Longrightarrow> (64 * q + r) mod 64 = (r :: nat)"
  by simp_all

lemma update_short:
  assumes "absorbed m ctx" and "length m mod 64 + length d \<le> 63"
  shows "\<exists>ctx'. SHA1Update ctx d = Inr ctx' \<and> absorbed (m @ d) ctx'"
proof -
  have d: "length d < 4294967296" using assms(2) by simp
  note c = absorbed_count [OF assms(1) d]
  define j where "j = length m mod 64"
  define r where "r = drop (64 * (length m div 64)) m"
  let ?c = "(count_add (length d) ctx)\<lparr>sc_buffer := r @ d @ drop (j + length d) (sc_buffer ctx)\<rparr>"
  have r: "length r = j" by (simp add: j_def r_def minus_mult_div_eq_mod)
  have "length m = 64 * (length m div 64) + j" by (simp add: j_def)
  then have len: "length (m @ d) = 64 * (length m div 64) + (j + length d)" unfolding length_append by linarith
  have dm: "length (m @ d) div 64 = length m div 64" "length (m @ d) mod 64 = j + length d"
    unfolding len using assms(2) unfolding j_def by (intro div_mod_64; simp)+
  have b: "length (sc_buffer ctx) = 64" "take j (sc_buffer ctx) = r"
    using assms(1) by (simp_all add: absorbed_def j_def r_def)
  have le: "j + length d \<le> 63" using assms(2) by (simp add: j_def)
  have "SHA1Update ctx d = Inr ?c"
    using le b by (simp add: SHA1Update_def Let_def c(1,5) flip: j_def)
  moreover have "fips_blocks sha_iv (m @ d) = fips_blocks sha_iv m"
    using le r tail_append [of sha_iv m d] by (simp add: fips_blocks.simps [of _ "r @ d"] flip: r_def)
  moreover have "drop (64 * (length m div 64)) (m @ d) = r @ d" by (simp add: r_def)
  moreover have "length (r @ d @ drop (j + length d) (sc_buffer ctx)) = 64" using le b(1) r by simp
  ultimately have "absorbed (m @ d) ?c"
    unfolding absorbed_def dm using le b r by (simp add: c(2-4) del: length_append of_nat_mult)
  then show ?thesis using \<open>SHA1Update ctx d = Inr ?c\<close> by blast
qed

lemma update_long:
  assumes "absorbed m ctx" and "63 < length m mod 64 + length d" and "length d + 128 < 4294967296"
  shows "\<exists>ctx'. SHA1Update ctx d = Inr ctx' \<and> absorbed (m @ d) ctx'"
proof -
  have "length d < 4294967296" using assms(3) by simp
  note c = absorbed_count [OF assms(1) this]
  define j where "j = length m mod 64"
  define r where "r = drop (64 * (length m div 64)) m"
  define x where "x = drop (64 - j) d"
  have j: "j < 64" "length m mod 64 = j" by (simp_all add: j_def)
  have r: "length r = j" by (simp add: j_def r_def minus_mult_div_eq_mod)
  have lx: "length d = 64 - j + length x" "64 - j \<le> length d" using assms(2) j by (auto simp: x_def)
  have b: "length (sc_buffer ctx) = 64" "take j (sc_buffer ctx) = r"
    using assms(1) by (simp_all add: absorbed_def j_def r_def)
  have "length m = 64 * (length m div 64) + j" by (simp add: j_def)
  then have len: "length (m @ d) = 64 * (length m div 64 + 1 + length x div 64) + length x mod 64"
    using lx j by (simp add: algebra_simps)
  have dm: "length (m @ d) div 64 = length m div 64 + 1 + length x div 64" "length (m @ d) mod 64 = length x mod 64"
    unfolding len by (intro div_mod_64; simp)+
  have md: "r @ d = (r @ take (64 - j) d) @ x" by (simp add: x_def)
  have st: "fips_blocks sha_iv (m @ d) = fips_blocks (fips_block (fips_blocks sha_iv m) (r @ take (64 - j) d)) x"
  proof -
    have "fips_blocks sha_iv (m @ d) = fips_blocks (fips_blocks sha_iv m) (r @ d)"
      using tail_append [of sha_iv m d] by (simp only: r_def)
    moreover have "length (r @ take (64 - j) d) = 64" using r lx(2) j by simp
    ultimately show ?thesis unfolding md by (simp only: fips_blocks_append fips_blocks_one dvd_refl)
  qed
  have tl: "drop (64 * (length m div 64 + 1 + length x div 64)) (m @ d) = drop (64 * (length x div 64)) x"
  proof -
    have "m @ d = (take (64 * (length m div 64)) m @ r @ take (64 - j) d) @ x" by (simp add: x_def r_def)
    moreover have "length (take (64 * (length m div 64)) m @ r @ take (64 - j) d) = 64 * (length m div 64 + 1)"
      using r lx j by simp
    ultimately show ?thesis by (simp add: distrib_left)
  qed
  have loop: "upd_loop (fips_block (fips_blocks sha_iv m) (r @ take (64 - j) d)) d (64 - j)
      = Inr (fips_blocks sha_iv (m @ d), 64 - j + 64 * (length x div 64))"
    using upd_loop_blocks [of "64 - j" d] lx assms(3) by (simp add: st flip: x_def)
  define i where "i = 64 - j + 64 * (length x div 64)"
  let ?b = "drop i d @ drop (length d - i) (r @ take (64 - j) d)"
  let ?c = "(count_add (length d) ctx)\<lparr>sc_state := fips_blocks sha_iv (m @ d), sc_buffer := ?b\<rparr>"
  have "length x = 64 * (length x div 64) + length x mod 64" by simp
  then have i: "i \<le> length d" "length d - i = length x mod 64" "\<not> i + 64 < length d"
    using lx(1) j mod_less_divisor [of 64 "length x"] unfolding i_def by linarith+
  have di: "drop i d = drop (64 * (length x div 64)) x" by (simp add: i_def x_def add.commute)
  have n: "(j + length d) mod 4294967296 = j + length d" using j(1) assms(3) by (intro mod_less) linarith
  have "SHA1Update ctx d = Inr ?c"
    using assms(2) n i(3) b loop
    by (simp add: SHA1Update_def Let_def c(1,4,5) j transform_fips i_def [symmetric])
  moreover have "length (r @ take (64 - j) d) = 64" using r lx(2) j by simp
  then have "length ?b = 64"
    unfolding length_append [of "drop i d"] length_drop i(2) using mod_less_divisor [of 64 "length x"] by linarith
  moreover have "take (length x mod 64) ?b = drop (64 * (length x div 64)) x"
    using i by (simp add: di [symmetric])
  ultimately have "absorbed (m @ d) ?c"
    unfolding absorbed_def dm tl by (simp add: c(2,3) del: length_append of_nat_mult)
  then show ?thesis using \<open>SHA1Update ctx d = Inr ?c\<close> by blast
qed

lemma update_absorbs:
  assumes "absorbed m ctx" and "length d + 128 < 4294967296"
  shows "\<exists>ctx'. SHA1Update ctx d = Inr ctx' \<and> absorbed (m @ d) ctx'"
  using update_short [OF assms(1), of d] update_long [OF assms(1), of d] assms(2)
  by (cases "length m mod 64 + length d \<le> 63") auto

section \<open>The padding\<close>

lemma and_504: "(word_of_nat (8 * n) :: w32) AND 504 = 448 \<longleftrightarrow> n mod 64 = 56"
proof -
  have "push_bit 3 (word_of_nat n :: w32) AND push_bit 3 63 = push_bit 3 (word_of_nat n AND 63)"
    by (simp only: push_bit_and)
  then have w: "(word_of_nat (8 * n) :: w32) AND 504 = 8 * (word_of_nat n AND 63)"
    by (simp add: push_bit_eq_mult mult.commute)
  have "unat (word_of_nat n AND 63 :: w32) = n mod 64"
    using mod_mod_cancel [of 64 4294967296 n] by (simp add: unat_and_63 unat_of_nat)
  moreover from this have "unat (8 * (word_of_nat n AND 63) :: w32) = 8 * (n mod 64)"
    by (simp add: unat_word_ariths)
  ultimately show ?thesis unfolding w by (simp add: word_unat_eq_iff)
qed

lemma pad_count: "r < 64 \<Longrightarrow> (120 - r) mod 64 = (if r \<le> 56 then 56 - r else 120 - r)" for r :: nat
proof (cases "r \<le> 56")
  case True
  then have "120 - r = 56 - r + 64" by simp
  then show ?thesis using True by (simp only: mod_add_self2) simp
qed simp

lemma pad_count_Suc:
  fixes n :: nat
  assumes "n mod 64 \<noteq> 56"
  shows "(120 - n mod 64) mod 64 = Suc ((120 - Suc n mod 64) mod 64)"
proof -
  define r where "r = n mod 64"
  have r: "r < 64" "r \<noteq> 56" using assms by (simp_all add: r_def)
  have S: "Suc n mod 64 = (if r = 63 then 0 else Suc r)" by (simp add: r_def mod_Suc)
  show ?thesis
  proof (cases "r = 63")
    case True
    then show ?thesis by (simp add: S flip: r_def)
  next
    case False
    then have "Suc r < 64" using r by simp
    then show ?thesis
      using r False pad_count [of r] pad_count [of "Suc r"] by (simp add: S flip: r_def) arith
  qed
qed

lemma pad_loop_absorbs:
  assumes "absorbed m ctx" and "(120 - length m mod 64) mod 64 < fuel"
  shows "\<exists>ctx'. pad_loop fuel ctx = Inr ctx' \<and> absorbed (m @ replicate ((120 - length m mod 64) mod 64) 0) ctx'"
  using assms
proof (induction fuel arbitrary: m ctx)
  case 0
  then show ?case by simp
next
  case (Suc fuel)
  have c: "sc_count0 ctx AND 504 = 448 \<longleftrightarrow> length m mod 64 = 56"
    using Suc.prems(1) and_504 by (simp add: absorbed_def del: of_nat_mult)
  show ?case
  proof (cases "length m mod 64 = 56")
    case True
    then show ?thesis using Suc.prems c by simp
  next
    case False
    obtain ctx1 where u: "SHA1Update ctx [0] = Inr ctx1" "absorbed (m @ [0]) ctx1"
      using update_absorbs [OF Suc.prems(1), of "[0]"] by auto
    have "(120 - length m mod 64) mod 64 = Suc ((120 - length (m @ [0]) mod 64) mod 64)"
      using pad_count_Suc [OF False] by simp
    then obtain k where k: "(120 - length m mod 64) mod 64 = Suc k" "(120 - length (m @ [0]) mod 64) mod 64 = k"
      by blast
    have "\<exists>ctx'. pad_loop fuel ctx1 = Inr ctx' \<and> absorbed ((m @ [0]) @ replicate k 0) ctx'"
      using Suc.IH [OF u(2)] k Suc.prems(2) by simp
    then show ?thesis using u(1) c False by (simp add: k(1))
  qed
qed

lemma length_word_bytes [simp]: "length (word_bytes w) = 4"
  by (simp add: word_bytes_def)

lemma sha1_final:
  assumes "absorbed m ctx"
  shows "SHA1Final ctx = Inr (fips_sha1 m)"
proof -
  let ?c = "word_bytes (sc_count1 ctx) @ word_bytes (sc_count0 ctx)"
  let ?k = "(119 - length m mod 64) mod 64"
  obtain ctx1 where u1: "SHA1Update ctx [0x80] = Inr ctx1" "absorbed (m @ [0x80]) ctx1"
    using update_absorbs [OF assms, of "[0x80]"] by auto
  have k: "(120 - length (m @ [0x80 :: byte]) mod 64) mod 64 = ?k"
    using mod_less_divisor [of 64 "length m"] by (simp add: mod_Suc)
  obtain ctx2 where u2: "pad_loop 64 ctx1 = Inr ctx2" "absorbed ((m @ [0x80]) @ replicate ?k 0) ctx2"
    using pad_loop_absorbs [OF u1(2), of 64] unfolding k by (auto simp del: append_assoc)
  obtain ctx3 where u3: "SHA1Update ctx2 ?c = Inr ctx3" "absorbed (((m @ [0x80]) @ replicate ?k 0) @ ?c) ctx3"
    using update_absorbs [OF u2(2), of ?c] by auto
  have "((m @ [0x80]) @ replicate ?k 0) @ ?c = fips_pad m"
    using assms by (simp add: fips_pad_def absorbed_def del: of_nat_mult)
  then have "sc_state ctx3 = fips_blocks sha_iv (fips_pad m)"
    using u3(2) by (simp add: absorbed_def)
  then show ?thesis
    by (simp add: SHA1Final_def Let_def u1(1) u2(1) u3(1) fips_sha1_def split: prod.splits)
qed

lemma sha1_stack:
  assumes "length m + 128 < 4294967296" and "length (sc_buffer ctx) = 64"
  shows "Sha1_stack ctx m = Inr (fips_sha1 m)"
proof -
  obtain ctx' where u: "SHA1Update (SHA1Init ctx) m = Inr ctx'" "absorbed m ctx'"
    using update_absorbs [OF absorbed_init [OF assms(2)] assms(1)] by auto
  have "take (length m mod 4294967296) m = m" using assms(1) by simp
  then show ?thesis using u by (simp add: Sha1_stack_def sha1_final)
qed

lemma sha1_eq: "length m + 128 < 4294967296 \<Longrightarrow> Sha1 m = Inr (fips_sha1 m)"
  by (simp add: Sha1_def sha1_stack)

lemma length_fips_sha1 [simp]: "length (fips_sha1 m) = 20"
  by (simp add: fips_sha1_def split: prod.splits)

section \<open>Properties\<close>

text \<open>C5: \<open>Sha1\<close> (the in-place block transform, the buffering update and the byte-wise padding) returns
  the SHA-1 digest of FIPS 180-1 of every message shorter than $2^{32} - 128$ bytes, whatever the stack
  held in the context's buffer.\<close>

theorem Sha1_is_fips:
  assumes "length m + 128 < 4294967296" and "length (sc_buffer ctx) = 64"
  shows "Sha1_stack ctx m = Inr (fips_sha1 m) \<and> Sha1 m = Inr (fips_sha1 m) \<and> length (fips_sha1 m) = 20"
  using sha1_stack [OF assms] sha1_eq [OF assms(1)] by simp

definition junk_ctx :: sha_ctx where
  "junk_ctx = \<lparr>sc_state = sha_iv, sc_count0 = 7, sc_count1 = 9, sc_buffer = replicate 64 3\<rparr>"

theorem Sha1_is_fips_witness:
  "Sha1_stack junk_ctx [0x61, 0x62, 0x63] = Inr (fips_sha1 [0x61, 0x62, 0x63])
    \<and> Sha1 [0x61, 0x62, 0x63] = Inr (fips_sha1 [0x61, 0x62, 0x63]) \<and> length (fips_sha1 [0x61, 0x62, 0x63]) = 20"
  by (rule Sha1_is_fips) (simp_all add: junk_ctx_def)

end
