(* ===== verification/Bit_Field.thy ===== *)
theory Bit_Field
  imports Messages RW_Lock Torrent_File Sha1
begin

text \<open>
  \<open>BitField\<close>: the pieces a peer or the client has, one bit each, behind the five bytes of the
  message's prefix and id; the most significant bit of a byte is the first piece. \<open>bf_total\<close>
  pieces exist and \<open>bf_cur_sum\<close> of them are there. Every operation takes the component's lock as
  the code does; the early return of \<open>FillBitField\<close> that keeps it is modelled.
\<close>

unbundle bit_operations_syntax

definition bit_hex :: "byte list" where
  "bit_hex = [0x80, 0x40, 0x20, 0x10, 0x08, 0x04, 0x02, 0x01]"

record bitfield =
  bf_data :: "byte list"
  bf_total :: int
  bf_cur_sum :: int
  bf_lock :: rwlock

definition BitField :: bitfield where
  "BitField = \<lparr>bf_data = (replicate 5 0) [4 := 5], bf_total = 0, bf_cur_sum = 0, bf_lock = lock_idle\<rparr>"

section \<open>Operations\<close>

definition SetPrefixLength :: "byte list \<Rightarrow> byte list" where
  "SetPrefixLength d = (if length d \<le> 5 then d else put_at 0 (be32 (int (length d) - 4)) d)"

definition SetBits :: "byte list \<Rightarrow> byte list \<Rightarrow> byte list" where
  "SetBits T_bit_field d = (if T_bit_field = [] then d else SetPrefixLength (d @ T_bit_field))"

text \<open>\<open>erase(5)\<close> of a string shorter than that throws, and nothing catches it.\<close>

definition EraseBits :: "byte list \<Rightarrow> byte list res" where
  "EraseBits d = (if length d < 5 then Inl Exit else Inr (take 5 d))"

definition SetParameter :: "byte list \<Rightarrow> int \<Rightarrow> bitfield \<Rightarrow> bitfield res" where
  "SetParameter T_bit_field T_total bf =
     (case rwlock_wrlock (bf_lock bf) of
        None \<Rightarrow> Inr bf
      | Some l \<Rightarrow>
          rbind (EraseBits (bf_data bf)) (\<lambda>d.
            Inr (bf\<lparr>bf_data := SetBits T_bit_field d, bf_total := T_total, bf_lock := unlock l\<rparr>)))"

definition FillBitField :: "int \<Rightarrow> bitfield \<Rightarrow> bitfield res" where
  "FillBitField T_index bf =
     (if T_index < 0 then Inr bf
      else (case rwlock_wrlock (bf_lock bf) of
          None \<Rightarrow> Inr bf
        | Some l \<Rightarrow>
            if length (bf_data bf) \<le> 5 then Inr (bf\<lparr>bf_lock := l\<rparr>)
            else let index = nat (T_index div 8) + 5; b = bit_hex ! nat (T_index mod 8)
                 in if length (bf_data bf) \<le> index then Inl Undef
                    else let val = bf_data bf ! index
                         in if val AND b \<noteq> 0 then Inr (bf\<lparr>bf_lock := unlock l\<rparr>)
                            else Inr (bf\<lparr>bf_cur_sum := bf_cur_sum bf + 1,
                                        bf_data := (bf_data bf) [index := val OR b],
                                        bf_lock := unlock l\<rparr>)))"

text \<open>\<open>CheckPiece\<close> returns its answer and the index it leaves in its reference parameter.\<close>

definition CheckPiece :: "bitfield \<Rightarrow> int \<Rightarrow> (bool \<times> int) res" where
  "CheckPiece bf T_index =
     (if T_index < 0 then Inr (True, - 1)
      else (case rwlock_rdlock (bf_lock bf) of
          None \<Rightarrow> Inr (True, T_index)
        | Some l \<Rightarrow>
            if length (bf_data bf) \<le> 5 then Inr (True, - 1)
            else let index = nat (T_index div 8) + 5; b = bit_hex ! nat (T_index mod 8)
                 in if length (bf_data bf) < index then Inl Undef
                    else if length (bf_data bf) = index then Inr (False, T_index)
                    else Inr (bf_data bf ! index AND b \<noteq> 0, T_index)))"

fun lack_byte :: "nat list \<Rightarrow> byte \<Rightarrow> byte \<Rightarrow> int \<Rightarrow> int \<Rightarrow> int list \<times> int \<times> int" where
  "lack_byte [] p l index check_total = ([], index, check_total)"
| "lack_byte (i # is) p l index check_total =
     (if 0 < check_total
      then let (ret, index', check') = lack_byte is p l (index + 1) (check_total - 1)
           in (if p AND bit_hex ! i \<noteq> 0 \<and> l AND bit_hex ! i = 0 then index # ret else ret, index', check')
      else ([], index, check_total))"

fun lack_loop :: "byte list \<Rightarrow> byte list \<Rightarrow> int \<Rightarrow> int \<Rightarrow> int list" where
  "lack_loop (p # ps) (l # ls) index check_total =
     (let (ret, index', check') = lack_byte [0..<8] p l index check_total
      in ret @ lack_loop ps ls index' check')"
| "lack_loop _ _ index check_total = []"

definition LackNeedPiece :: "bitfield \<Rightarrow> byte list option \<Rightarrow> int \<Rightarrow> int list res" where
  "LackNeedPiece bf T_bit_field T_len =
     (case rwlock_rdlock (bf_lock bf) of
        None \<Rightarrow> Inr []
      | Some l \<Rightarrow>
          if length (bf_data bf) \<le> 5 then Inr []
          else (case T_bit_field of
              None \<Rightarrow> Inr []
            | Some p \<Rightarrow>
                if T_len + 5 \<noteq> int (length (bf_data bf)) then Inr []
                else if int (length p) < T_len then Inl Undef
                else Inr (lack_loop (take (nat T_len) p) (drop 5 (bf_data bf)) 0 (bf_total bf))))"

definition GameOver :: "bitfield \<Rightarrow> bool" where
  "GameOver bf = (case rwlock_rdlock (bf_lock bf) of None \<Rightarrow> False | Some l \<Rightarrow> bf_total bf = bf_cur_sum bf)"

text \<open>
  \<open>(double)cur_sum / (double)total >= 0.99\<close>: both are 32-bit integers, so the quotient and 0.99 are
  at least $10^{-12}$ apart unless they are equal, and the comparison of the rounded doubles is the
  exact one. Division by 0 is an infinity or, for 0/0, a NaN, which compares false.
\<close>

definition GameEnd :: "bitfield \<Rightarrow> bool" where
  "GameEnd bf =
     (if bf_total bf = 0 then 0 < bf_cur_sum bf
      else if 0 < bf_total bf then 99 * bf_total bf \<le> 100 * bf_cur_sum bf
      else 100 * bf_cur_sum bf \<le> 99 * bf_total bf)"

definition DownLoad :: "torrent \<Rightarrow> bitfield \<Rightarrow> int" where
  "DownLoad t bf =
     (if bf_cur_sum bf = bf_total bf then u32 (GetFileTotal t)
      else u32 (bf_cur_sum bf * GetIndexNormalLength t))"

definition LeftSize :: "torrent \<Rightarrow> bitfield \<Rightarrow> int" where
  "LeftSize t bf =
     (if bf_cur_sum bf = bf_total bf then 0 else u32 (u64 (GetFileTotal t - DownLoad t bf)))"

definition BitField_Clear :: "bitfield \<Rightarrow> bitfield" where
  "BitField_Clear bf = bf\<lparr>bf_lock := rwlock_destroy (bf_lock bf), bf_data := []\<rparr>"

section \<open>The local files\<close>

text \<open>
  \<open>butil::File\<close> is a parameter: what opening a file and reading \<open>size\<close> bytes at \<open>offset\<close> of it
  gives. \<open>Read\<close> returns the number of bytes it stored, -1 on an error.
\<close>

datatype file_read = NotValid | ReadFailed | Stored "byte list"

type_synonym files = "string \<Rightarrow> int \<Rightarrow> int \<Rightarrow> file_read"

fun load_files :: "files \<Rightarrow> fileinfo list \<Rightarrow> byte list \<Rightarrow> byte list res" where
  "load_files rd [] buf = Inr buf"
| "load_files rd ((name, first, second) # fs) buf =
     (case rd name first second of
        NotValid \<Rightarrow> load_files rd fs buf
      | ReadFailed \<Rightarrow> if second = - 1 then load_files rd fs buf else Inl Exit
      | Stored bs \<Rightarrow>
          if length buf < length bs then Inl Undef
          else if second \<noteq> int (length bs) \<and> bs \<noteq> [] then Inl Exit
          else load_files rd fs (put_at 0 bs buf))"

text \<open>\<open>resize\<close> keeps what the buffer holds; a size that is not representable throws.\<close>

definition resize :: "int \<Rightarrow> byte list \<Rightarrow> byte list res" where
  "resize n buf = (if n < 0 then Inl Exit else Inr (take (nat n) buf @ replicate (nat n - length buf) 0))"

fun load_pieces :: "files \<Rightarrow> torrent \<Rightarrow> int list \<Rightarrow> byte list \<Rightarrow> bitfield \<Rightarrow> bitfield res" where
  "load_pieces rd t [] sha1_str bf = Inr bf"
| "load_pieces rd t (index # is) sha1_str bf =
     (let file_name = GetFileName_piece t index
      in if file_name = [] then Inl Exit
         else rbind (resize (GetPieceLength t index) sha1_str) (\<lambda>buf.
              rbind (load_files rd file_name buf) (\<lambda>buf.
              rbind (Sha1 buf) (\<lambda>sha1_data.
              rbind (GetHash t index) (\<lambda>hash.
                if sha1_data = bytes_of hash
                then rbind (FillBitField index bf) (load_pieces rd t is buf)
                else load_pieces rd t is buf bf)))))"

definition LoadLocalFile :: "files \<Rightarrow> torrent \<Rightarrow> bitfield \<Rightarrow> bitfield res" where
  "LoadLocalFile rd t bf =
     (if GetIndexNormalLength t < 0 then Inl Exit
      else rbind (GetIndexTotal t) (\<lambda>max_index. load_pieces rd t [0..i32 max_index - 1] [] bf))"

section \<open>Bits\<close>

definition has_bit :: "byte list \<Rightarrow> nat \<Rightarrow> bool" where
  "has_bit bs n \<longleftrightarrow> n < 8 * length bs \<and> bs ! (n div 8) AND bit_hex ! (n mod 8) \<noteq> 0"

definition bits :: "bitfield \<Rightarrow> byte list" where
  "bits bf = drop 5 (bf_data bf)"

definition count_bits :: "byte list \<Rightarrow> nat" where
  "count_bits bs = card {n. has_bit bs n}"

lemma bit_hex_nth: "i < 8 \<Longrightarrow> bit_hex ! i = 2 ^ (7 - i)"
  by (auto simp: bit_hex_def less_Suc_eq eval_nat_numeral)

lemma AND_exp: "(b :: byte) AND 2 ^ k \<noteq> 0 \<longleftrightarrow> bit b k"
  by (simp add: and_exp_eq_0_iff_not_bit)

lemma has_bit_bit: "has_bit bs n \<longleftrightarrow> n < 8 * length bs \<and> bit (bs ! (n div 8)) (7 - n mod 8)"
  by (simp add: has_bit_def bit_hex_nth AND_exp)

lemma seven_minus: "a < 8 \<Longrightarrow> b < 8 \<Longrightarrow> 7 - a = 7 - b \<longleftrightarrow> a = (b :: nat)"
  by arith

lemma bit_or_exp: "k < 8 \<Longrightarrow> bit ((b :: byte) OR 2 ^ k) j \<longleftrightarrow> bit b j \<or> j = k"
  by (auto simp: bit_or_iff bit_exp_iff possible_bit_def)

lemma has_bit_set:
  assumes "n < 8 * length bs"
  shows "has_bit (bs [n div 8 := bs ! (n div 8) OR bit_hex ! (n mod 8)]) m \<longleftrightarrow> has_bit bs m \<or> m = n"
proof (cases "m div 8 = n div 8")
  case True
  have "m = n \<longleftrightarrow> 7 - m mod 8 = 7 - n mod 8"
    using True by (metis div_mult_mod_eq seven_minus mod_less_divisor zero_less_numeral)
  moreover have "n div 8 < length bs" using assms by auto
  moreover from this have "m < 8 * length bs" using True by (metis div_less_iff_less_mult mult.commute zero_less_numeral)
  moreover have "7 - n mod 8 < 8" by simp
  ultimately show ?thesis
    using True by (simp add: has_bit_bit bit_hex_nth bit_or_exp)
next
  case False
  then show ?thesis by (auto simp: has_bit_bit)
qed

lemma finite_has_bit: "finite {n. has_bit bs n}"
  by (rule finite_subset [of _ "{..<8 * length bs}"]) (auto simp: has_bit_def)

lemma has_bit_less: "has_bit bs n \<Longrightarrow> n < 8 * length bs"
  by (simp add: has_bit_def)

lemma count_bits_le: "count_bits bs \<le> 8 * length bs"
proof -
  have "card {n. has_bit bs n} \<le> card {..<8 * length bs}"
    by (rule card_mono) (auto dest: has_bit_less)
  then show ?thesis by (simp add: count_bits_def)
qed

lemma count_bits_insert:
  assumes "\<And>m. has_bit bs' m \<longleftrightarrow> has_bit bs m \<or> m = n"
  shows "count_bits bs' = (if has_bit bs n then count_bits bs else Suc (count_bits bs))"
proof -
  have "{m. has_bit bs' m} = insert n {m. has_bit bs m}"
    using assms by auto
  then show ?thesis by (simp add: count_bits_def card_insert_if finite_has_bit)
qed

lemma length_bits: "5 < length (bf_data bf) \<Longrightarrow> length (bf_data bf) = length (bits bf) + 5"
  by (simp add: bits_def)

lemma bits_nth: "j < length (bits bf) \<Longrightarrow> bf_data bf ! (j + 5) = bits bf ! j"
  by (simp add: bits_def add.commute)

lemma FillBitField_eq:
  assumes "bf_lock bf = lock_idle" and "0 \<le> i" and "nat i < 8 * length (bits bf)"
  shows "FillBitField i bf = Inr (if has_bit (bits bf) (nat i) then bf
     else bf\<lparr>bf_cur_sum := bf_cur_sum bf + 1,
             bf_data := (bf_data bf) [nat (i div 8) + 5 := bits bf ! (nat i div 8) OR bit_hex ! (nat i mod 8)]\<rparr>)"
proof -
  have d: "nat (i div 8) = nat i div 8" "nat (i mod 8) = nat i mod 8"
    using assms(2) by (simp_all add: nat_div_distrib nat_mod_distrib)
  have l: "nat i div 8 < length (bits bf)" "5 < length (bf_data bf)"
    using assms(3) by (auto simp: bits_def)
  have "bf\<lparr>bf_lock := lock_idle\<rparr> = bf" using assms(1) by simp
  then show ?thesis
    using assms l length_bits [OF l(2)]
    by (simp add: FillBitField_def d Let_def bits_nth has_bit_def)
qed

lemma bits_update: "bits (bf\<lparr>bf_cur_sum := c, bf_data := (bf_data bf) [j + 5 := b]\<rparr>) = (bits bf) [j := b]"
  by (simp add: bits_def drop_update_swap)

lemma FillBitField_fields:
  assumes "bf_lock bf = lock_idle" and "0 \<le> i" and "nat i < 8 * length (bits bf)"
    and "FillBitField i bf = Inr bf'"
  shows "has_bit (bits bf') m \<longleftrightarrow> has_bit (bits bf) m \<or> m = nat i"
    and "bf_lock bf' = lock_idle" and "bf_total bf' = bf_total bf"
    and "take 5 (bf_data bf') = take 5 (bf_data bf)" and "length (bf_data bf') = length (bf_data bf)"
    and "bf_cur_sum bf' = bf_cur_sum bf + (if has_bit (bits bf) (nat i) then 0 else 1)"
proof -
  have bf': "bf' = (if has_bit (bits bf) (nat i) then bf
     else bf\<lparr>bf_cur_sum := bf_cur_sum bf + 1,
             bf_data := (bf_data bf) [nat i div 8 + 5 := bits bf ! (nat i div 8) OR bit_hex ! (nat i mod 8)]\<rparr>)"
    using assms FillBitField_eq [OF assms(1-3)] by (auto simp: nat_div_distrib)
  show "has_bit (bits bf') m \<longleftrightarrow> has_bit (bits bf) m \<or> m = nat i"
    using has_bit_set [OF assms(3)] by (auto simp: bf' bits_update)
qed (use FillBitField_eq [OF assms(1-3)] assms in auto)

section \<open>The invariant\<close>

text \<open>The counter is the number of bits set, and the lock is free.\<close>

definition bf_inv :: "bitfield \<Rightarrow> bool" where
  "bf_inv bf \<longleftrightarrow> bf_lock bf = lock_idle \<and> bf_cur_sum bf = int (count_bits (bits bf))"

lemma FillBitField_inv:
  assumes "bf_inv bf" and "nat i < 8 * length (bits bf)" and "FillBitField i bf = Inr bf'"
  shows "bf_inv bf'"
proof (cases "i < 0")
  case True
  then show ?thesis using assms by (simp add: FillBitField_def)
next
  case False
  note f = FillBitField_fields [of bf i bf']
  have "count_bits (bits bf') = (if has_bit (bits bf) (nat i) then count_bits (bits bf) else Suc (count_bits (bits bf)))"
    using assms False by (intro count_bits_insert f(1)) (simp_all add: bf_inv_def)
  then show ?thesis
    using f(2,6) assms False by (simp add: bf_inv_def)
qed

lemma check_piece_eq:
  assumes "bf_inv bf" and "0 \<le> i" and "nat i < 8 * length (bits bf)"
  shows "CheckPiece bf i = Inr (has_bit (bits bf) (nat i), i)"
proof -
  have d: "nat (i div 8) = nat i div 8" "nat (i mod 8) = nat i mod 8"
    using assms(2) by (simp_all add: nat_div_distrib nat_mod_distrib)
  have l: "nat i div 8 < length (bits bf)" "5 < length (bf_data bf)"
    using assms(3) by (auto simp: bits_def)
  show ?thesis
    using assms l length_bits [OF l(2)] by (simp add: CheckPiece_def bf_inv_def d Let_def bits_nth has_bit_def)
qed

fun fill_all :: "int list \<Rightarrow> bitfield \<Rightarrow> bitfield res" where
  "fill_all [] bf = Inr bf"
| "fill_all (i # is) bf = rbind (FillBitField i bf) (fill_all is)"

section \<open>Lemmas: what the client lacks\<close>

lemma lack_byte_upt:
  assumes "k \<le> 8"
  shows "lack_byte [k..<8] p l x c =
    (map (\<lambda>i. x + int i - int k)
        (filter (\<lambda>i. p AND bit_hex ! i \<noteq> 0 \<and> l AND bit_hex ! i = 0) [k..<min 8 (k + nat c)]),
     x + int (min (8 - k) (nat c)), c - int (min (8 - k) (nat c)))"
  using assms
proof (induction "8 - k" arbitrary: k x c)
  case 0
  then show ?case by simp
next
  case (Suc d)
  have k: "[k..<8] = k # [Suc k..<8]" using Suc.hyps(2) by (simp add: upt_conv_Cons)
  show ?case
  proof (cases "0 < c")
    case True
    obtain n where n: "nat c = Suc n" using True by (metis gr0_implies_Suc zero_less_nat_eq)
    have c: "nat (c - 1) = n" "c - 1 = int n" using n True by auto
    define M where "M = min 8 (Suc k + n)"
    have m: "min 8 (k + nat c) = M" "8 - k = Suc (8 - Suc k)" "[k..<M] = k # [Suc k..<M]"
      using Suc.hyps(2) n by (auto simp: M_def upt_conv_Cons)
    have ih: "lack_byte [Suc k..<8] p l (x + 1) (c - 1) =
        (map (\<lambda>i. x + int i - int k)
        (filter (\<lambda>i. p AND bit_hex ! i \<noteq> 0 \<and> l AND bit_hex ! i = 0) [Suc k..<M]),
        x + 1 + int (min (8 - Suc k) n), int n - int (min (8 - Suc k) n))"
      using Suc.hyps(1) [of "Suc k" "x + 1" "c - 1"] Suc.hyps(2) c(1) n True by (simp add: M_def algebra_simps)
    have e: "min (8 - k) (nat c) = Suc (min (8 - Suc k) n)" "c = int n + 1" using n True m(2) by auto
    show ?thesis
      unfolding k lack_byte.simps ih e(1) m(1,3) using True e(2) by simp
  qed (simp add: k)
qed

lemma has_bit_Cons: "n < 8 \<Longrightarrow> has_bit (p # ps) n \<longleftrightarrow> p AND bit_hex ! n \<noteq> 0"
  "has_bit (p # ps) (8 + n) \<longleftrightarrow> has_bit ps n"
  by (simp_all add: has_bit_def div_add_self1)

lemma upt_8: "[0..<8 + d] = [0..<8] @ map ((+) 8) [0..<d]"
  using upt_add_eq_append [of 0 8 d] map_add_upt [of 8 d]
  by (simp only: add.commute [of _ "8::nat"] add_0 le0)

lemma lack_loop_eq:
  "length ps = length ls \<Longrightarrow> lack_loop ps ls x c =
     map (\<lambda>n. x + int n) (filter (\<lambda>n. has_bit ps n \<and> \<not> has_bit ls n) [0..<min (nat c) (8 * length ps)])"
proof (induction ps ls arbitrary: x c rule: list_induct2)
  case Nil
  then show ?case by simp
next
  case (Cons p ps l ls)
  let ?P = "\<lambda>n. has_bit (p # ps) n \<and> \<not> has_bit (l # ls) n"
  have "[0..<min (nat c) (8 * length (p # ps))]
      = [0..<min 8 (nat c)] @ map ((+) 8) [0..<min (nat c - 8) (8 * length ps)]"
  proof (cases "nat c \<le> 8")
    case False
    then have "min (nat c) (8 * length (p # ps)) = 8 + min (nat c - 8) (8 * length ps)" by simp
    then show ?thesis using False by (simp only: upt_8) simp
  qed simp
  moreover have "filter ?P [0..<min 8 (nat c)]
      = filter (\<lambda>i. p AND bit_hex ! i \<noteq> 0 \<and> l AND bit_hex ! i = 0) [0..<min 8 (nat c)]"
    by (rule filter_cong) (auto simp: has_bit_Cons)
  moreover have "filter ?P (map ((+) 8) ns) = map ((+) 8) (filter (\<lambda>n. has_bit ps n \<and> \<not> has_bit ls n) ns)" for ns
    by (simp add: filter_map o_def has_bit_Cons)
  moreover have "nat (c - int (min 8 (nat c))) = nat c - 8" by simp
  moreover have "min 8 (nat c) = 8 \<or> nat c - 8 = 0" by linarith
  ultimately show ?case
    using Cons.IH lack_byte_upt [of 0 p l x c] by (auto simp: o_def algebra_simps)
qed

section \<open>Lemmas: loading a single file\<close>

text \<open>What \<open>butil::File\<close> does on a file that is there: the bytes from the offset on, as many as there are.\<close>

definition whole_file :: "string \<Rightarrow> byte list \<Rightarrow> files" where
  "whole_file nm content name off len =
     (if name \<noteq> nm then NotValid
      else if off < 0 \<or> len < 0 then ReadFailed
      else Stored (take (nat len) (drop (nat off) content)))"

definition piece_bytes :: "torrent \<Rightarrow> byte list \<Rightarrow> int \<Rightarrow> byte list" where
  "piece_bytes t content i =
     take (nat (GetPieceLength t i)) (drop (nat (i * tf_piece_length t)) content)"

definition good_piece :: "torrent \<Rightarrow> byte list \<Rightarrow> int \<Rightarrow> bool" where
  "good_piece t content i \<longleftrightarrow>
     fips_sha1 (piece_bytes t content i) = bytes_of (take 20 (drop (nat (i * 20)) (tf_pieces t)))"

text \<open>A well-formed single-file torrent of less than 2 GB, with the file there in full.\<close>

definition on_disk :: "torrent \<Rightarrow> byte list \<Rightarrow> bool" where
  "on_disk t content \<longleftrightarrow> wf_torrent t \<and> tf_single t \<and> GetFileTotal t < 2147483648
     \<and> int (length content) = GetFileTotal t"

lemma piece_place:
  assumes "wf_torrent t" and "tf_single t" and "GetFileTotal t < 2147483648" and "0 \<le> i" and "i < pieces_num t"
  shows "GetFileName_piece t i = [(tf_name t, i * tf_piece_length t, GetPieceLength t i)]"
    and "i * tf_piece_length t + GetPieceLength t i \<le> GetFileTotal t" and "0 < GetPieceLength t i"
    and "GetPieceLength t i \<le> 1073741824"
proof -
  have pl: "GetPieceLength t i = (if i = pieces_num t - 1 then end_length t else tf_piece_length t)"
    using GetPieceLength_wf assms by simp
  have mono: "i * tf_piece_length t \<le> (pieces_num t - 1) * tf_piece_length t"
    using assms by (intro mult_right_mono) (auto simp: wf_torrent_def)
  then have "i * tf_piece_length t < 2147483648"
    using assms(1,3) unfolding wf_torrent_def by linarith
  moreover have "0 \<le> i * tf_piece_length t" using assms by (simp add: wf_torrent_def)
  ultimately have ov: "0 \<le> i * tf_piece_length t" "i * tf_piece_length t < 2147483648" by blast+
  have p: "i32 (tf_piece_length t) = tf_piece_length t" using assms by (simp add: wf_torrent_def i32_id)
  have e: "i32 (u64 (GetFileTotal t - (pieces_num t - 1) * tf_piece_length t)) = end_length t"
    using end_length_bounds [OF assms(1)] by (simp add: i32_u64 i32_id flip: end_length_def)
  show "GetFileName_piece t i = [(tf_name t, i * tf_piece_length t, GetPieceLength t i)]"
    using assms ov e p by (auto simp: GetFileName_piece_def GetFileName_def GetIndexEnd_wf Let_def pl i32_u64 i32_id)
  show "i * tf_piece_length t + GetPieceLength t i \<le> GetFileTotal t"
  proof (cases "i = pieces_num t - 1")
    case False
    then have "(i + 1) * tf_piece_length t \<le> (pieces_num t - 1) * tf_piece_length t"
      using assms by (intro mult_right_mono) (auto simp: wf_torrent_def)
    then have "i * tf_piece_length t + tf_piece_length t \<le> GetFileTotal t"
      using assms(1) unfolding wf_torrent_def distrib_right by linarith
    then show ?thesis using False by (simp add: pl)
  next
    case True
    then have "GetPieceLength t i = end_length t" using pl by simp
    then show ?thesis using True by (simp add: end_length_def)
  qed
  show "0 < GetPieceLength t i" "GetPieceLength t i \<le> 1073741824"
    using end_length_bounds [OF assms(1)] assms by (auto simp: pl wf_torrent_def)
qed

lemma GetHash_wf:
  assumes "wf_torrent t" and "pieces_num t \<le> 107374182" and "0 \<le> i" and "i < pieces_num t"
  shows "GetHash t i = Inr (take 20 (drop (nat (i * 20)) (tf_pieces t)))"
proof -
  have "(i + 1) * 20 \<le> pieces_size t"
    using assms(4) unfolding pieces_num_def by presburger
  then show ?thesis using assms by (simp add: GetHash_def)
qed

lemma load_one_piece:
  assumes "on_disk t content" and "pieces_num t \<le> 107374182" and "0 \<le> i" and "i < pieces_num t"
  shows "\<exists>buf'. load_pieces (whole_file (tf_name t) content) t (i # is) buf bf =
    (if good_piece t content i
     then rbind (FillBitField i bf) (load_pieces (whole_file (tf_name t) content) t is buf')
     else load_pieces (whole_file (tf_name t) content) t is buf' bf)"
proof -
  have t: "wf_torrent t" "tf_single t" "GetFileTotal t < 2147483648" "int (length content) = GetFileTotal t"
    using assms(1) by (auto simp: on_disk_def)
  note p = piece_place [OF t(1-3) assms(3,4)]
  define n where "n = nat (GetPieceLength t i)"
  define bs where "bs = piece_bytes t content i"
  have n: "0 < n" "n \<le> 1073741824" "GetPieceLength t i = int n" using p by (auto simp: n_def)
  have off: "0 \<le> i * tf_piece_length t" using assms t by (auto simp: wf_torrent_def)
  have "nat (i * tf_piece_length t) + n \<le> length content" using p(2) t(4) off n by linarith
  then have bs: "length bs = n" by (simp add: bs_def piece_bytes_def n)
  obtain buf1 where buf1: "resize (GetPieceLength t i) buf = Inr buf1" "length buf1 = n"
    using n by (simp add: resize_def)
  have rd: "whole_file (tf_name t) content (tf_name t) (i * tf_piece_length t) (int n) = Stored bs"
    using off by (simp add: whole_file_def bs_def piece_bytes_def n)
  have lf: "load_files (whole_file (tf_name t) content) (GetFileName_piece t i) buf1 = Inr bs"
    using n bs buf1 rd by (simp add: p(1) put_at_def)
  have "Sha1 bs = Inr (fips_sha1 bs)" using bs n by (intro sha1_eq) simp
  then show ?thesis
    using lf buf1(1) GetHash_wf [OF t(1) assms(2-4)] by (auto simp: p(1) good_piece_def bs_def Let_def)
qed

lemma load_pieces_spec:
  assumes "on_disk t content" and "pieces_num t \<le> 107374182" and "\<forall>i \<in> set is. 0 \<le> i \<and> i < pieces_num t"
  shows "load_pieces (whole_file (tf_name t) content) t is buf bf = fill_all (filter (good_piece t content) is) bf"
  using assms(3)
proof (induction "is" arbitrary: buf bf)
  case Nil
  then show ?case by simp
next
  case (Cons i js)
  obtain buf' where "load_pieces (whole_file (tf_name t) content) t (i # js) buf bf =
    (if good_piece t content i
     then rbind (FillBitField i bf) (load_pieces (whole_file (tf_name t) content) t js buf')
     else load_pieces (whole_file (tf_name t) content) t js buf' bf)"
    using load_one_piece [OF assms(1,2)] Cons.prems by (metis list.set_intros(1))
  then show ?case
    using Cons by (simp del: load_pieces.simps(2) cong: if_cong add: rbind_def split: sum.splits)
qed

lemma fill_all_spec:
  assumes "bf_inv bf" and "\<forall>i \<in> set is. 0 \<le> i \<and> nat i < 8 * length (bits bf)"
  shows "\<exists>bf'. fill_all is bf = Inr bf' \<and> bf_inv bf' \<and> bf_total bf' = bf_total bf
    \<and> length (bf_data bf') = length (bf_data bf)
    \<and> (\<forall>m. has_bit (bits bf') m \<longleftrightarrow> has_bit (bits bf) m \<or> int m \<in> set is)"
  using assms
proof (induction "is" arbitrary: bf)
  case Nil
  then show ?case by simp
next
  case (Cons i js)
  have i: "bf_lock bf = lock_idle" "0 \<le> i" "nat i < 8 * length (bits bf)"
    using Cons.prems by (auto simp: bf_inv_def)
  obtain bf1 where bf1: "FillBitField i bf = Inr bf1" using FillBitField_eq [OF i] by blast
  note f = FillBitField_fields [OF i bf1]
  have "length (bits bf1) = length (bits bf)" by (simp add: bits_def f(5))
  then obtain bf2 where bf2: "fill_all js bf1 = Inr bf2" "bf_inv bf2" "bf_total bf2 = bf_total bf1"
    "length (bf_data bf2) = length (bf_data bf1)"
    "\<forall>m. has_bit (bits bf2) m \<longleftrightarrow> has_bit (bits bf1) m \<or> int m \<in> set js"
    using Cons.IH [OF FillBitField_inv [OF Cons.prems(1) i(3) bf1]] Cons.prems(2) by auto
  then show ?case using bf1 f i(2) by auto
qed

section \<open>Properties\<close>

text \<open>Filling a piece sets its bit and no other, counts it once, keeps the message's header, and
  leaves the lock free; a piece that is there already changes nothing. \<open>CheckPiece\<close> then reports exactly
  the pieces that are there.\<close>

theorem FillBitField_sets_bit:
  assumes "bf_inv bf" and "0 \<le> i" and "nat i < 8 * length (bits bf)"
  shows "\<exists>bf'. FillBitField i bf = Inr bf' \<and> bf_inv bf'
    \<and> (\<forall>m. has_bit (bits bf') m \<longleftrightarrow> has_bit (bits bf) m \<or> m = nat i)
    \<and> take 5 (bf_data bf') = take 5 (bf_data bf) \<and> bf_total bf' = bf_total bf
    \<and> (has_bit (bits bf) (nat i) \<longrightarrow> bf' = bf)
    \<and> CheckPiece bf i = Inr (has_bit (bits bf) (nat i), i) \<and> CheckPiece bf' i = Inr (True, i)"
proof -
  have l: "bf_lock bf = lock_idle" using assms(1) by (simp add: bf_inv_def)
  obtain bf' where bf': "FillBitField i bf = Inr bf'" using FillBitField_eq [OF l assms(2,3)] by blast
  note f = FillBitField_fields [OF l assms(2,3) bf']
  have inv: "bf_inv bf'" by (rule FillBitField_inv [OF assms(1,3) bf'])
  have "has_bit (bits bf) (nat i) \<longrightarrow> bf' = bf"
    using FillBitField_eq [OF l assms(2,3)] bf' by auto
  moreover have "length (bits bf') = length (bits bf)" by (simp add: bits_def f(5))
  ultimately show ?thesis
    using bf' inv f(1,3,4) check_piece_eq [OF assms] check_piece_eq [OF inv assms(2)] assms(3) by auto
qed

text \<open>The bit field of three pieces of which the client has the second.\<close>

definition sample_bits :: bitfield where
  "sample_bits = \<lparr>bf_data = [0, 0, 0, 2, 5, 0x40], bf_total = 3, bf_cur_sum = 1, bf_lock = lock_idle\<rparr>"

lemma less_8_cases: "(n :: nat) < 8 \<Longrightarrow> n = 0 \<or> n = 1 \<or> n = 2 \<or> n = 3 \<or> n = 4 \<or> n = 5 \<or> n = 6 \<or> n = 7"
  by presburger

lemma sample_has_bit: "has_bit [0x40] n \<longleftrightarrow> n = 1"
  by (auto simp: has_bit_def bit_hex_def dest!: less_8_cases)

lemma sample_bits_bits: "bits sample_bits = [0x40]"
  by (simp add: bits_def sample_bits_def)

lemma sample_bits_inv: "bf_inv sample_bits"
  unfolding bf_inv_def count_bits_def sample_bits_bits sample_has_bit by (simp add: sample_bits_def)

theorem FillBitField_sets_bit_witness:
  "\<exists>bf'. FillBitField 2 sample_bits = Inr bf' \<and> bf_inv bf'
    \<and> (\<forall>m. has_bit (bits bf') m \<longleftrightarrow> has_bit (bits sample_bits) m \<or> m = nat 2)
    \<and> CheckPiece bf' 2 = Inr (True, 2)"
  using FillBitField_sets_bit [OF sample_bits_inv, of 2] by (auto simp: sample_bits_bits)

text \<open>C21: of a peer's bit field of the right length, \<open>LackNeedPiece\<close> returns exactly the pieces, in
  order, that the peer has and the client lacks; the spare bits behind the last piece are not pieces.\<close>

theorem LackNeedPiece_exact:
  assumes "bf_inv bf" and "5 < length (bf_data bf)" and "length p = length (bits bf)"
  shows "LackNeedPiece bf (Some p) (int (length p)) = Inr (map int (filter
    (\<lambda>n. has_bit p n \<and> \<not> has_bit (bits bf) n) [0..<min (nat (bf_total bf)) (8 * length p)]))"
  using assms length_bits [OF assms(2)] lack_loop_eq [OF assms(3), of 0 "bf_total bf"]
  by (simp add: LackNeedPiece_def bf_inv_def flip: bits_def)

theorem LackNeedPiece_exact_witness:
  "LackNeedPiece sample_bits (Some [0xFF]) (int (length [0xFF :: byte])) = Inr (map int (filter
    (\<lambda>n. has_bit [0xFF] n \<and> \<not> has_bit (bits sample_bits) n) [0..<min (nat (bf_total sample_bits)) (8 * length [0xFF :: byte])]))"
  by (rule LackNeedPiece_exact [OF sample_bits_inv]) (simp_all add: sample_bits_def bits_def)

text \<open>While the counter agrees with the bits and no spare bit is set, \<open>GameOver\<close> says that the download is
  complete exactly when every piece is there.\<close>

theorem GameOver_all_pieces:
  assumes "bf_inv bf" and "0 \<le> bf_total bf" and "\<forall>m. has_bit (bits bf) m \<longrightarrow> int m < bf_total bf"
  shows "GameOver bf \<longleftrightarrow> (\<forall>m. int m < bf_total bf \<longrightarrow> has_bit (bits bf) m)"
proof -
  let ?A = "{m. has_bit (bits bf) m}" and ?B = "{..<nat (bf_total bf)}"
  have sub: "?A \<subseteq> ?B" using assms(3) by auto
  have "GameOver bf \<longleftrightarrow> card ?A = card ?B"
    using assms(1,2) by (auto simp: GameOver_def bf_inv_def count_bits_def)
  also have "\<dots> \<longleftrightarrow> ?A = ?B"
    using card_subset_eq [OF finite_lessThan sub] by metis
  also have "\<dots> \<longleftrightarrow> (\<forall>m. int m < bf_total bf \<longrightarrow> has_bit (bits bf) m)"
    using sub by auto
  finally show ?thesis .
qed

theorem GameOver_all_pieces_witness:
  "GameOver sample_bits \<longleftrightarrow> (\<forall>m. int m < bf_total sample_bits \<longrightarrow> has_bit (bits sample_bits) m)"
  by (rule GameOver_all_pieces [OF sample_bits_inv]) (simp_all add: sample_bits_bits sample_has_bit, simp_all add: sample_bits_def)



text \<open>\<open>FillBitField\<close> on a bit field without payload returns with the writer's lock held: from then on no
  operation of the bit field has an effect and the download is never over.\<close>

theorem FillBitField_short_keeps_lock:
  assumes "bf_lock bf = lock_idle" and "length (bf_data bf) \<le> 5" and "0 \<le> i"
  shows "\<exists>bf'. FillBitField i bf = Inr bf' \<and> lk_writer (bf_lock bf') \<and> \<not> GameOver bf'
    \<and> (\<forall>j. FillBitField j bf' = Inr bf') \<and> (\<forall>d n. SetParameter d n bf' = Inr bf')
    \<and> (\<forall>j. 0 \<le> j \<longrightarrow> CheckPiece bf' j = Inr (True, j))"
proof -
  let ?bf = "bf\<lparr>bf_lock := lock_idle\<lparr>lk_writer := True\<rparr>\<rparr>"
  have "rwlock_wrlock (bf_lock ?bf) = None" "rwlock_rdlock (bf_lock ?bf) = None"
    using held_refuses [of "bf_lock ?bf"] by simp_all
  moreover have "FillBitField i bf = Inr ?bf" using assms by (simp add: FillBitField_def)
  ultimately show ?thesis
    by (intro exI [of _ ?bf]) (simp add: FillBitField_def SetParameter_def CheckPiece_def GameOver_def)
qed

theorem FillBitField_short_keeps_lock_witness:
  "\<exists>bf'. FillBitField 0 BitField = Inr bf' \<and> lk_writer (bf_lock bf') \<and> \<not> GameOver bf'"
  using FillBitField_short_keeps_lock [of BitField 0] by (auto simp: BitField_def)

end
