(* ===== verification/Bit_Memory.thy ===== *)
theory Bit_Memory
  imports Bit_Field
begin

text \<open>
  \<open>BitMemory\<close>: the slices of a piece are collected in blocks of 512 KB; when the last one is there the
  piece is hashed and written to the files. The blocks come from \<open>butil::ResourcePool\<close>: \<open>alloc k\<close>
  is what the \<open>k\<close>-th request of a call gives, a block with whatever it held before or \<open>None\<close>. The
  file system is the record \<open>disk\<close>: which names can be opened for writing and what \<open>butil::File::Write\<close>
  returns. A call gives its result, whether the piece is complete (then the source calls
  \<open>LocalBitField::FillBitField\<close> and \<open>NeedPiece::ClearIndex\<close>, see \<open>Peer_Manager\<close>), the writes it made
  and the new state. The mutex guards the table of blocks only and is free between calls.
\<close>

definition BT_size :: nat where
  "BT_size = 524288"

record memory_block =
  mb_cur_len :: int
  mb_data :: "byte list list"

record bit_memory =
  bm_index_end :: int
  bm_length_end :: int
  bm_length_normal :: int
  bm_pool :: "(int, memory_block) table"

record disk =
  dk_opens :: "string \<Rightarrow> bool"
  dk_write :: "string \<Rightarrow> int \<Rightarrow> byte list \<Rightarrow> int"

type_synonym alloc = "nat \<Rightarrow> byte list option"
type_synonym written = "string \<times> int \<times> byte list"

definition BitMemory :: bit_memory where
  "BitMemory = \<lparr>bm_index_end = 0, bm_length_end = 0, bm_length_normal = 0, bm_pool = []\<rparr>"

definition BM_Init :: "int \<Rightarrow> int \<Rightarrow> int \<Rightarrow> bit_memory \<Rightarrow> bit_memory res" where
  "BM_Init T_index_end T_length_end T_length_normal bm =
     (if T_index_end < 0 then Inl Exit
      else if T_length_end < 0 then Inl Exit
      else Inr (bm\<lparr>bm_index_end := T_index_end, bm_length_end := T_length_end, bm_length_normal := T_length_normal\<rparr>))"

definition BM_Clear :: "bit_memory \<Rightarrow> bit_memory" where
  "BM_Clear bm = bm\<lparr>bm_pool := []\<rparr>"

section \<open>The blocks of a piece\<close>

function new_blocks :: "alloc \<Rightarrow> nat \<Rightarrow> int \<Rightarrow> byte list list res" where
  "new_blocks alloc k cur_memory =
     (if 0 < cur_memory
      then (case alloc k of None \<Rightarrow> Inl Exit
          | Some buf \<Rightarrow> rbind (new_blocks alloc (Suc k) (cur_memory - int BT_size)) (\<lambda>bs. Inr (buf # bs)))
      else Inr [])"
  by pat_completeness auto
termination by (relation "measure (\<lambda>(a, k, m). nat m)") (auto simp: BT_size_def)

declare new_blocks.simps [simp del]

text \<open>
  \<open>ClearIndex\<close>: with length 0 the blocks go back to the pool and the (empty) entry stays; with another
  length the piece is to be received again.
\<close>

definition BM_ClearIndex :: "int \<Rightarrow> int \<Rightarrow> bit_memory \<Rightarrow> bit_memory" where
  "BM_ClearIndex T_index T_len bm =
     (case tfind (bm_pool bm) T_index of None \<Rightarrow> bm
      | Some _ \<Rightarrow>
          if 0 = T_len then bm\<lparr>bm_pool := tadjust T_index (\<lambda>b. b\<lparr>mb_data := []\<rparr>) (bm_pool bm)\<rparr>
          else bm\<lparr>bm_pool := tadjust T_index (\<lambda>b. b\<lparr>mb_cur_len := T_len\<rparr>) (bm_pool bm)\<rparr>)"

section \<open>Writing a piece to its files\<close>

text \<open>\<open>memcpy\<close> out of a block; past its end it is undefined.\<close>

definition block_read :: "byte list \<Rightarrow> int \<Rightarrow> int \<Rightarrow> byte list res" where
  "block_read b off n =
     (if off < 0 \<or> n < 0 \<or> int (length b) < off + n then Inl Undef else Inr (take (nat n) (drop (nat off) b)))"

text \<open>The loop of \<open>_Write\<close>; the blocks from \<open>start\<close> on are its third argument.\<close>

fun write_files :: "disk \<Rightarrow> fileinfo list \<Rightarrow> byte list list \<Rightarrow> int \<Rightarrow> int \<Rightarrow> int \<Rightarrow> written list
    \<Rightarrow> (int \<times> written list) res" where
  "write_files dk [] blocks cur_read left_read write_byte log = Inr (write_byte, log)"
| "write_files dk ((name, first, second) # fs) [] cur_read left_read write_byte log = Inr (- 1, log)"
| "write_files dk ((name, first, second) # fs) (b # blocks) cur_read left_read write_byte log =
     (if \<not> dk_opens dk name then Inr (- 1, log)
      else if second \<le> left_read
      then rbind (block_read b cur_read second) (\<lambda>bs.
             if dk_write dk name first bs \<noteq> second then Inr (- 1, log @ [(name, first, bs)])
             else write_files dk fs (b # blocks) (cur_read + second) (left_read - second) (write_byte + second)
                    (log @ [(name, first, bs)]))
      else rbind (block_read b cur_read left_read) (\<lambda>bs1.
             let log1 = log @ [(name, first, bs1)] in
             case blocks of [] \<Rightarrow> Inr (- 1, log1)
             | b2 # blocks' \<Rightarrow>
                 rbind (block_read b2 0 (second - left_read)) (\<lambda>bs2.
                   let log2 = log1 @ [(name, first + left_read, bs2)] in
                   if dk_write dk name first bs1 + dk_write dk name (first + left_read) bs2 \<noteq> second
                   then Inr (- 1, log2)
                   else write_files dk fs (b2 # blocks') (second - left_read) (int BT_size - left_read)
                          (write_byte + second) log2)))"

definition BM_WriteFile :: "disk \<Rightarrow> torrent \<Rightarrow> int \<Rightarrow> bit_memory \<Rightarrow> (int \<times> written list) res" where
  "BM_WriteFile dk t T_index bm =
     (case tfind (bm_pool bm) T_index of None \<Rightarrow> Inl Undef
      | Some block \<Rightarrow>
          if mb_data block = [] then Inr (- 1, [])
          else let file_name = GetFileName_piece t T_index
               in if file_name = [] then Inr (- 1, [])
                  else write_files dk file_name (mb_data block) 0 (int BT_size) 0 [])"

section \<open>A slice\<close>

text \<open>\<open>memcpy\<close> into block \<open>k\<close> at \<open>off\<close>; a block that is not there, or too small, is undefined.\<close>

definition block_write :: "nat \<Rightarrow> nat \<Rightarrow> byte list \<Rightarrow> byte list list \<Rightarrow> byte list list res" where
  "block_write k off bs blocks =
     (if length blocks \<le> k then Inl Undef
      else if length (blocks ! k) < off + length bs then Inl Undef
      else Inr (blocks [k := put_at off bs (blocks ! k)]))"

definition store_slice :: "int \<Rightarrow> byte list \<Rightarrow> byte list list \<Rightarrow> byte list list res" where
  "store_slice T_begin bs blocks =
     (let block_index = nat (u64 T_begin div int BT_size);
          off = nat (u64 T_begin mod int BT_size)
      in if 2147483647 < off + length bs then Inl Undef
         else if BT_size < off + length bs
         then (let lhs_len = BT_size - off
               in rbind (block_write block_index off (take lhs_len bs) blocks)
                    (block_write (block_index + 1) 0 (drop lhs_len bs)))
         else block_write block_index off bs blocks)"

fun piece_data :: "int \<Rightarrow> byte list list \<Rightarrow> byte list" where
  "piece_data sha1_len [] = []"
| "piece_data sha1_len (b # bs) =
     (if 0 < sha1_len
      then (if int BT_size < sha1_len then take BT_size b else take (nat sha1_len) b) @ piece_data (sha1_len - int BT_size) bs
      else [])"

text \<open>The macro \<open>MEMORYPOOL_DEAL\<close>, in the order of its steps: new memory, the slice, the complete piece.\<close>

definition enter_block :: "alloc \<Rightarrow> int \<Rightarrow> int \<Rightarrow> bit_memory \<Rightarrow> bit_memory res" where
  "enter_block alloc T_LEN T_index bm =
     (case tfind (bm_pool bm) T_index of Some _ \<Rightarrow> Inr bm
      | None \<Rightarrow> rbind (new_blocks alloc 0 T_LEN) (\<lambda>bs.
          Inr (bm\<lparr>bm_pool := templace T_index \<lparr>mb_cur_len = T_LEN, mb_data = bs\<rparr> (bm_pool bm)\<rparr>)))"

definition finish_piece :: "disk \<Rightarrow> torrent \<Rightarrow> int \<Rightarrow> int \<Rightarrow> byte list list \<Rightarrow> bit_memory
    \<Rightarrow> (bool \<times> bool \<times> written list \<times> bit_memory) res" where
  "finish_piece dk t T_LEN T_index write_buf bm =
     (let sha1_data = (if T_LEN \<le> int BT_size then take (nat T_LEN) (write_buf ! 0) else piece_data T_LEN write_buf)
      in rbind (Sha1 sha1_data) (\<lambda>hash_data.
         rbind (GetHash t T_index) (\<lambda>hash.
           if hash_data \<noteq> bytes_of hash then Inr (False, False, [], BM_ClearIndex T_index T_LEN bm)
           else rbind (BM_WriteFile dk t T_index bm) (\<lambda>(n, log).
             if n = T_LEN then Inr (True, True, log, BM_ClearIndex T_index 0 bm)
             else Inr (False, False, log, BM_ClearIndex T_index T_LEN bm)))))"

definition deal :: "alloc \<Rightarrow> disk \<Rightarrow> torrent \<Rightarrow> int \<Rightarrow> int \<Rightarrow> int \<Rightarrow> byte list \<Rightarrow> bit_memory
    \<Rightarrow> (bool \<times> bool \<times> written list \<times> bit_memory) res" where
  "deal alloc dk t T_LEN T_index T_begin bs bm =
     rbind (enter_block alloc T_LEN T_index bm) (\<lambda>bm.
       case tfind (bm_pool bm) T_index of None \<Rightarrow> Inl Undef
       | Some block \<Rightarrow>
           if mb_cur_len block < int (length bs) then Inr (False, False, [], BM_ClearIndex T_index T_LEN bm)
           else rbind (store_slice T_begin bs (mb_data block)) (\<lambda>write_buf.
             let cur_len = mb_cur_len block - int (length bs);
                 bm = bm\<lparr>bm_pool := tadjust T_index (\<lambda>_. \<lparr>mb_cur_len = cur_len, mb_data = write_buf\<rparr>) (bm_pool bm)\<rparr>
             in if 0 = cur_len then finish_piece dk t T_LEN T_index write_buf bm
                else if cur_len < 0 then Inr (False, False, [], BM_ClearIndex T_index T_LEN bm)
                else Inr (True, False, [], bm)))"

definition BM_Write :: "alloc \<Rightarrow> disk \<Rightarrow> torrent \<Rightarrow> int \<Rightarrow> int \<Rightarrow> byte list option \<Rightarrow> int \<Rightarrow> bit_memory
    \<Rightarrow> (bool \<times> bool \<times> written list \<times> bit_memory) res" where
  "BM_Write alloc dk t T_index T_begin T_buf T_length bm =
     (if T_index < 0 then Inr (False, False, [], bm)
      else (case T_buf of None \<Rightarrow> Inr (False, False, [], bm)
        | Some buf \<Rightarrow>
            if T_length \<le> 0 then Inr (False, False, [], bm)
            else if int (length buf) < T_length then Inl Undef
            else deal alloc dk t (if bm_index_end bm = T_index then bm_length_end bm else bm_length_normal bm)
                   T_index T_begin (take (nat T_length) buf) bm))"

section \<open>Lemmas: the blocks as one buffer\<close>

definition full_blocks :: "byte list list \<Rightarrow> bool" where
  "full_blocks bs \<longleftrightarrow> (\<forall>b \<in> set bs. length b = BT_size)"

lemma full_blocks_Cons [simp]: "full_blocks (b # bs) \<longleftrightarrow> length b = BT_size \<and> full_blocks bs"
  by (simp add: full_blocks_def)

lemma length_concat_full: "full_blocks bs \<Longrightarrow> length (concat bs) = BT_size * length bs"
  by (induction bs) (auto simp: full_blocks_def)

lemma put_at_0 [simp]: "put_at 0 bs d = bs @ drop (length bs) d"
  by (simp add: put_at_def)

lemma put_at_left: "i + length bs \<le> length a \<Longrightarrow> put_at i bs (a @ b) = put_at i bs a @ b"
  by (simp add: put_at_def)

lemma put_at_right: "put_at (length a + i) bs (a @ b) = a @ put_at i bs b"
  by (simp add: put_at_def add.assoc)

lemma concat_block_write:
  assumes "full_blocks blocks" and "k < length blocks" and "off + length bs \<le> BT_size"
  shows "concat (blocks [k := put_at off bs (blocks ! k)]) = put_at (BT_size * k + off) bs (concat blocks)"
    and "full_blocks (blocks [k := put_at off bs (blocks ! k)])"
proof -
  show "concat (blocks [k := put_at off bs (blocks ! k)]) = put_at (BT_size * k + off) bs (concat blocks)"
    using assms
  proof (induction blocks arbitrary: k)
    case (Cons b blocks)
    show ?case
    proof (cases k)
      case 0
      then show ?thesis using Cons.prems put_at_left [of off bs b "concat blocks"] by simp
    next
      case (Suc j)
      have "BT_size * k + off = length b + (BT_size * j + off)" using Cons.prems(1) Suc by simp
      then show ?thesis
        using Cons put_at_right [of b "BT_size * j + off" bs "concat blocks"] Suc by (simp add: add.assoc)
    qed
  qed simp
  have "blocks ! k \<in> set blocks" using assms(2) by simp
  then show "full_blocks (blocks [k := put_at off bs (blocks ! k)])"
    using assms set_update_subset_insert [of blocks k "put_at off bs (blocks ! k)"]
    by (auto simp: full_blocks_def)
qed

lemma piece_data_take: "full_blocks bs \<Longrightarrow> piece_data n bs = take (nat n) (concat bs)"
proof (induction n bs rule: piece_data.induct)
  case (2 n b bs)
  have "nat (n - int BT_size) = nat n - BT_size" by simp
  then show ?case using 2 by auto
qed simp

text \<open>The slice grid: 32 slices to a block, so that no slice lies in two.\<close>

lemma grid: "nat (u64 (16384 * int k) div int BT_size) = k div 32"
  "nat (u64 (16384 * int k) mod int BT_size) = 16384 * (k mod 32)" if "k < 131072"
proof -
  have "u64 (16384 * int k) = int (16384 * k)" using that by (simp add: u64_id)
  moreover have "16384 * k div BT_size = k div 32"
    using div_mult_mult1 [of "16384::nat" k 32] by (simp add: BT_size_def)
  moreover have "16384 * k mod BT_size = 16384 * (k mod 32)"
    using mult_mod_right [of 16384 k 32] by (simp add: BT_size_def)
  ultimately show "nat (u64 (16384 * int k) div int BT_size) = k div 32"
    "nat (u64 (16384 * int k) mod int BT_size) = 16384 * (k mod 32)"
    by (simp_all only: zdiv_int [symmetric] zmod_int [symmetric] nat_int)
qed

lemma store_slice_grid:
  assumes "full_blocks blocks" and "length bs \<le> 16384" and "k < 32 * length blocks" and "k < 131072"
  shows "\<exists>blocks'. store_slice (16384 * int k) bs blocks = Inr blocks' \<and> full_blocks blocks'
    \<and> length blocks' = length blocks \<and> concat blocks' = put_at (16384 * k) bs (concat blocks)"
proof -
  have q: "k div 32 < length blocks" using assms(3) by (simp add: less_mult_imp_div_less mult.commute)
  have "k mod 32 \<le> 31" by (simp add: less_Suc_eq_le [symmetric])
  then have off: "16384 * (k mod 32) + length bs \<le> BT_size" using assms(2) by (simp add: BT_size_def)
  have "blocks ! (k div 32) \<in> set blocks" using q by simp
  then have b: "length (blocks ! (k div 32)) = BT_size" using assms(1) by (simp add: full_blocks_def)
  have k: "BT_size * (k div 32) + 16384 * (k mod 32) = 16384 * k"
  proof -
    have "k = 32 * (k div 32) + k mod 32" by simp
    then show ?thesis unfolding BT_size_def by linarith
  qed
  have "store_slice (16384 * int k) bs blocks
      = Inr (blocks [k div 32 := put_at (16384 * (k mod 32)) bs (blocks ! (k div 32))])"
    using q off b by (simp add: store_slice_def grid [OF assms(4)] Let_def block_write_def) (simp add: BT_size_def)
  then show ?thesis using concat_block_write [OF assms(1) q off] by (simp add: k)
qed

lemma new_blocks_total:
  assumes "\<And>k. \<exists>b. alloc k = Some b \<and> length b = BT_size"
  shows "\<exists>bs. new_blocks alloc k n = Inr bs \<and> full_blocks bs \<and> n \<le> int (BT_size * length bs)
    \<and> (0 < n \<longrightarrow> int (BT_size * length bs) < n + int BT_size)"
  using assms
proof (induction alloc k n rule: new_blocks.induct)
  case (1 a k n)
  show ?case
  proof (cases "0 < n")
    case True
    obtain b where b: "a k = Some b" "length b = BT_size" using 1(2) by blast
    obtain bs where "new_blocks a (Suc k) (n - int BT_size) = Inr bs" "full_blocks bs"
      "n - int BT_size \<le> int (BT_size * length bs)"
      "0 < n - int BT_size \<longrightarrow> int (BT_size * length bs) < n - int BT_size + int BT_size"
      using 1(1) [OF True b(1) 1(2)] by blast
    moreover have "bs = []" if "n - int BT_size \<le> 0"
      using that calculation(1) by (simp add: new_blocks.simps [of _ "Suc k"])
    ultimately show ?thesis
      using True b by (cases "0 < n - int BT_size") (simp_all add: new_blocks.simps [of a k] distrib_left)
  qed (simp add: new_blocks.simps full_blocks_def)
qed

section \<open>Lemmas: receiving the slices of a piece\<close>

definition piece_slice :: "byte list \<Rightarrow> nat \<Rightarrow> byte list" where
  "piece_slice C k = take 16384 (drop (16384 * k) C)"

text \<open>\<open>flat\<close> holds the slices \<open>S\<close> of the piece \<open>C\<close>.\<close>

definition holds :: "byte list \<Rightarrow> nat set \<Rightarrow> byte list \<Rightarrow> bool" where
  "holds C S flat \<longleftrightarrow> length C \<le> length flat \<and> (\<forall>j < length C. j div 16384 \<in> S \<longrightarrow> flat ! j = C ! j)"

lemma nth_put_at:
  "i + length bs \<le> length d \<Longrightarrow> j < length d \<Longrightarrow>
    put_at i bs d ! j = (if i \<le> j \<and> j < i + length bs then bs ! (j - i) else d ! j)"
  by (auto simp: put_at_def nth_append)

lemma length_piece_slice: "length (piece_slice C k) = min 16384 (length C - 16384 * k)"
  by (simp add: piece_slice_def)

lemma holds_put:
  assumes "holds C S flat" and "16384 * k < length C"
  shows "holds C (insert k S) (put_at (16384 * k) (piece_slice C k) flat)"
proof -
  have le: "16384 * k + length (piece_slice C k) \<le> length C" using assms(2) by (simp add: length_piece_slice)
  have "put_at (16384 * k) (piece_slice C k) flat ! j = C ! j" if j: "j < length C" "j div 16384 \<in> insert k S" for j
  proof (cases "16384 * k \<le> j \<and> j < 16384 * k + length (piece_slice C k)")
    case True
    then have "j - 16384 * k < 16384" "16384 * k \<le> length C" "16384 * k \<le> j"
      using j(1) by (auto simp: length_piece_slice)
    then have "piece_slice C k ! (j - 16384 * k) = C ! j" by (simp add: piece_slice_def)
    then show ?thesis using True le j assms(1) by (simp add: nth_put_at holds_def)
  next
    case False
    have "j div 16384 \<noteq> k"
    proof
      assume "j div 16384 = k"
      then have "16384 * k \<le> j" "j < 16384 * k + 16384" by auto
      then show False using False j(1) by (auto simp: length_piece_slice)
    qed
    then show ?thesis using False le j assms(1) by (auto simp: nth_put_at holds_def)
  qed
  then show ?thesis using assms(1) le by (simp add: holds_def)
qed

lemma holds_all:
  assumes "holds C {..<n} flat" and "length C \<le> 16384 * n"
  shows "take (length C) flat = C"
proof (rule nth_equalityI)
  show "length (take (length C) flat) = length C" using assms(1) by (simp add: holds_def)
next
  fix j assume "j < length (take (length C) flat)"
  then have j: "j < length C" by simp
  then have "j div 16384 < n" using assms(2) by (simp add: div_less_iff_less_mult mult.commute)
  then show "take (length C) flat ! j = C ! j" using assms(1) j by (simp add: holds_def)
qed

lemma sum_slices:
  assumes "length C \<le> 16384 * n" and "16384 * n < length C + 16384"
  shows "(\<Sum>k<n. length (piece_slice C k)) = length C"
proof (cases n)
  case 0
  then show ?thesis using assms by simp
next
  case (Suc m)
  have "(\<Sum>k<m. length (piece_slice C k)) = (\<Sum>k<m. 16384)"
    using assms(2) Suc by (intro sum.cong) (auto simp: length_piece_slice)
  then show ?thesis using assms Suc by (simp add: length_piece_slice)
qed

text \<open>The handling of the slices \<open>ks\<close> of piece \<open>i\<close>, one \<open>BM_Write\<close> each; the results of the calls are listed.\<close>

fun write_slices :: "alloc \<Rightarrow> disk \<Rightarrow> torrent \<Rightarrow> int \<Rightarrow> byte list \<Rightarrow> nat list \<Rightarrow> bit_memory
    \<Rightarrow> ((bool \<times> bool) list \<times> written list \<times> bit_memory) res" where
  "write_slices alloc dk t i C [] bm = Inr ([], [], bm)"
| "write_slices alloc dk t i C (k # ks) bm =
     rbind (BM_Write alloc dk t i (16384 * int k) (Some (piece_slice C k)) (int (length (piece_slice C k))) bm) (\<lambda>(r, c, log, bm).
     rbind (write_slices alloc dk t i C ks bm) (\<lambda>(rs, log', bm). Inr ((r, c) # rs, log @ log', bm)))"

definition piece_len :: "bit_memory \<Rightarrow> int \<Rightarrow> int" where
  "piece_len bm i = (if bm_index_end bm = i then bm_length_end bm else bm_length_normal bm)"

definition received :: "byte list \<Rightarrow> nat set \<Rightarrow> nat" where
  "received C S = (\<Sum>k\<in>S. length (piece_slice C k))"

text \<open>The entry of piece \<open>i\<close> while the slices \<open>S\<close> of \<open>C\<close> have arrived.\<close>

definition collecting :: "int \<Rightarrow> byte list \<Rightarrow> nat set \<Rightarrow> bit_memory \<Rightarrow> bool" where
  "collecting i C S bm \<longleftrightarrow> (\<exists>blocks. tfind (bm_pool bm) i
        = Some \<lparr>mb_cur_len = int (length C) - int (received C S), mb_data = blocks\<rparr>
      \<and> full_blocks blocks \<and> holds C S (concat blocks))"

definition good_alloc :: "alloc \<Rightarrow> bool" where
  "good_alloc alloc \<longleftrightarrow> (\<forall>k. \<exists>b. alloc k = Some b \<and> length b = BT_size)"

lemma enter_fresh:
  assumes "good_alloc alloc" and "tfind (bm_pool bm) i = None"
  shows "\<exists>bm'. enter_block alloc (int (length C)) i bm = Inr bm' \<and> collecting i C {} bm'
    \<and> piece_len bm' i = piece_len bm i"
proof -
  obtain bs where bs: "new_blocks alloc 0 (int (length C)) = Inr bs" "full_blocks bs"
    "int (length C) \<le> int (BT_size * length bs)"
    using new_blocks_total [of alloc 0 "int (length C)"] assms(1) by (auto simp: good_alloc_def)
  then have "length C \<le> BT_size * length bs" by (simp only: of_nat_le_iff)
  then have "holds C {} (concat bs)" using bs(2) by (simp add: holds_def length_concat_full)
  then show ?thesis using assms(2) bs by (simp add: enter_block_def collecting_def received_def piece_len_def)
qed

lemma enter_there: "collecting i C S bm \<Longrightarrow> enter_block alloc l i bm = Inr bm"
  by (auto simp: collecting_def enter_block_def)

lemma deal_slice:
  assumes "collecting i C S bm" and "finite S" and "k \<notin> S" and "16384 * k < length C"
    and "int (received C (insert k S)) \<le> int (length C)" and "length C < 2147483648"
    and "l = int (length C)"
  shows "\<exists>blocks bm'. collecting i C (insert k S) bm' \<and> tfind (bm_pool bm') i
        = Some \<lparr>mb_cur_len = l - int (received C (insert k S)), mb_data = blocks\<rparr>
      \<and> full_blocks blocks \<and> holds C (insert k S) (concat blocks) \<and> piece_len bm' i = piece_len bm i
      \<and> deal alloc dk t l i (16384 * int k) (piece_slice C k) bm
        = (if l = int (received C (insert k S)) then finish_piece dk t l i blocks bm' else Inr (True, False, [], bm'))"
proof -
  obtain blocks where b: "tfind (bm_pool bm) i
        = Some \<lparr>mb_cur_len = int (length C) - int (received C S), mb_data = blocks\<rparr>"
      "full_blocks blocks" "holds C S (concat blocks)"
    using assms(1) by (auto simp: collecting_def)
  have len: "length (piece_slice C k) \<le> 16384" by (simp add: length_piece_slice)
  have rc: "received C (insert k S) = received C S + length (piece_slice C k)"
    using assms(2,3) by (simp add: received_def)
  have "length C \<le> BT_size * length blocks"
    using b(2,3) by (simp add: holds_def length_concat_full)
  then have "16384 * k < 16384 * (32 * length blocks)" using assms(4) unfolding BT_size_def by linarith
  moreover have "k < 131072" using assms(4,6) by simp
  ultimately obtain blocks' where st: "store_slice (16384 * int k) (piece_slice C k) blocks = Inr blocks'"
    "full_blocks blocks'" "concat blocks' = put_at (16384 * k) (piece_slice C k) (concat blocks)"
    using store_slice_grid [OF b(2) len, of k] by auto
  let ?bm = "bm\<lparr>bm_pool := tadjust i (\<lambda>_. \<lparr>mb_cur_len = l - int (received C (insert k S)), mb_data = blocks'\<rparr>) (bm_pool bm)\<rparr>"
  have h: "holds C (insert k S) (concat blocks')" using holds_put [OF b(3) assms(4)] st(3) by simp
  have e: "tfind (bm_pool ?bm) i = Some \<lparr>mb_cur_len = l - int (received C (insert k S)), mb_data = blocks'\<rparr>"
    using b(1) by simp
  have "deal alloc dk t l i (16384 * int k) (piece_slice C k) bm
      = (if l = int (received C (insert k S)) then finish_piece dk t l i blocks' ?bm else Inr (True, False, [], ?bm))"
    using b(1) st(1) rc assms(5,7) by (simp add: deal_def enter_there [OF assms(1)] Let_def algebra_simps)
  moreover have "collecting i C (insert k S) ?bm"
    using e st(2) h assms(7) by (auto simp: collecting_def)
  moreover have "piece_len ?bm i = piece_len bm i" by (simp add: piece_len_def)
  ultimately show ?thesis using e st(2) h by blast
qed

lemma BM_Write_deal:
  assumes "0 \<le> i" and "16384 * k < length C" and "piece_len bm i = l"
  shows "BM_Write alloc dk t i (16384 * int k) (Some (piece_slice C k)) (int (length (piece_slice C k))) bm
    = deal alloc dk t l i (16384 * int k) (piece_slice C k) bm"
proof -
  have "0 < length (piece_slice C k)" using assms(2) by (simp add: length_piece_slice)
  then show ?thesis using assms(1,3) by (simp add: BM_Write_def piece_len_def)
qed

lemma deal_fresh:
  assumes "enter_block alloc l i bm = Inr bm'" and "collecting i C S bm'"
  shows "deal alloc dk t l i b bs bm = deal alloc dk t l i b bs bm'"
  using assms by (simp add: deal_def enter_there)

section \<open>Lemmas: the complete piece\<close>

text \<open>The piece lies in one file; a write that the disk takes in full.\<close>

definition good_disk :: "disk \<Rightarrow> string \<Rightarrow> bool" where
  "good_disk dk name \<longleftrightarrow> dk_opens dk name \<and> (\<forall>off bs. dk_write dk name off bs = int (length bs))"

definition piece_log :: "string \<Rightarrow> int \<Rightarrow> byte list \<Rightarrow> written list" where
  "piece_log name off C = (if length C \<le> BT_size then [(name, off, C)]
     else [(name, off, take BT_size C), (name, off + int BT_size, drop BT_size C)])"

lemma take_concat: "length b = n \<Longrightarrow> take m (concat (b # bs)) = (if m \<le> n then take m b else b @ take (m - n) (concat bs))"
  by simp

lemma BM_WriteFile_single:
  assumes "good_disk dk name" and "GetFileName_piece t i = [(name, off, int (length C))]"
    and "tfind (bm_pool bm) i = Some \<lparr>mb_cur_len = c, mb_data = blocks\<rparr>" and "full_blocks blocks"
    and "take (length C) (concat blocks) = C" and "0 < length C" and "length C \<le> 2 * BT_size"
  shows "BM_WriteFile dk t i bm = Inr (int (length C), piece_log name off C)"
proof -
  have "blocks \<noteq> []" using assms(5,6) by auto
  then obtain b bs where b: "blocks = b # bs" by (cases blocks) auto
  then have lb: "length b = BT_size" "full_blocks bs" using assms(4) by simp_all
  show ?thesis
  proof (cases "length C \<le> BT_size")
    case True
    then have "take (length C) b = C" using assms(5) lb b by simp
    then show ?thesis
      using assms True lb by (simp add: BM_WriteFile_def b block_read_def good_disk_def piece_log_def)
  next
    case False
    then have C: "C = b @ take (length C - BT_size) (concat bs)" using assms(5) lb b by simp
    then have "bs \<noteq> []" using False lb by (metis append_Nil2 concat.simps(1) order_refl take_Nil)
    then obtain b2 bs2 where b2: "bs = b2 # bs2" by (cases bs) auto
    then have lb2: "length b2 = BT_size" using lb(2) by simp
    have "take (length C - BT_size) (concat bs) = take (length C - BT_size) b2"
      using assms(7) lb2 by (simp add: b2)
    then have p: "take BT_size C = b" "drop BT_size C = take (length C - BT_size) b2"
      using C lb by (metis append_eq_conv_conj)+
    have n: "nat (int (length C) - int BT_size) = length C - BT_size" using False by simp
    show ?thesis
      using assms False lb lb2 p by (simp add: BM_WriteFile_def b b2 block_read_def good_disk_def piece_log_def n)
  qed
qed

lemma BM_WriteFile_overrun:
  assumes "good_disk dk name" and "GetFileName_piece t i = [(name, off, l)]" and "2 * int BT_size < l"
    and "tfind (bm_pool bm) i = Some \<lparr>mb_cur_len = c, mb_data = b # b2 # bs\<rparr>" and "full_blocks (b # b2 # bs)"
  shows "BM_WriteFile dk t i bm = Inl Undef"
  using assms by (simp add: BM_WriteFile_def good_disk_def block_read_def)

lemma finish_good:
  assumes "full_blocks blocks" and "take (length C) (concat blocks) = C" and "0 < length C"
    and "length C < 2147483648" and "GetHash t i = Inr h" and "bytes_of h = fips_sha1 C"
  shows "finish_piece dk t (int (length C)) i blocks bm =
    rbind (BM_WriteFile dk t i bm) (\<lambda>(n, log).
      if n = int (length C) then Inr (True, True, log, BM_ClearIndex i 0 bm)
      else Inr (False, False, log, BM_ClearIndex i (int (length C)) bm))"
proof -
  have "blocks \<noteq> []" using assms(2,3) by auto
  then obtain b bs where b: "blocks = b # bs" by (cases blocks) auto
  then have "length b = BT_size" using assms(1) by simp
  then have "(if int (length C) \<le> int BT_size then take (nat (int (length C))) (blocks ! 0)
      else piece_data (int (length C)) blocks) = C"
    using assms(1,2) by (cases "length C \<le> BT_size") (simp_all add: piece_data_take b nat_diff_distrib)
  moreover have "Sha1 C = Inr (fips_sha1 C)" using assms(4) by (intro sha1_eq) simp
  ultimately show ?thesis using assms(5,6) by (simp add: finish_piece_def Let_def)
qed

lemma write_slice:
  assumes "collecting i C S bm \<or> S = {} \<and> tfind (bm_pool bm) i = None" and "good_alloc alloc"
    and "piece_len bm i = int (length C)" and "0 \<le> i" and "finite S" and "k \<notin> S" and "16384 * k < length C"
    and "received C (insert k S) \<le> length C" and "length C < 2147483648"
  shows "\<exists>blocks bm'. collecting i C (insert k S) bm' \<and> tfind (bm_pool bm') i
        = Some \<lparr>mb_cur_len = int (length C) - int (received C (insert k S)), mb_data = blocks\<rparr>
      \<and> full_blocks blocks \<and> holds C (insert k S) (concat blocks) \<and> piece_len bm' i = int (length C)
      \<and> BM_Write alloc dk t i (16384 * int k) (Some (piece_slice C k)) (int (length (piece_slice C k))) bm
        = (if length C = received C (insert k S) then finish_piece dk t (int (length C)) i blocks bm'
           else Inr (True, False, [], bm'))"
proof -
  obtain bm0 where bm0: "enter_block alloc (int (length C)) i bm = Inr bm0" "collecting i C S bm0"
    "piece_len bm0 i = int (length C)"
    using assms(1,3) enter_there enter_fresh [OF assms(2), of bm i C] by metis
  have "deal alloc dk t (int (length C)) i (16384 * int k) (piece_slice C k) bm
      = deal alloc dk t (int (length C)) i (16384 * int k) (piece_slice C k) bm0"
    by (rule deal_fresh [OF bm0(1,2)])
  then show ?thesis
    using deal_slice [OF bm0(2) assms(5-7) _ assms(9) refl, of alloc dk t] assms(8) bm0(3)
      BM_Write_deal [OF assms(4,7,3), of alloc dk t] by simp
qed

lemma received_partial:
  assumes "length C \<le> 16384 * n" and "16384 * n < length C + 16384" and "S \<subseteq> {..<n}"
  shows "received C S \<le> length C" and "received C S = length C \<longleftrightarrow> S = {..<n}"
proof -
  have all: "received C {..<n} = length C" using sum_slices [OF assms(1,2)] by (simp add: received_def)
  have pos: "0 < length (piece_slice C k)" if "k < n" for k
    using that assms(2) by (simp add: length_piece_slice)
  show "received C S \<le> length C"
    using sum_mono2 [OF finite_lessThan assms(3), of "\<lambda>k. length (piece_slice C k)"] all by (simp add: received_def)
  have "received C S < received C {..<n}" if ne: "S \<noteq> {..<n}"
  proof -
    obtain k where k: "k \<in> {..<n} - S" using ne assms(3) by blast
    then show ?thesis
      unfolding received_def using pos by (intro sum_strict_mono2 [OF finite_lessThan assms(3) k]) auto
  qed
  then show "received C S = length C \<longleftrightarrow> S = {..<n}" using all by (metis less_irrefl)
qed

lemma write_rest:
  assumes "good_alloc alloc" and "good_disk dk name" and "GetFileName_piece t i = [(name, off, int (length C))]"
    and "0 \<le> i" and "0 < length C" and "length C \<le> 2 * BT_size" and "GetHash t i = Inr h" and "bytes_of h = fips_sha1 C"
    and "length C \<le> 16384 * n" and "16384 * n < length C + 16384"
  shows "collecting i C S bm \<or> S = {} \<and> tfind (bm_pool bm) i = None \<Longrightarrow> piece_len bm i = int (length C) \<Longrightarrow>
    finite S \<Longrightarrow> S \<inter> set ks = {} \<Longrightarrow> S \<union> set ks = {..<n} \<Longrightarrow> distinct ks \<Longrightarrow> ks \<noteq> [] \<Longrightarrow>
    \<exists>bm'. write_slices alloc dk t i C ks bm =
        Inr (replicate (length ks - 1) (True, False) @ [(True, True)], piece_log name off C, bm')
      \<and> tfind (bm_pool bm') i = Some \<lparr>mb_cur_len = 0, mb_data = []\<rparr>"
proof (induction ks arbitrary: S bm)
  case Nil
  then show ?case by simp
next
  case (Cons k ks)
  have k: "k < n" "k \<notin> S" "insert k S \<subseteq> {..<n}" using Cons.prems(4,5) by auto
  have kC: "16384 * k < length C" using k(1) assms(10) by simp
  have small: "length C < 2147483648" using assms(6) by (simp add: BT_size_def)
  note rp = received_partial [OF assms(9,10) k(3)]
  obtain blocks bm1 where b: "collecting i C (insert k S) bm1" "tfind (bm_pool bm1) i
        = Some \<lparr>mb_cur_len = int (length C) - int (received C (insert k S)), mb_data = blocks\<rparr>"
      "full_blocks blocks" "holds C (insert k S) (concat blocks)" "piece_len bm1 i = int (length C)"
      "BM_Write alloc dk t i (16384 * int k) (Some (piece_slice C k)) (int (length (piece_slice C k))) bm
        = (if length C = received C (insert k S) then finish_piece dk t (int (length C)) i blocks bm1
           else Inr (True, False, [], bm1))"
    using write_slice [OF Cons.prems(1) assms(1) Cons.prems(2) assms(4) Cons.prems(3) k(2) kC rp(1) small, of dk t] by blast
  show ?case
  proof (cases "ks = []")
    case True
    then have S: "insert k S = {..<n}" using Cons.prems(5) by simp
    have rec: "received C {..<n} = length C" using rp(2) S by simp
    have C: "take (length C) (concat blocks) = C" using b(4) S by (intro holds_all [OF _ assms(9)]) simp
    have "BM_WriteFile dk t i bm1 = Inr (int (length C), piece_log name off C)"
      by (rule BM_WriteFile_single [OF assms(2,3) b(2,3) C assms(5,6)])
    then have "BM_Write alloc dk t i (16384 * int k) (Some (piece_slice C k)) (int (length (piece_slice C k))) bm
        = Inr (True, True, piece_log name off C, BM_ClearIndex i 0 bm1)"
      using b(6) S rec by (simp add: finish_good [OF b(3) C assms(5) small assms(7,8)])
    moreover have "tfind (bm_pool (BM_ClearIndex i 0 bm1)) i = Some \<lparr>mb_cur_len = 0, mb_data = []\<rparr>"
      using b(2) S rec by (simp add: BM_ClearIndex_def)
    ultimately show ?thesis using True by simp
  next
    case False
    have "insert k S \<inter> set ks = {}" "insert k S \<union> set ks = {..<n}" "distinct ks"
      using Cons.prems(4-6) by auto
    then obtain bm' where bm': "write_slices alloc dk t i C ks bm1 =
        Inr (replicate (length ks - 1) (True, False) @ [(True, True)], piece_log name off C, bm')"
      "tfind (bm_pool bm') i = Some \<lparr>mb_cur_len = 0, mb_data = []\<rparr>"
      using Cons.IH [of "insert k S" bm1] b(1,5) Cons.prems(3) False by auto
    have "length C \<noteq> received C (insert k S)"
    proof
      assume "length C = received C (insert k S)"
      then have eq: "insert k S = {..<n}" using rp(2) by metis
      obtain j where j: "j \<in> set ks" using False by (cases ks) auto
      then have "j \<in> insert k S" using Cons.prems(5) eq by (metis UnI2 list.set_intros(2))
      then show False using j Cons.prems(4,6) by auto
    qed
    then have "BM_Write alloc dk t i (16384 * int k) (Some (piece_slice C k)) (int (length (piece_slice C k))) bm
        = Inr (True, False, [], bm1)"
      using b(6) by (simp only: if_False)
    moreover obtain m where "length ks = Suc m" using False by (cases ks) auto
    ultimately show ?thesis using bm' by simp
  qed
qed

lemma i32_diff_u64_right: "i32 (u64 (x - u64 y)) = i32 (x - y)"
  unfolding i32_u64 by (rule i32_cong) (metis u64_mod_eq mod_diff_right_eq)

lemma GetIndexEndLength_wf: "wf_torrent t \<Longrightarrow> GetIndexEndLength t = end_length t"
proof -
  assume w: "wf_torrent t"
  have "u64 (GetFileTotal t) = GetFileTotal t"
  proof (rule u64_id)
    have "0 \<le> (pieces_num t - 1) * tf_piece_length t"
      using w unfolding wf_torrent_def by (intro mult_nonneg_nonneg) linarith+
    then show "0 \<le> GetFileTotal t" using w unfolding wf_torrent_def by linarith
    show "GetFileTotal t < 18446744073709551616" using w by (simp add: wf_torrent_def)
  qed
  then have "(if tf_single t then u64 (tf_length t) else sum_lengths 0 (tf_files t)) = GetFileTotal t"
    by (simp add: GetFileTotal_def split: if_splits)
  moreover have "i32 (GetFileTotal t - GetIndexEnd t * tf_piece_length t) = end_length t"
    using end_length_bounds [OF w] by (simp add: GetIndexEnd_wf [OF w] i32_id flip: end_length_def)
  ultimately show ?thesis by (simp add: GetIndexEndLength_def i32_diff_u64_right)
qed

lemma init_piece_len:
  assumes "wf_torrent t" and "BM_Init (GetIndexEnd t) (GetIndexEndLength t) (GetIndexNormalLength t) bm0 = Inr bm"
    and "0 \<le> i"
  shows "piece_len bm i = GetPieceLength t i"
proof -
  have "GetIndexNormalLength t = tf_piece_length t"
    using assms(1) by (simp add: GetIndexNormalLength_def wf_torrent_def i32_id)
  moreover have "bm = bm0\<lparr>bm_index_end := GetIndexEnd t, bm_length_end := GetIndexEndLength t,
      bm_length_normal := GetIndexNormalLength t\<rparr>"
    using assms(2) by (auto simp: BM_Init_def split: if_splits)
  ultimately show ?thesis
    using assms(1,3) by (auto simp: piece_len_def GetIndexEnd_wf GetIndexEndLength_wf GetPieceLength_wf)
qed

lemma slices_complete:
  assumes "wf_torrent t" and "tf_single t" and "GetFileTotal t < 2147483648" and "pieces_num t \<le> 107374182"
    and "BM_Init (GetIndexEnd t) (GetIndexEndLength t) (GetIndexNormalLength t) bm0 = Inr bm"
    and "0 \<le> i" and "i < pieces_num t" and "tfind (bm_pool bm) i = None"
    and "good_alloc alloc" and "good_disk dk (tf_name t)"
    and "int (length C) = GetPieceLength t i" and "length C \<le> 2 * BT_size"
    and "bytes_of (take 20 (drop (nat (i * 20)) (tf_pieces t))) = fips_sha1 C"
    and "distinct ks" and "set ks = {..<nat (GetPieceBit t i)}"
  shows "\<exists>bm'. write_slices alloc dk t i C ks bm =
      Inr (replicate (length ks - 1) (True, False) @ [(True, True)],
           piece_log (tf_name t) (i * tf_piece_length t) C, bm')
    \<and> tfind (bm_pool bm') i = Some \<lparr>mb_cur_len = 0, mb_data = []\<rparr>"
proof -
  note p = piece_place [OF assms(1-3,6,7)]
  define n where "n = nat (GetPieceBit t i)"
  have "GetPieceBit t i = (int (length C) + 16383) div 16384"
    using p(3) by (simp add: GetPieceBit_wf assms(11))
  then have n: "length C \<le> 16384 * n" "16384 * n < length C + 16384" "0 < n"
    using p(3) assms(11) unfolding n_def by linarith+
  have ks: "set ks = {..<n}" using assms(15) by (simp only: n_def)
  have fl: "GetFileName_piece t i = [(tf_name t, i * tf_piece_length t, int (length C))]"
    using p(1) assms(11) by (simp only:)
  have pl: "piece_len bm i = int (length C)" using init_piece_len [OF assms(1,5,6)] assms(11) by (simp only:)
  have C: "0 < length C" using p(3) assms(11) by linarith
  show ?thesis
  proof (rule write_rest [OF assms(9,10) fl assms(6) C assms(12) GetHash_wf [OF assms(1,4,6,7)] assms(13) n(1,2), of "{}"])
    show "collecting i C {} bm \<or> {} = {} \<and> tfind (bm_pool bm) i = None" using assms(8) by blast
    show "{} \<union> set ks = {..<n}" using ks by simp
    then show "ks \<noteq> []" using n(3) by (cases ks) auto
    show "piece_len bm i = int (length C)" by (rule pl)
    show "distinct ks" by (rule assms(14))
  qed simp_all
qed

section \<open>Properties\<close>


text \<open>A torrent of one piece of 20000 bytes, all 7, received in the order 1, 0.\<close>

definition one_piece :: torrent where
  "one_piece = new_torrent\<lparr>tf_pieces := map (\<lambda>b. char_of (unat b)) (fips_sha1 (replicate 20000 7)), tf_name := ''f'',
     tf_length := 20000, tf_piece_length := 32768\<rparr>"

definition blank_alloc :: alloc where
  "blank_alloc k = Some (replicate BT_size 0)"

definition all_disk :: disk where
  "all_disk = \<lparr>dk_opens = (\<lambda>_. True), dk_write = (\<lambda>_ _ bs. int (length bs))\<rparr>"

lemma one_piece_wf: "wf_torrent one_piece" "pieces_num one_piece = 1"
  by (simp_all add: one_piece_def wf_torrent_def pieces_num_def pieces_size_def GetFileTotal_def new_torrent_def)

lemma bytes_of_char: "bytes_of (map (\<lambda>b. char_of (unat b)) bs) = bs"
proof -
  have "(of_char (char_of (unat b)) :: byte) = b" for b :: byte
  proof -
    have "(of_char (char_of (unat b)) :: byte) = word_of_nat (of_char (char_of (unat b)))"
      by (simp only: of_nat_of_char)
    also have "\<dots> = b" using unsigned_less [of b, where 'a = nat] by (simp add: of_char_of)
    finally show ?thesis .
  qed
  then show ?thesis by (simp add: bytes_of_def comp_def)
qed


text \<open>The empty entry a complete piece leaves is a trap: of two further slices of that piece (late duplicates
  of a peer that was asked for them too) the first is refused and marks the piece as to be received again,
  the second writes into a block that is not there.\<close>

theorem late_slices_undefined:
  assumes "0 \<le> i" and "tfind (bm_pool bm) i = Some \<lparr>mb_cur_len = 0, mb_data = []\<rparr>"
    and "0 < l" and "l \<le> int (length buf)" and "l \<le> piece_len bm i" and "piece_len bm i < 2147483648"
  shows "\<exists>bm'. BM_Write alloc dk t i b (Some buf) l bm = Inr (False, False, [], bm')
    \<and> BM_Write alloc dk t i b' (Some buf) l bm' = Inl Undef"
proof -
  have len: "int (length (take (nat l) buf)) = l" using assms(3,4) by simp
  have pl: "piece_len bm i \<noteq> 0" using assms(3,5) by linarith
  let ?bm = "BM_ClearIndex i (piece_len bm i) bm"
  have bm': "tfind (bm_pool ?bm) i = Some \<lparr>mb_cur_len = piece_len bm i, mb_data = []\<rparr>" "piece_len ?bm i = piece_len bm i"
    using assms(2) pl by (simp_all add: BM_ClearIndex_def) (simp add: piece_len_def)
  have st: "store_slice b' (take (nat l) buf) [] = Inl Undef"
    by (simp add: store_slice_def block_write_def Let_def)
  have w: "BM_Write alloc dk t i b (Some buf) l bm = deal alloc dk t (piece_len bm i) i b (take (nat l) buf) bm" for b bm
    using assms(1,3,4) by (simp add: BM_Write_def piece_len_def)
  have "BM_Write alloc dk t i b (Some buf) l bm = Inr (False, False, [], ?bm)"
    using assms(2) len assms(3) unfolding w by (simp add: deal_def enter_block_def)
  moreover have "BM_Write alloc dk t i b' (Some buf) l ?bm = Inl Undef"
    using bm' len assms(5) st unfolding w by (simp add: deal_def enter_block_def)
  ultimately show ?thesis by blast
qed

definition after_piece :: bit_memory where
  "after_piece = BitMemory\<lparr>bm_length_normal := 32768, bm_pool := [(3, \<lparr>mb_cur_len = 0, mb_data = []\<rparr>)]\<rparr>"

theorem late_slices_undefined_witness:
  "\<exists>bm'. BM_Write blank_alloc all_disk one_piece 3 0 (Some [1, 2]) 2 after_piece = Inr (False, False, [], bm')
    \<and> BM_Write blank_alloc all_disk one_piece 3 0 (Some [1, 2]) 2 bm' = Inl Undef"
  by (rule late_slices_undefined) (simp_all add: after_piece_def BitMemory_def piece_len_def tfind_def)

text \<open>A piece of more than 1 MB is never written: the loop of \<open>_Write\<close> spreads a file over two blocks at
  most and reads past the end of the second one.\<close>

theorem large_piece_overrun:
  assumes "wf_torrent t" and "tf_single t" and "GetFileTotal t < 2147483648" and "0 \<le> i" and "i < pieces_num t"
    and "2 * int BT_size < GetPieceLength t i" and "good_disk dk (tf_name t)"
    and "tfind (bm_pool bm) i = Some \<lparr>mb_cur_len = 0, mb_data = b # c # bs\<rparr>" and "full_blocks (b # c # bs)"
  shows "BM_WriteFile dk t i bm = Inl Undef"
  using BM_WriteFile_overrun [OF assms(7) piece_place(1) [OF assms(1-5)] assms(6,8,9)] .

definition big_piece :: torrent where
  "big_piece = new_torrent\<lparr>tf_pieces := replicate 20 CHR ''h'', tf_name := ''f'',
     tf_length := 2097152, tf_piece_length := 2097152\<rparr>"

definition big_memory :: bit_memory where
  "big_memory = BitMemory\<lparr>bm_length_end := 2097152, bm_length_normal := 2097152,
     bm_pool := [(0, \<lparr>mb_cur_len = 0, mb_data = replicate 4 (replicate BT_size 0)\<rparr>)]\<rparr>"

theorem large_piece_overrun_witness: "BM_WriteFile all_disk big_piece 0 big_memory = Inl Undef"
proof (rule large_piece_overrun [where b = "replicate BT_size 0" and c = "replicate BT_size 0"
      and bs = "[replicate BT_size 0, replicate BT_size 0]"])
  show w: "wf_torrent big_piece"
    by (simp add: big_piece_def wf_torrent_def pieces_num_def pieces_size_def GetFileTotal_def new_torrent_def)
  show "2 * int BT_size < GetPieceLength big_piece 0"
    using GetPieceLength_wf [OF w, of 0]
    by (simp add: big_piece_def pieces_num_def pieces_size_def end_length_def GetFileTotal_def new_torrent_def BT_size_def)
  show "full_blocks [replicate BT_size 0, replicate BT_size 0, replicate BT_size 0, replicate BT_size 0]"
    by (simp only: full_blocks_Cons length_replicate) (simp add: full_blocks_def)
  show "tfind (bm_pool big_memory) 0 = Some \<lparr>mb_cur_len = 0, mb_data =
      [replicate BT_size 0, replicate BT_size 0, replicate BT_size 0, replicate BT_size 0]\<rparr>"
    by (simp add: big_memory_def tfind_def numeral_eq_Suc)
qed (simp_all add: big_piece_def all_disk_def good_disk_def pieces_num_def pieces_size_def GetFileTotal_def new_torrent_def)

end
