(* ===== verification/Peer_Status.thy ===== *)
theory Peer_Status
  imports Tables RW_Lock
begin

text \<open>
  \<open>PeerStatus\<close>, the six flags kept of a peer, and the contract \<open>status_store\<close> of a component that
  keeps one per peer. Three components do (\<open>PeerManager\<close> by socket, \<open>NeedPiece\<close> by id, \<open>DownSpeed\<close>
  by socket); each interprets the contract on its own update.
\<close>

record peer_status =
  am_choke :: bool
  am_interested :: bool
  peer_choke :: bool
  peer_interested :: bool
  request_piece :: bool
  recv_piece :: bool

definition PeerStatus :: peer_status where
  "PeerStatus = \<lparr>am_choke = True, am_interested = False, peer_choke = True, peer_interested = False,
     request_piece = False, recv_piece = False\<rparr>"

text \<open>The four flags the components share: a copy of a status agrees with another on them.\<close>

definition same_flags :: "peer_status \<Rightarrow> peer_status \<Rightarrow> bool" where
  "same_flags a b \<longleftrightarrow> am_choke a = am_choke b \<and> am_interested a = am_interested b
     \<and> peer_choke a = peer_choke b \<and> peer_interested a = peer_interested b"

text \<open>The eight assignments the handlers make.\<close>

datatype flag_op = SetAmChoke | SetAmUnChoke | SetAmInterested | SetAmUnInterested
  | SetPrChoke | SetPrUnChoke | SetPrInterested | SetPrUnInterested

fun set_flag :: "flag_op \<Rightarrow> peer_status \<Rightarrow> peer_status" where
  "set_flag SetAmChoke st = st\<lparr>am_choke := True\<rparr>"
| "set_flag SetAmUnChoke st = st\<lparr>am_choke := False\<rparr>"
| "set_flag SetAmInterested st = st\<lparr>am_interested := True\<rparr>"
| "set_flag SetAmUnInterested st = st\<lparr>am_interested := False\<rparr>"
| "set_flag SetPrChoke st = st\<lparr>peer_choke := True\<rparr>"
| "set_flag SetPrUnChoke st = st\<lparr>peer_choke := False\<rparr>"
| "set_flag SetPrInterested st = st\<lparr>peer_interested := True\<rparr>"
| "set_flag SetPrUnInterested st = st\<lparr>peer_interested := False\<rparr>"

lemma same_flags_refl [simp]: "same_flags a a"
  by (simp add: same_flags_def)

lemma same_flags_set: "same_flags a b \<Longrightarrow> same_flags (set_flag x a) (set_flag x b)"
  by (cases x) (simp_all add: same_flags_def)

lemma set_flag_idem [simp]: "set_flag x (set_flag x st) = set_flag x st"
  by (cases x) simp_all

lemma same_flags_trans: "same_flags a b \<Longrightarrow> same_flags b c \<Longrightarrow> same_flags a c"
  by (simp add: same_flags_def)

lemma same_flags_sym: "same_flags a b \<Longrightarrow> same_flags b a"
  by (simp add: same_flags_def)

text \<open>
  A component that keeps a status per key: \<open>put\<close> changes the status of one key while the component's
  lock is free (\<open>ready\<close>), and leaves the lock free.
\<close>

locale status_store =
  fixes ready :: "'s \<Rightarrow> bool"
    and status :: "'s \<Rightarrow> 'k \<Rightarrow> peer_status option"
    and put :: "(peer_status \<Rightarrow> peer_status) \<Rightarrow> 'k \<Rightarrow> 's \<Rightarrow> 's"
  assumes ready_put: "ready s \<Longrightarrow> ready (put f k s)"
    and status_put: "ready s \<Longrightarrow>
      status (put f k s) k' = (if k' = k then map_option f (status s k) else status s k')"
begin

lemma status_put_same: "ready s \<Longrightarrow> status s k = Some st \<Longrightarrow> status (put f k s) k = Some (f st)"
  by (simp add: status_put)

lemma status_put_other: "ready s \<Longrightarrow> k' \<noteq> k \<Longrightarrow> status (put f k s) k' = status s k'"
  by (simp add: status_put)

lemma status_put_twice:
  "ready s \<Longrightarrow> status (put (set_flag x) k (put (set_flag x) k s)) k' = status (put (set_flag x) k s) k'"
  by (simp add: status_put ready_put option.map_comp comp_def)

lemma status_put_None: "ready s \<Longrightarrow> status (put f k s) k' = None \<longleftrightarrow> status s k' = None"
  by (simp add: status_put)

lemma put_commute:
  "ready s \<Longrightarrow> k \<noteq> l \<Longrightarrow> status (put f k (put g l s)) k' = status (put g l (put f k s)) k'"
  by (simp add: status_put ready_put)

end

end
