(* ===== verification/Need_Piece.thy ===== *)
theory Need_Piece
  imports Peer_Status
begin

text \<open>
  \<open>NeedPiece\<close>: the pieces still needed, each with the peers that have it, and the status of every
  peer by id. \<open>index_lock\<close> is a mutex held by a guard through each operation; it is free between
  them, so it has no state here. \<open>id_lock\<close> is taken and released by hand and is modelled. \<open>now\<close> is
  the time an operation reads. \<open>SendReq\<close> and the part of \<open>PrUnChoke\<close> that calls it need the
  peer manager and stand in \<open>Peer_Manager\<close>.
\<close>

unbundle bit_operations_syntax

record need_entry =
  ne_index :: int
  ne_status :: byte
  ne_expire :: int
  ne_queue :: "(int \<times> int) list"

record need_piece =
  np_index_queue :: "need_entry list"
  np_id_lock :: rwlock
  np_id_queue :: "(int, peer_status) table"

definition NeedPiece :: need_piece where
  "NeedPiece = \<lparr>np_index_queue = [], np_id_lock = lock_idle, np_id_queue = []\<rparr>"

definition NEEDEXPIRETIME :: int where
  "NEEDEXPIRETIME = 120"

definition NPComp :: "need_entry \<Rightarrow> need_entry \<Rightarrow> bool" where
  "NPComp l r \<longleftrightarrow> length (ne_queue l) < length (ne_queue r)"

section \<open>Pieces\<close>

fun push_entry :: "int \<Rightarrow> int \<Rightarrow> int \<Rightarrow> need_entry list \<Rightarrow> need_entry list" where
  "push_entry T_index T_socket T_id [] =
     [\<lparr>ne_index = T_index, ne_status = 0, ne_expire = 0, ne_queue = [(T_socket, T_id)]\<rparr>]"
| "push_entry T_index T_socket T_id (e # es) =
     (if T_index = ne_index e then e\<lparr>ne_queue := ne_queue e @ [(T_socket, T_id)]\<rparr> # es
      else e # push_entry T_index T_socket T_id es)"

definition PushNeed :: "int \<Rightarrow> int \<Rightarrow> int \<Rightarrow> need_piece \<Rightarrow> need_piece" where
  "PushNeed T_index T_socket T_id np =
     (if T_index < 0 then np
      else np\<lparr>np_index_queue := push_entry T_index T_socket T_id (np_index_queue np)\<rparr>)"

definition PushNeed_list :: "int list option \<Rightarrow> int \<Rightarrow> int \<Rightarrow> need_piece \<Rightarrow> need_piece" where
  "PushNeed_list T_indexs T_socket T_id np =
     (case T_indexs of None \<Rightarrow> np
      | Some is \<Rightarrow> if is = [] then np else fold (\<lambda>val. PushNeed val T_socket T_id) is np)"

text \<open>The sockets of an entry whose peer does not choke the client.\<close>

definition open_sockets :: "need_piece \<Rightarrow> need_entry \<Rightarrow> int list" where
  "open_sockets np e =
     (case rwlock_rdlock (np_id_lock np) of None \<Rightarrow> []
      | Some _ \<Rightarrow> map fst (filter (\<lambda>val. case tfind (np_id_queue np) (snd val) of None \<Rightarrow> False
            | Some st \<Rightarrow> \<not> peer_choke st) (ne_queue e)))"

definition judge :: "int \<Rightarrow> bool \<Rightarrow> need_entry \<Rightarrow> bool" where
  "judge now game_end result =
     (if ne_status result AND 1 \<noteq> 0
      then (if ne_status result AND 2 = 0
            then (if NEEDEXPIRETIME \<le> now - ne_expire result then True else game_end)
            else False)
      else True)"

fun pop_loop :: "int \<Rightarrow> bool \<Rightarrow> need_piece \<Rightarrow> need_entry list \<Rightarrow> (int \<times> int list) \<times> need_entry list" where
  "pop_loop now game_end np [] = ((0, []), [])"
| "pop_loop now game_end np (result # es) =
     (if judge now game_end result \<and> open_sockets np result \<noteq> []
      then ((ne_index result, open_sockets np result),
            result\<lparr>ne_status := 1, ne_expire := u32 now\<rparr> # es)
      else let (ret, es') = pop_loop now game_end np es in (ret, result # es'))"

definition PopNeed :: "int \<Rightarrow> bool \<Rightarrow> need_piece \<Rightarrow> (int \<times> int list) \<times> need_piece" where
  "PopNeed now game_end np =
     (if np_index_queue np = [] then ((0, []), np)
      else let (ret, q) = pop_loop now game_end np (list_sort NPComp (np_index_queue np))
           in (ret, np\<lparr>np_index_queue := q\<rparr>))"

fun find_entry :: "int \<Rightarrow> need_entry list \<Rightarrow> need_entry option" where
  "find_entry T_index [] = None"
| "find_entry T_index (e # es) = (if T_index = ne_index e then Some e else find_entry T_index es)"

definition PopPointNeed :: "int \<Rightarrow> need_piece \<Rightarrow> int list" where
  "PopPointNeed T_index np =
     (if T_index < 0 then []
      else (case find_entry T_index (np_index_queue np) of None \<Rightarrow> [] | Some e \<Rightarrow> open_sockets np e))"

text \<open>\<open>Empty\<close> takes the read lock, whether it gets it or not, and never releases it.\<close>

definition NP_Empty :: "need_piece \<Rightarrow> bool \<times> need_piece" where
  "NP_Empty np =
     (np_index_queue np = [] \<or> np_id_queue np = [],
      np\<lparr>np_id_lock := (case rwlock_rdlock (np_id_lock np) of None \<Rightarrow> np_id_lock np | Some l \<Rightarrow> l)\<rparr>)"

fun drop_entry :: "int \<Rightarrow> need_entry list \<Rightarrow> need_entry list" where
  "drop_entry T_index [] = []"
| "drop_entry T_index (e # es) = (if T_index = ne_index e then es else e # drop_entry T_index es)"

definition NP_ClearIndex :: "int \<Rightarrow> need_piece \<Rightarrow> need_piece" where
  "NP_ClearIndex T_index np =
     (if T_index < 0 then np else np\<lparr>np_index_queue := drop_entry T_index (np_index_queue np)\<rparr>)"

fun adjust_entry :: "int \<Rightarrow> (need_entry \<Rightarrow> need_entry) \<Rightarrow> need_entry list \<Rightarrow> need_entry list" where
  "adjust_entry T_index f [] = []"
| "adjust_entry T_index f (e # es) = (if T_index = ne_index e then f e # es else e # adjust_entry T_index f es)"

definition UnLockIndex :: "int \<Rightarrow> need_piece \<Rightarrow> need_piece" where
  "UnLockIndex T_index np =
     (if T_index < 0 then np
      else np\<lparr>np_index_queue := adjust_entry T_index (\<lambda>e. e\<lparr>ne_status := 0\<rparr>) (np_index_queue np)\<rparr>)"

definition SetIndexW :: "int \<Rightarrow> need_piece \<Rightarrow> bool \<times> need_piece" where
  "SetIndexW T_index np =
     (if T_index < 0 then (False, np)
      else (case find_entry T_index (np_index_queue np) of None \<Rightarrow> (False, np)
          | Some e \<Rightarrow>
              if ne_status e AND 2 \<noteq> 0 then (False, np)
              else (True, np\<lparr>np_index_queue :=
                  adjust_entry T_index (\<lambda>e. e\<lparr>ne_status := ne_status e OR 2\<rparr>) (np_index_queue np)\<rparr>)))"

section \<open>Peers\<close>

definition SocketMapId :: "int \<Rightarrow> need_piece \<Rightarrow> need_piece" where
  "SocketMapId T_id np =
     (case rwlock_wrlock (np_id_lock np) of None \<Rightarrow> np
      | Some l \<Rightarrow> np\<lparr>np_id_queue := templace T_id PeerStatus (np_id_queue np), np_id_lock := unlock l\<rparr>)"

definition NP_ClearSocket :: "int \<Rightarrow> need_piece \<Rightarrow> need_piece" where
  "NP_ClearSocket T_id np =
     (case rwlock_wrlock (np_id_lock np) of None \<Rightarrow> np
      | Some l \<Rightarrow> np\<lparr>np_id_queue := (if tfind (np_id_queue np) T_id \<noteq> None then terase T_id (np_id_queue np)
                                       else np_id_queue np),
                    np_id_lock := unlock l\<rparr>)"

definition RetSocketStatus :: "need_piece \<Rightarrow> int \<Rightarrow> peer_status option" where
  "RetSocketStatus np T_id = tfind (np_id_queue np) T_id"

text \<open>The write through the pointer \<open>RetSocketStatus\<close> returns, between lock and unlock.\<close>

definition np_put :: "(peer_status \<Rightarrow> peer_status) \<Rightarrow> int \<Rightarrow> need_piece \<Rightarrow> need_piece" where
  "np_put f T_id np =
     (case rwlock_wrlock (np_id_lock np) of None \<Rightarrow> np
      | Some l \<Rightarrow> np\<lparr>np_id_queue := (if RetSocketStatus np T_id \<noteq> None then tadjust T_id f (np_id_queue np)
                                       else np_id_queue np),
                    np_id_lock := unlock l\<rparr>)"

definition NP_AmChoke :: "int \<Rightarrow> need_piece \<Rightarrow> need_piece" where
  "NP_AmChoke T_id np = np_put (\<lambda>p. p\<lparr>am_choke := True\<rparr>) T_id np"

definition NP_AmUnChoke :: "int \<Rightarrow> need_piece \<Rightarrow> need_piece" where
  "NP_AmUnChoke T_id np = np_put (\<lambda>p. p\<lparr>am_choke := False\<rparr>) T_id np"

definition NP_AmInterested :: "int \<Rightarrow> need_piece \<Rightarrow> need_piece" where
  "NP_AmInterested T_id np = np_put (\<lambda>p. p\<lparr>am_interested := True\<rparr>) T_id np"

definition NP_AmUnInterested :: "int \<Rightarrow> need_piece \<Rightarrow> need_piece" where
  "NP_AmUnInterested T_id np = np_put (\<lambda>p. p\<lparr>am_interested := False\<rparr>) T_id np"

definition NP_PrChoke :: "int \<Rightarrow> need_piece \<Rightarrow> need_piece" where
  "NP_PrChoke T_id np = np_put (\<lambda>p. p\<lparr>peer_choke := True\<rparr>) T_id np"

definition NP_PrInterested :: "int \<Rightarrow> need_piece \<Rightarrow> need_piece" where
  "NP_PrInterested T_id np = np_put (\<lambda>p. p\<lparr>peer_interested := True\<rparr>) T_id np"

definition NP_PrUnInterested :: "int \<Rightarrow> need_piece \<Rightarrow> need_piece" where
  "NP_PrUnInterested T_id np = np_put (\<lambda>p. p\<lparr>peer_interested := False\<rparr>) T_id np"

text \<open>\<open>PrUnChoke\<close> up to the call of \<open>SendReq\<close>; whether it makes that call is the first component.\<close>

definition NP_PrUnChoke_flag :: "int \<Rightarrow> need_piece \<Rightarrow> bool \<times> need_piece" where
  "NP_PrUnChoke_flag T_id np =
     (rwlock_wrlock (np_id_lock np) \<noteq> None \<and> RetSocketStatus np T_id \<noteq> None,
      np_put (\<lambda>p. p\<lparr>peer_choke := False\<rparr>) T_id np)"

definition NP_Clear :: "need_piece \<Rightarrow> need_piece" where
  "NP_Clear np = np\<lparr>np_id_lock := rwlock_destroy (np_id_lock np), np_index_queue := [], np_id_queue := []\<rparr>"

section \<open>Lemmas: the order of the pieces\<close>

interpretation np_order: strict_weak_order NPComp
  by unfold_locales (auto simp: NPComp_def)

text \<open>A piece that qualifies: it may be requested and a peer that has it does not choke the client.\<close>

definition wanted :: "int \<Rightarrow> bool \<Rightarrow> need_piece \<Rightarrow> need_entry \<Rightarrow> bool" where
  "wanted now g np e \<longleftrightarrow> judge now g e \<and> open_sockets np e \<noteq> []"

lemma pop_loop_prefix:
  assumes "pop_loop now g np es = ((i, s), es')" and "s \<noteq> []"
  shows "\<exists>pre e post. es = pre @ e # post \<and> es' = pre @ e\<lparr>ne_status := 1, ne_expire := u32 now\<rparr> # post
    \<and> judge now g e \<and> s = open_sockets np e \<and> i = ne_index e
    \<and> (\<forall>x \<in> set pre. \<not> (judge now g x \<and> open_sockets np x \<noteq> []))"
  using assms
proof (induction es arbitrary: es')
  case Nil
  then show ?case by simp
next
  case (Cons r es)
  show ?case
  proof (cases "judge now g r \<and> open_sockets np r \<noteq> []")
    case True
    then show ?thesis using Cons.prems by (intro exI [of _ "[]"]) auto
  next
    case False
    obtain q where q: "pop_loop now g np es = ((i, s), q)" "es' = r # q"
      using Cons.prems(1) False by (auto split: prod.splits)
    obtain pre e post where "es = pre @ e # post" "q = pre @ e\<lparr>ne_status := 1, ne_expire := u32 now\<rparr> # post"
      "judge now g e" "s = open_sockets np e" "i = ne_index e"
      "\<forall>x \<in> set pre. \<not> (judge now g x \<and> open_sockets np x \<noteq> [])"
      using Cons.IH [OF q(1) Cons.prems(2)] by blast
    then show ?thesis using False q(2) by (intro exI [of _ "r # pre"]) auto
  qed
qed

lemma pop_loop_none:
  "pop_loop now g np es = ((i, []), es') \<Longrightarrow> i = 0 \<and> es' = es \<and> (\<forall>x \<in> set es. \<not> (judge now g x \<and> open_sockets np x \<noteq> []))"
  by (induction es arbitrary: es') (auto split: prod.splits if_splits)

lemma pop_loop_index: "map ne_index (snd (pop_loop now g np es)) = map ne_index es"
  by (induction es) (auto split: prod.splits)

section \<open>Lemmas: the list of pieces\<close>

lemma find_entry_push:
  "find_entry j (push_entry i s d es) =
     (if j = i then Some (case find_entry i es of
          None \<Rightarrow> \<lparr>ne_index = i, ne_status = 0, ne_expire = 0, ne_queue = [(s, d)]\<rparr>
        | Some e \<Rightarrow> e\<lparr>ne_queue := ne_queue e @ [(s, d)]\<rparr>)
      else find_entry j es)"
  by (induction es) auto

lemma find_entry_adjust:
  "(\<And>e. ne_index (f e) = ne_index e) \<Longrightarrow> find_entry j (adjust_entry i f es) = (if j = i then map_option f (find_entry i es) else find_entry j es)"
  by (induction es) auto

lemma index_push: "map ne_index (push_entry i s d es) = (if i \<in> set (map ne_index es) then map ne_index es else map ne_index es @ [i])"
  by (induction es) auto

lemma index_adjust: "(\<And>e. ne_index (f e) = ne_index e) \<Longrightarrow> map ne_index (adjust_entry i f es) = map ne_index es"
  by (induction es) auto

lemma index_drop: "map ne_index (drop_entry i es) = remove1 i (map ne_index es)"
  by (induction es) auto

lemma find_entry_None: "find_entry i es = None \<longleftrightarrow> i \<notin> set (map ne_index es)"
  by (induction es) auto

lemma find_entry_drop:
  "distinct (map ne_index es) \<Longrightarrow> find_entry j (drop_entry i es) = (if j = i then None else find_entry j es)"
  by (induction es) (auto simp: find_entry_None)

lemma find_entry_index: "find_entry i es = Some e \<Longrightarrow> ne_index e = i \<and> e \<in> set es"
  by (induction es) (auto split: if_splits)

lemma find_entry_mem: "distinct (map ne_index es) \<Longrightarrow> e \<in> set es \<Longrightarrow> find_entry (ne_index e) es = Some e"
  by (induction es) (auto simp: image_iff)

text \<open>No piece is listed twice, none has a negative index, and no id has two statuses.\<close>

definition np_inv :: "need_piece \<Rightarrow> bool" where
  "np_inv np \<longleftrightarrow> distinct (map ne_index (np_index_queue np)) \<and> (\<forall>e \<in> set (np_index_queue np). 0 \<le> ne_index e)
     \<and> distinct (tkeys (np_id_queue np))"

definition np_ready :: "need_piece \<Rightarrow> bool" where
  "np_ready np \<longleftrightarrow> np_id_lock np = lock_idle"

interpretation np_status: status_store np_ready RetSocketStatus np_put
  by unfold_locales (auto simp: np_ready_def np_put_def RetSocketStatus_def)

lemma PopNeed_some:
  assumes "PopNeed now g np = ((i, s), np')" and "s \<noteq> []"
  obtains pre e post where "list_sort NPComp (np_index_queue np) = pre @ e # post"
    and "np' = np\<lparr>np_index_queue := pre @ e\<lparr>ne_status := 1, ne_expire := u32 now\<rparr> # post\<rparr>"
    and "judge now g e" and "s = open_sockets np e" and "i = ne_index e"
    and "\<forall>x \<in> set pre. \<not> (judge now g x \<and> open_sockets np x \<noteq> [])"
proof -
  obtain q where q: "pop_loop now g np (list_sort NPComp (np_index_queue np)) = ((i, s), q)"
    "np' = np\<lparr>np_index_queue := q\<rparr>"
    using assms by (auto simp: PopNeed_def split: if_splits prod.splits)
  show thesis using pop_loop_prefix [OF q(1) assms(2)] q(2) that by blast
qed

lemma sorted_rarest:
  assumes "list_sort NPComp es = pre @ e # post" and "x \<in> set post"
  shows "length (ne_queue e) \<le> length (ne_queue x)"
  using np_order.sort_sorted [of es] assms by (auto simp: sorted_wrt_append NPComp_def not_less)

lemma PopNeed_index: "mset (map ne_index (np_index_queue (snd (PopNeed now g np)))) = mset (map ne_index (np_index_queue np))"
proof -
  have "snd (pop_loop now g np es) = q \<Longrightarrow> map ne_index q = map ne_index es" for es q
    using pop_loop_index [of now g np es] by simp
  then have "mset (map ne_index (snd (pop_loop now g np (list_sort NPComp es)))) = mset (map ne_index es)" for es
    by (metis mset_list_sort mset_map)
  then show ?thesis by (simp add: PopNeed_def split: prod.splits) (metis snd_conv)
qed

lemma mset_inv:
  "mset (map ne_index q) = mset (map ne_index q') \<Longrightarrow>
    distinct (map ne_index q) = distinct (map ne_index q') \<and> ne_index ` set q = ne_index ` set q'"
  by (metis mset_eq_imp_distinct_iff list.set_map mset_eq_setD)

lemma np_inv_alt: "np_inv np \<longleftrightarrow> distinct (map ne_index (np_index_queue np))
    \<and> (\<forall>i \<in> set (map ne_index (np_index_queue np)). 0 \<le> i) \<and> distinct (tkeys (np_id_queue np))"
  by (auto simp: np_inv_def)

lemma PopNeed_frame [simp]:
  "np_id_queue (snd (PopNeed now g np)) = np_id_queue np" "np_id_lock (snd (PopNeed now g np)) = np_id_lock np"
  by (simp_all add: PopNeed_def split: prod.splits)

lemma sort_index: "np_inv np \<Longrightarrow> distinct (map ne_index (list_sort NPComp (np_index_queue np)))"
  using mset_inv [of "list_sort NPComp (np_index_queue np)" "np_index_queue np"]
  by (metis mset_list_sort mset_map np_inv_def)

section \<open>Runs\<close>

datatype np_op = OPush int int int | OPushList "int list option" int int | OPop int bool | OEmpty
  | OClearIndex int | OUnLock int | OSetW int | OMapId int | OClearSocket int | OFlag flag_op int | OClear

fun np_exec :: "np_op \<Rightarrow> need_piece \<Rightarrow> need_piece" where
  "np_exec (OPush i s d) np = PushNeed i s d np"
| "np_exec (OPushList is s d) np = PushNeed_list is s d np"
| "np_exec (OPop now g) np = snd (PopNeed now g np)"
| "np_exec OEmpty np = snd (NP_Empty np)"
| "np_exec (OClearIndex i) np = NP_ClearIndex i np"
| "np_exec (OUnLock i) np = UnLockIndex i np"
| "np_exec (OSetW i) np = snd (SetIndexW i np)"
| "np_exec (OMapId d) np = SocketMapId d np"
| "np_exec (OClearSocket d) np = NP_ClearSocket d np"
| "np_exec (OFlag x d) np =
     (case x of SetAmChoke \<Rightarrow> NP_AmChoke d np | SetAmUnChoke \<Rightarrow> NP_AmUnChoke d np
      | SetAmInterested \<Rightarrow> NP_AmInterested d np | SetAmUnInterested \<Rightarrow> NP_AmUnInterested d np
      | SetPrChoke \<Rightarrow> NP_PrChoke d np | SetPrUnChoke \<Rightarrow> snd (NP_PrUnChoke_flag d np)
      | SetPrInterested \<Rightarrow> NP_PrInterested d np | SetPrUnInterested \<Rightarrow> NP_PrUnInterested d np)"
| "np_exec OClear np = NP_Clear np"

lemmas np_flag_defs = NP_AmChoke_def NP_AmUnChoke_def NP_AmInterested_def NP_AmUnInterested_def NP_PrChoke_def
  NP_PrUnChoke_flag_def NP_PrInterested_def NP_PrUnInterested_def

lemma np_flag_put: "np_exec (OFlag x d) np = np_put (set_flag x) d np"
proof -
  have "set_flag x = (\<lambda>p. set_flag x p)" by simp
  then show ?thesis by (cases x) (simp_all add: np_flag_defs)
qed

lemma PushNeed_inv: "np_inv np \<Longrightarrow> np_inv (PushNeed i s d np)"
  by (auto simp: np_inv_alt PushNeed_def index_push simp del: set_map)

lemma PushNeed_list_inv: "np_inv np \<Longrightarrow> np_inv (fold (\<lambda>v. PushNeed v s d) is np)"
  by (induction "is" arbitrary: np) (simp_all add: PushNeed_inv)

lemma np_put_inv: "np_inv np \<Longrightarrow> np_inv (np_put f d np)"
  by (auto simp: np_inv_def np_put_def tbl.keys_adjust split: option.splits)

lemma np_exec_inv: "np_inv np \<Longrightarrow> np_inv (np_exec x np)"
proof (cases x)
  case (OPush i s d)
  then show "np_inv np \<Longrightarrow> ?thesis" by (simp add: PushNeed_inv)
next
  case (OPushList js s d)
  then show "np_inv np \<Longrightarrow> ?thesis" by (simp add: PushNeed_list_def PushNeed_list_inv split: option.splits)
next
  case (OPop now g)
  assume "np_inv np"
  then show ?thesis
    using mset_inv [OF PopNeed_index [of now g np]] by (simp add: np_inv_alt OPop)
next
  case (OClearIndex i)
  assume "np_inv np"
  then show ?thesis
    by (auto simp: np_inv_alt NP_ClearIndex_def index_drop OClearIndex simp del: set_map dest: in_set_remove1)
next
  case (OFlag f d)
  assume "np_inv np"
  then show ?thesis unfolding OFlag np_flag_put by (rule np_put_inv)
qed (auto simp: NP_Empty_def UnLockIndex_def index_adjust
    SetIndexW_def SocketMapId_def NP_ClearSocket_def NP_Clear_def np_inv_alt tbl.distinct_emplace tbl.distinct_erase
    tkeys_def [of "[]"] simp del: set_map split: option.splits)

lemma np_reach_inv: "np_inv np \<Longrightarrow> np_inv (fold np_exec ops np)"
  by (induction ops arbitrary: np) (simp_all add: np_exec_inv)

lemma np_inv_new: "np_inv NeedPiece"
  by (simp add: np_inv_def NeedPiece_def tkeys_def)

section \<open>Lemmas: the write lock of a piece\<close>

lemma or_two: "((b :: byte) OR 2) AND 2 \<noteq> 0" "((b :: byte) OR 2) AND 1 = b AND 1"
proof -
  have "(b OR 2) AND 2 = 2" by (rule bit_word_eqI) (auto simp: bit_simps)
  then show "(b OR 2) AND 2 \<noteq> 0" by simp
  have "(2 :: byte) AND 1 = 0" by simp
  then show "(b OR 2) AND 1 = b AND 1" by (simp add: bit.conj_disj_distrib2)
qed

text \<open>Requested and being written.\<close>

definition busy :: "int \<Rightarrow> need_piece \<Rightarrow> bool" where
  "busy i np \<longleftrightarrow> (\<exists>e. find_entry i (np_index_queue np) = Some e \<and> ne_status e AND 1 \<noteq> 0 \<and> ne_status e AND 2 \<noteq> 0)"

fun releases :: "int \<Rightarrow> np_op \<Rightarrow> bool" where
  "releases i (OUnLock j) = (j = i)"
| "releases i (OClearIndex j) = (j = i)"
| "releases i OClear = True"
| "releases i _ = False"

lemma busy_PushNeed: "busy i np \<Longrightarrow> busy i (PushNeed j s d np)"
  by (auto simp: busy_def PushNeed_def find_entry_push split: option.splits)

lemma busy_PushNeed_list: "busy i np \<Longrightarrow> busy i (fold (\<lambda>v. PushNeed v s d) js np)"
  by (induction js arbitrary: np) (simp_all add: busy_PushNeed)

lemma busy_PopNeed:
  assumes "np_inv np" and "busy i np"
  shows "busy i (snd (PopNeed now g np))"
proof -
  obtain e where e: "find_entry i (np_index_queue np) = Some e" "ne_status e AND 1 \<noteq> 0" "ne_status e AND 2 \<noteq> 0"
    using assms(2) by (auto simp: busy_def)
  obtain j s np' where n: "PopNeed now g np = ((j, s), np')" by (metis surj_pair)
  have es: "e \<in> set (list_sort NPComp (np_index_queue np))" "ne_index e = i"
    using find_entry_index [OF e(1)] by auto
  have not: "\<not> judge now g e" using e by (simp add: judge_def)
  have "find_entry i (np_index_queue np') = Some e"
  proof (cases "s = []")
    case True
    then have "np_index_queue np' = list_sort NPComp (np_index_queue np)"
      using n pop_loop_none [of now g np "list_sort NPComp (np_index_queue np)"] e(1)
      by (auto simp: PopNeed_def split: if_splits prod.splits)
    then show ?thesis using find_entry_mem [OF sort_index [OF assms(1)] es(1)] es(2) by simp
  next
    case False
    obtain pre x post where p: "list_sort NPComp (np_index_queue np) = pre @ x # post"
      "np' = np\<lparr>np_index_queue := pre @ x\<lparr>ne_status := 1, ne_expire := u32 now\<rparr> # post\<rparr>" "judge now g x"
      by (rule PopNeed_some [OF n False])
    have "distinct (map ne_index (np_index_queue np'))" using sort_index [OF assms(1)] by (simp add: p(1,2))
    moreover have "e \<in> set (np_index_queue np')" using es(1) p not by (auto simp: p(1,2))
    ultimately show ?thesis using find_entry_mem es(2) by blast
  qed
  then show ?thesis using e n by (auto simp: busy_def)
qed

lemma busy_exec: "np_inv np \<Longrightarrow> busy i np \<Longrightarrow> \<not> releases i x \<Longrightarrow> busy i (np_exec x np)"
proof (cases x)
  case (OFlag f d)
  then show "busy i np \<Longrightarrow> ?thesis"
    unfolding OFlag np_flag_put by (auto simp: busy_def np_put_def split: option.splits)
next
  case (OClearIndex j)
  then show "np_inv np \<Longrightarrow> busy i np \<Longrightarrow> \<not> releases i x \<Longrightarrow> ?thesis"
    by (auto simp: busy_def NP_ClearIndex_def find_entry_drop np_inv_def)
next
  case (OPushList js s d)
  then show "busy i np \<Longrightarrow> ?thesis"
    by (simp add: PushNeed_list_def busy_PushNeed_list split: option.splits)
next
  case (OSetW j)
  then show "busy i np \<Longrightarrow> ?thesis"
    by (auto simp: busy_def SetIndexW_def find_entry_adjust or_two split: option.splits)
qed (auto simp: busy_PushNeed busy_PopNeed, auto simp: busy_def NP_Empty_def UnLockIndex_def find_entry_adjust
    SocketMapId_def NP_ClearSocket_def split: option.splits)

lemma busy_run:
  "np_inv np \<Longrightarrow> busy i np \<Longrightarrow> list_all (\<lambda>x. \<not> releases i x) ops \<Longrightarrow> busy i (fold np_exec ops np)"
  by (induction ops arbitrary: np) (simp_all add: busy_exec np_exec_inv)

lemma busy_refuses: "busy i np \<Longrightarrow> SetIndexW i np = (False, np)"
  by (auto simp: busy_def SetIndexW_def)

section \<open>Properties\<close>


text \<open>Piece 4 is held by two peers, piece 7 by one; the peer with id 1 does not choke the client.\<close>

definition sample_need :: need_piece where
  "sample_need = np_exec (OFlag SetPrUnChoke 1) (fold np_exec
     [OMapId 1, OMapId 2, OPush 4 20 2, OPush 4 10 1, OPush 7 10 1] NeedPiece)"

lemma sample_need_eq: "sample_need = \<lparr>np_index_queue =
    [\<lparr>ne_index = 4, ne_status = 0, ne_expire = 0, ne_queue = [(20, 2), (10, 1)]\<rparr>,
     \<lparr>ne_index = 7, ne_status = 0, ne_expire = 0, ne_queue = [(10, 1)]\<rparr>],
    np_id_lock = lock_idle, np_id_queue = [(1, PeerStatus\<lparr>peer_choke := False\<rparr>), (2, PeerStatus)]\<rparr>"
  by (simp add: sample_need_def NeedPiece_def SocketMapId_def templace_def PushNeed_def NP_PrUnChoke_flag_def
      np_put_def RetSocketStatus_def tfind_def tadjust_def)

lemma sample_need_inv: "np_inv sample_need"
  unfolding sample_need_def by (intro np_exec_inv np_reach_inv np_inv_new)


text \<open>C15: in every state the operations of \<open>NeedPiece\<close> can reach, no piece is listed twice, none has a
  negative index, and no id has two statuses.\<close>

theorem NeedPiece_reachable_inv: "np_inv (fold np_exec ops NeedPiece)"
  by (rule np_reach_inv [OF np_inv_new])

text \<open>C20: \<open>SetIndexW\<close> on a piece that was requested is a lock: after it succeeded it fails, whatever the
  client does, until \<open>UnLockIndex\<close> or \<open>ClearIndex\<close> of that piece (or \<open>Clear\<close>).\<close>

theorem SetIndexW_excludes:
  assumes "np_inv np" and "0 \<le> i" and "find_entry i (np_index_queue np) = Some e"
    and "ne_status e AND 1 \<noteq> 0" and "ne_status e AND 2 = 0"
    and "list_all (\<lambda>x. \<not> releases i x) ops"
  shows "\<exists>np'. SetIndexW i np = (True, np') \<and> fst (SetIndexW i (fold np_exec ops np')) = False"
proof -
  let ?np = "snd (SetIndexW i np)"
  have "busy i ?np"
    using assms by (auto simp: busy_def SetIndexW_def find_entry_adjust or_two)
  moreover have "np_inv ?np" using np_exec_inv [OF assms(1), of "OSetW i"] by simp
  ultimately have "SetIndexW i (fold np_exec ops ?np) = (False, fold np_exec ops ?np)"
    using busy_refuses busy_run assms(6) by blast
  moreover have "SetIndexW i np = (True, ?np)" using assms by (simp add: SetIndexW_def)
  ultimately show ?thesis by (intro exI [of _ ?np]) simp
qed

text \<open>\<open>sample_need\<close> after piece 7 has been requested.\<close>

definition sample_popped :: need_piece where
  "sample_popped = np_exec (OPop 1000 False) sample_need"

lemma sample_popped_eq: "sample_popped = \<lparr>np_index_queue =
    [\<lparr>ne_index = 7, ne_status = 1, ne_expire = 1000, ne_queue = [(10, 1)]\<rparr>,
     \<lparr>ne_index = 4, ne_status = 0, ne_expire = 0, ne_queue = [(20, 2), (10, 1)]\<rparr>],
    np_id_lock = lock_idle, np_id_queue = [(1, PeerStatus\<lparr>peer_choke := False\<rparr>), (2, PeerStatus)]\<rparr>"
  by (simp add: sample_popped_def sample_need_eq PopNeed_def list_sort_def NPComp_def judge_def open_sockets_def
      tfind_def u32_def)

lemma sample_popped_inv: "np_inv sample_popped"
  unfolding sample_popped_def by (rule np_exec_inv [OF sample_need_inv])

theorem SetIndexW_excludes_witness:
  "\<exists>np'. SetIndexW 7 sample_popped = (True, np')
    \<and> fst (SetIndexW 7 (fold np_exec [OPop 2000 True, OUnLock 4, OPush 7 20 2] np')) = False"
  by (rule SetIndexW_excludes [where e = "\<lparr>ne_index = 7, ne_status = 1, ne_expire = 1000, ne_queue = [(10, 1)]\<rparr>",
        OF sample_popped_inv]) (simp_all add: sample_popped_eq)

text \<open>A write lock taken while the piece is not marked as read is lost: \<open>PopNeed\<close> hands the piece out and
  overwrites the lock, so that a second \<open>SetIndexW\<close> succeeds without a release.\<close>

theorem PopNeed_drops_write_lock:
  assumes "np_inv np" and "0 \<le> i" and "find_entry i (np_index_queue np) = Some e" and "ne_status e = 2"
    and "PopNeed now g np = ((i, s), np')" and "s \<noteq> []"
  shows "fst (SetIndexW i np) = False \<and> fst (SetIndexW i np') = True"
proof -
  obtain pre x post where p: "list_sort NPComp (np_index_queue np) = pre @ x # post"
      "np' = np\<lparr>np_index_queue := pre @ x\<lparr>ne_status := 1, ne_expire := u32 now\<rparr> # post\<rparr>" "i = ne_index x"
    by (rule PopNeed_some [OF assms(5,6)])
  have "distinct (map ne_index (np_index_queue np'))" using sort_index [OF assms(1)] by (simp add: p(1,2))
  then have "find_entry i (np_index_queue np') = Some (x\<lparr>ne_status := 1, ne_expire := u32 now\<rparr>)"
    using find_entry_mem [of "np_index_queue np'" "x\<lparr>ne_status := 1, ne_expire := u32 now\<rparr>"] p(2,3) by simp
  then show ?thesis using assms(2-4) by (simp add: SetIndexW_def)
qed

theorem PopNeed_drops_write_lock_witness:
  "fst (SetIndexW 7 (snd (SetIndexW 7 sample_need))) = False
    \<and> fst (SetIndexW 7 (snd (PopNeed 1000 False (snd (SetIndexW 7 sample_need))))) = True"
proof -
  let ?np = "snd (SetIndexW 7 sample_need)"
  have np: "?np = sample_need\<lparr>np_index_queue := adjust_entry 7 (\<lambda>e. e\<lparr>ne_status := ne_status e OR 2\<rparr>) (np_index_queue sample_need)\<rparr>"
    by (simp add: SetIndexW_def sample_need_eq)
  have "np_inv ?np" using np_exec_inv [OF sample_need_inv, of "OSetW 7"] by simp
  moreover have "find_entry 7 (np_index_queue ?np) = Some \<lparr>ne_index = 7, ne_status = 2, ne_expire = 0, ne_queue = [(10, 1)]\<rparr>"
    by (simp add: np) (simp add: sample_need_eq)
  moreover have "fst (PopNeed 1000 False ?np) = (7, [10])"
    by (simp add: np) (simp add: sample_need_eq PopNeed_def list_sort_def NPComp_def judge_def open_sockets_def tfind_def)
  then have "PopNeed 1000 False ?np = ((7, [10]), snd (PopNeed 1000 False ?np))" by (metis prod.collapse)
  ultimately show ?thesis
    using PopNeed_drops_write_lock [of ?np 7 _ 1000 False "[10]"] by simp
qed

text \<open>\<open>Empty\<close> answers right, and leaves the read lock of the statuses behind: from then on no peer can be
  added or removed and no status changes, while \<open>PopNeed\<close> still reads them.\<close>

theorem Empty_keeps_lock:
  assumes "np_ready np"
  shows "fst (NP_Empty np) = (np_index_queue np = [] \<or> np_id_queue np = [])
    \<and> (let np' = snd (NP_Empty np) in SocketMapId d np' = np' \<and> NP_ClearSocket d np' = np'
        \<and> np_exec (OFlag x d) np' = np' \<and> open_sockets np' e = open_sockets np e)"
proof -
  have "rwlock_wrlock (lock_idle\<lparr>lk_readers := 1\<rparr>) = None"
    "rwlock_rdlock (lock_idle\<lparr>lk_readers := 1\<rparr>) \<noteq> None"
    by (simp_all add: rwlock_wrlock_def rwlock_rdlock_def lock_idle_def)
  then show ?thesis
    using assms by (auto simp: NP_Empty_def np_ready_def Let_def SocketMapId_def NP_ClearSocket_def np_flag_put
        np_put_def open_sockets_def simp del: np_exec.simps)
qed

theorem Empty_keeps_lock_witness:
  "fst (NP_Empty sample_need) = (np_index_queue sample_need = [] \<or> np_id_queue sample_need = [])
    \<and> (let np' = snd (NP_Empty sample_need) in SocketMapId 3 np' = np' \<and> NP_ClearSocket 3 np' = np'
        \<and> np_exec (OFlag SetPrChoke 3) np' = np'
        \<and> open_sockets np' (hd (np_index_queue sample_need)) = open_sockets sample_need (hd (np_index_queue sample_need)))"
  by (rule Empty_keeps_lock) (simp add: sample_need_eq np_ready_def)

end
