(* ===== verification/Down_Speed.thy ===== *)
theory Down_Speed
  imports Peer_Status
begin

text \<open>
  \<open>DownSpeed\<close>: one entry per connection with its flags and the bytes received since the last
  calculation; \<open>CalculateSpeed\<close> sorts them (interested peers first, then the fastest), resets the
  totals and says whom the peer manager is to choke or unchoke. The calls to the peer manager it
  ends with, and the timer that starts it every 10 s, stand in \<open>Peer_Manager\<close>.
\<close>

record speed_entry =
  de_status :: peer_status
  de_socket :: int
  de_total :: int

record down_speed =
  ds_queue :: "speed_entry list"
  ds_lock :: rwlock

definition DownSpeed :: down_speed where
  "DownSpeed = \<lparr>ds_queue = [], ds_lock = lock_idle\<rparr>"

definition DSComp :: "speed_entry \<Rightarrow> speed_entry \<Rightarrow> bool" where
  "DSComp l r =
     (if peer_interested (de_status l) \<and> \<not> peer_interested (de_status r) then True
      else if peer_interested (de_status l) = peer_interested (de_status r) then de_total r < de_total l
      else False)"

section \<open>Operations\<close>

fun adjust_first :: "int \<Rightarrow> (speed_entry \<Rightarrow> speed_entry) \<Rightarrow> speed_entry list \<Rightarrow> speed_entry list" where
  "adjust_first T_socket f [] = []"
| "adjust_first T_socket f (v # q) = (if T_socket = de_socket v then f v # q else v # adjust_first T_socket f q)"

definition DS_AddSocket :: "int \<Rightarrow> down_speed \<Rightarrow> down_speed" where
  "DS_AddSocket T_socket ds =
     (case rwlock_wrlock (ds_lock ds) of None \<Rightarrow> ds
      | Some l \<Rightarrow> ds\<lparr>ds_queue := ds_queue ds @ [\<lparr>de_status = PeerStatus, de_socket = T_socket, de_total = 0\<rparr>],
                    ds_lock := unlock l\<rparr>)"

definition AddTotal :: "int \<Rightarrow> int \<Rightarrow> down_speed \<Rightarrow> down_speed" where
  "AddTotal T_socket T_speed ds =
     (case rwlock_wrlock (ds_lock ds) of None \<Rightarrow> ds
      | Some l \<Rightarrow>
          if ds_queue ds = [] then ds\<lparr>ds_lock := l\<rparr>
          else ds\<lparr>ds_queue := adjust_first T_socket (\<lambda>v. v\<lparr>de_total := u32 (de_total v + T_speed)\<rparr>) (ds_queue ds),
                  ds_lock := unlock l\<rparr>)"

definition AddTotal_list :: "(int \<times> int) list \<Rightarrow> down_speed \<Rightarrow> down_speed" where
  "AddTotal_list T_queue ds = fold (\<lambda>val. AddTotal (fst val) (snd val)) T_queue ds"

fun ret_loop :: "nat \<Rightarrow> speed_entry list \<Rightarrow> int list" where
  "ret_loop cnt [] = []"
| "ret_loop cnt (val # q) =
     (if peer_interested (de_status val)
      then de_socket val # (if 5 = cnt + 1 then [] else ret_loop (cnt + 1) q)
      else if 5 = cnt then [] else ret_loop cnt q)"

definition RetSocket :: "down_speed \<Rightarrow> int list" where
  "RetSocket ds = (case rwlock_rdlock (ds_lock ds) of None \<Rightarrow> [] | Some _ \<Rightarrow> ret_loop 0 (ds_queue ds))"

definition CheckSocket :: "int \<Rightarrow> down_speed \<Rightarrow> bool" where
  "CheckSocket T_socket ds = list_ex (\<lambda>val. T_socket = val) (RetSocket ds)"

fun erase_first :: "int \<Rightarrow> speed_entry list \<Rightarrow> speed_entry list" where
  "erase_first T_socket [] = []"
| "erase_first T_socket (v # q) = (if de_socket v = T_socket then q else v # erase_first T_socket q)"

definition DS_ClearSocket :: "int \<Rightarrow> down_speed \<Rightarrow> down_speed" where
  "DS_ClearSocket T_socket ds =
     (case rwlock_wrlock (ds_lock ds) of None \<Rightarrow> ds
      | Some l \<Rightarrow> ds\<lparr>ds_queue := erase_first T_socket (ds_queue ds), ds_lock := unlock l\<rparr>)"

definition ds_put :: "(peer_status \<Rightarrow> peer_status) \<Rightarrow> int \<Rightarrow> down_speed \<Rightarrow> down_speed" where
  "ds_put f T_socket ds =
     (case rwlock_wrlock (ds_lock ds) of None \<Rightarrow> ds
      | Some l \<Rightarrow> ds\<lparr>ds_queue := adjust_first T_socket (\<lambda>v. v\<lparr>de_status := f (de_status v)\<rparr>) (ds_queue ds),
                    ds_lock := unlock l\<rparr>)"

definition DS_AmChoke :: "int \<Rightarrow> down_speed \<Rightarrow> down_speed" where
  "DS_AmChoke T_socket ds = ds_put (\<lambda>p. p\<lparr>am_choke := True\<rparr>) T_socket ds"

definition DS_AmUnChoke :: "int \<Rightarrow> down_speed \<Rightarrow> down_speed" where
  "DS_AmUnChoke T_socket ds = ds_put (\<lambda>p. p\<lparr>am_choke := False\<rparr>) T_socket ds"

definition DS_AmInterested :: "int \<Rightarrow> down_speed \<Rightarrow> down_speed" where
  "DS_AmInterested T_socket ds = ds_put (\<lambda>p. p\<lparr>am_interested := True\<rparr>) T_socket ds"

definition DS_AmUnInterested :: "int \<Rightarrow> down_speed \<Rightarrow> down_speed" where
  "DS_AmUnInterested T_socket ds = ds_put (\<lambda>p. p\<lparr>am_interested := False\<rparr>) T_socket ds"

definition DS_PrChoke :: "int \<Rightarrow> down_speed \<Rightarrow> down_speed" where
  "DS_PrChoke T_socket ds = ds_put (\<lambda>p. p\<lparr>peer_choke := True\<rparr>) T_socket ds"

definition DS_PrUnChoke :: "int \<Rightarrow> down_speed \<Rightarrow> down_speed" where
  "DS_PrUnChoke T_socket ds = ds_put (\<lambda>p. p\<lparr>peer_choke := False\<rparr>) T_socket ds"

definition DS_PrInterested :: "int \<Rightarrow> down_speed \<Rightarrow> down_speed" where
  "DS_PrInterested T_socket ds = ds_put (\<lambda>p. p\<lparr>peer_interested := True\<rparr>) T_socket ds"

definition DS_PrUnInterested :: "int \<Rightarrow> down_speed \<Rightarrow> down_speed" where
  "DS_PrUnInterested T_socket ds = ds_put (\<lambda>p. p\<lparr>peer_interested := False\<rparr>) T_socket ds"

text \<open>The loop over the sorted queue: the speed, what to do with each socket (\<open>True\<close> is choke), the queue.\<close>

fun calc_loop :: "int \<Rightarrow> int \<Rightarrow> speed_entry list \<Rightarrow> int \<times> (bool \<times> int) list \<times> speed_entry list" where
  "calc_loop speed unchoke_count [] = (speed, [], [])"
| "calc_loop speed unchoke_count (val # q) =
     (let (unchoke_count', r) =
            (if peer_interested (de_status val) \<and> 0 < unchoke_count
             then (unchoke_count - 1, (False, de_socket val))
             else (unchoke_count, (False, de_socket val)));
          (speed', rs, q') = calc_loop (u32 (speed + de_total val)) unchoke_count' q
      in (speed', r # rs, val\<lparr>de_total := 0\<rparr> # q'))"

definition CalculateSpeed :: "down_speed \<Rightarrow> int \<times> (bool \<times> int) list \<times> down_speed" where
  "CalculateSpeed ds =
     (case rwlock_wrlock (ds_lock ds) of None \<Rightarrow> (0, [], ds)
      | Some l \<Rightarrow>
          let (speed, result, q) = calc_loop 0 4 (list_sort DSComp (ds_queue ds))
          in (speed, result, ds\<lparr>ds_queue := q, ds_lock := unlock l\<rparr>))"

definition DS_Clear :: "down_speed \<Rightarrow> down_speed" where
  "DS_Clear ds = ds\<lparr>ds_lock := rwlock_destroy (ds_lock ds), ds_queue := []\<rparr>"

section \<open>Lemmas\<close>

interpretation ds_order: strict_weak_order DSComp
  by unfold_locales (auto simp: DSComp_def split: if_splits)

fun find_first :: "int \<Rightarrow> speed_entry list \<Rightarrow> speed_entry option" where
  "find_first s [] = None"
| "find_first s (v # q) = (if de_socket v = s then Some v else find_first s q)"

definition ds_ready :: "down_speed \<Rightarrow> bool" where
  "ds_ready ds \<longleftrightarrow> ds_lock ds = lock_idle"

definition ds_status :: "down_speed \<Rightarrow> int \<Rightarrow> peer_status option" where
  "ds_status ds s = map_option de_status (find_first s (ds_queue ds))"

lemma find_first_adjust:
  "(\<And>v. de_socket (f v) = de_socket v) \<Longrightarrow>
    find_first t (adjust_first s f q) = (if t = s then map_option f (find_first s q) else find_first t q)"
  by (induction q) auto

interpretation ds_store: status_store ds_ready ds_status ds_put
  by unfold_locales (auto simp: ds_ready_def ds_put_def ds_status_def find_first_adjust option.map_comp comp_def)

lemma ret_loop_take: "cnt < 5 \<Longrightarrow>
    ret_loop cnt q = map de_socket (take (5 - cnt) (filter (\<lambda>v. peer_interested (de_status v)) q))"
  by (induction q arbitrary: cnt) (auto simp: take_Cons' Suc_diff_Suc)

lemma calc_loop_result: "fst (snd (calc_loop s c q)) = map (\<lambda>v. (False, de_socket v)) q"
  by (induction q arbitrary: s c) (auto simp: Let_def split: prod.splits, (metis fst_conv snd_conv)+)

lemma calc_loop_queue: "snd (snd (calc_loop s c q)) = map (\<lambda>v. v\<lparr>de_total := 0\<rparr>) q"
  by (induction q arbitrary: s c) (auto simp: Let_def split: prod.splits, (metis snd_conv)+)

lemma calc_loop_speed: "u32 s = s \<Longrightarrow> fst (calc_loop s c q) = u32 (s + sum_list (map de_total q))"
proof (induction q arbitrary: s c)
  case (Cons v q)
  have "u32 (u32 (s + de_total v) + x) = u32 (s + (de_total v + x))" for x
    by (simp add: u32_def mod_simps add.assoc)
  moreover have "u32 (u32 x) = u32 x" for x by (simp add: u32_def)
  ultimately show ?case using Cons.IH [of "u32 (s + de_total v)"]
    by (auto simp: Let_def split: prod.splits) (metis fst_conv)+
qed simp

lemma CalculateSpeed_ready:
  "ds_ready ds \<Longrightarrow> CalculateSpeed ds =
     (u32 (sum_list (map de_total (ds_queue ds))), map (\<lambda>v. (False, de_socket v)) (list_sort DSComp (ds_queue ds)),
      ds\<lparr>ds_queue := map (\<lambda>v. v\<lparr>de_total := 0\<rparr>) (list_sort DSComp (ds_queue ds))\<rparr>)"
proof -
  assume r: "ds_ready ds"
  let ?q = "list_sort DSComp (ds_queue ds)"
  have "u32 0 = 0" by (simp add: u32_def)
  then have "calc_loop 0 4 ?q = (u32 (sum_list (map de_total ?q)), map (\<lambda>v. (False, de_socket v)) ?q, map (\<lambda>v. v\<lparr>de_total := 0\<rparr>) ?q)"
    using calc_loop_result [of 0 4 ?q] calc_loop_queue [of 0 4 ?q] calc_loop_speed [of 0 4 ?q]
    by (metis add_0 prod.collapse)
  moreover have "sum_list (map de_total ?q) = sum_list (map de_total (ds_queue ds))"
    by (metis mset_list_sort mset_map sum_mset_sum_list)
  ultimately show ?thesis using r by (simp add: CalculateSpeed_def ds_ready_def)
qed

abbreviation interested_entry :: "speed_entry \<Rightarrow> bool" where
  "interested_entry v \<equiv> peer_interested (de_status v)"

lemma sorted_interested:
  "sorted_wrt (\<lambda>x y. de_total y \<le> de_total x) (filter interested_entry (list_sort DSComp q))"
proof -
  have "sorted_wrt (\<lambda>x y. \<not> DSComp y x) (filter interested_entry (list_sort DSComp q))"
    by (rule sorted_wrt_filter [OF ds_order.sort_sorted])
  then show ?thesis by (rule sorted_wrt_mono_rel [rotated]) (auto simp: DSComp_def not_less)
qed

lemma filter_reset: "filter interested_entry (map (\<lambda>v. v\<lparr>de_total := 0\<rparr>) q) = map (\<lambda>v. v\<lparr>de_total := 0\<rparr>) (filter interested_entry q)"
  by (induction q) auto

section \<open>Properties\<close>

text \<open>After \<open>CalculateSpeed\<close>, \<open>RetSocket\<close> returns the connections of (at most) five interested peers, and no
  other interested peer delivered more in the period than one of these.\<close>

theorem RetSocket_fastest:
  assumes "ds_ready ds" and "CalculateSpeed ds = (speed, result, ds')"
  shows "\<exists>sel rest. mset (sel @ rest) = mset (filter interested_entry (ds_queue ds))
    \<and> RetSocket ds' = map de_socket sel \<and> length sel = min 5 (length (filter interested_entry (ds_queue ds)))
    \<and> (\<forall>a \<in> set sel. \<forall>b \<in> set rest. de_total b \<le> de_total a)"
proof -
  let ?q = "filter interested_entry (list_sort DSComp (ds_queue ds))"
  have m: "mset ?q = mset (filter interested_entry (ds_queue ds))" by simp
  have "ds' = ds\<lparr>ds_queue := map (\<lambda>v. v\<lparr>de_total := 0\<rparr>) (list_sort DSComp (ds_queue ds))\<rparr>"
    using assms by (simp add: CalculateSpeed_ready)
  then have "RetSocket ds' = map de_socket (take 5 ?q)"
    using assms(1) by (simp add: RetSocket_def ds_ready_def ret_loop_take filter_reset take_map comp_def)
  moreover have "sorted_wrt (\<lambda>x y. de_total y \<le> de_total x) (take 5 ?q @ drop 5 ?q)"
    using sorted_interested by simp
  then have "\<forall>a \<in> set (take 5 ?q). \<forall>b \<in> set (drop 5 ?q). de_total b \<le> de_total a"
    unfolding sorted_wrt_append by blast
  moreover have "length (take 5 ?q) = min 5 (length (filter interested_entry (ds_queue ds)))"
    using mset_eq_length [OF m] by simp
  ultimately show ?thesis
    using m by (intro exI [of _ "take 5 ?q"] exI [of _ "drop 5 ?q"]) simp
qed

text \<open>Three connections; the peers of 11 and 12 are interested, that of 12 is the faster one.\<close>

definition sample_speed :: down_speed where
  "sample_speed = AddTotal_list [(10, 900), (11, 500), (12, 700)]
     (DS_PrInterested 12 (DS_PrInterested 11 (DS_AddSocket 12 (DS_AddSocket 11 (DS_AddSocket 10 DownSpeed)))))"

lemma sample_speed_eq: "sample_speed = \<lparr>ds_queue =
    [\<lparr>de_status = PeerStatus, de_socket = 10, de_total = 900\<rparr>,
     \<lparr>de_status = PeerStatus\<lparr>peer_interested := True\<rparr>, de_socket = 11, de_total = 500\<rparr>,
     \<lparr>de_status = PeerStatus\<lparr>peer_interested := True\<rparr>, de_socket = 12, de_total = 700\<rparr>], ds_lock = lock_idle\<rparr>"
  by (simp add: sample_speed_def DownSpeed_def DS_AddSocket_def DS_PrInterested_def ds_put_def AddTotal_list_def
      AddTotal_def u32_def)

lemma sample_speed_ready: "ds_ready sample_speed"
  by (simp add: sample_speed_eq ds_ready_def)

theorem RetSocket_fastest_witness:
  "\<exists>sel rest. mset (sel @ rest) = mset (filter interested_entry (ds_queue sample_speed))
    \<and> RetSocket (snd (snd (CalculateSpeed sample_speed))) = map de_socket sel
    \<and> length sel = min 5 (length (filter interested_entry (ds_queue sample_speed)))
    \<and> (\<forall>a \<in> set sel. \<forall>b \<in> set rest. de_total b \<le> de_total a)"
  by (rule RetSocket_fastest [OF sample_speed_ready, of "fst (CalculateSpeed sample_speed)"
        "fst (snd (CalculateSpeed sample_speed))"]) simp

text \<open>\<open>CalculateSpeed\<close> adds up the bytes of the period modulo $2^{32}$, resets every total, keeps every
  connection with its flags, and asks to unchoke every one of them, however many there are and whether
  or not their peers are interested: the four unchoke slots it counts are never enforced.\<close>

theorem CalculateSpeed_unchokes_all:
  assumes "ds_ready ds" and "CalculateSpeed ds = (speed, result, ds')"
  shows "speed = u32 (sum_list (map de_total (ds_queue ds)))
    \<and> mset result = mset (map (\<lambda>v. (False, de_socket v)) (ds_queue ds))
    \<and> mset (ds_queue ds') = mset (map (\<lambda>v. v\<lparr>de_total := 0\<rparr>) (ds_queue ds)) \<and> ds_ready ds'"
  using assms by (auto simp: CalculateSpeed_ready) (auto simp: ds_ready_def)

theorem CalculateSpeed_unchokes_all_witness:
  "fst (CalculateSpeed sample_speed) = u32 (sum_list (map de_total (ds_queue sample_speed)))
    \<and> mset (fst (snd (CalculateSpeed sample_speed))) = mset (map (\<lambda>v. (False, de_socket v)) (ds_queue sample_speed))"
  using CalculateSpeed_unchokes_all [OF sample_speed_ready, of "fst (CalculateSpeed sample_speed)"
      "fst (snd (CalculateSpeed sample_speed))" "snd (snd (CalculateSpeed sample_speed))"] by simp

text \<open>\<open>AddTotal\<close> counts bytes (modulo $2^{32}$) for the first entry of its socket only; called while there is
  no connection, it returns with the write lock held, and from then on connections can be neither
  added nor removed nor counted and \<open>RetSocket\<close> is empty.\<close>

theorem AddTotal_counts_or_locks:
  assumes "ds_ready ds"
  shows "if ds_queue ds = []
    then (let ds' = AddTotal s n ds in lk_writer (ds_lock ds') \<and> DS_AddSocket t ds' = ds' \<and> DS_ClearSocket t ds' = ds'
        \<and> AddTotal t m ds' = ds' \<and> RetSocket ds' = [])
    else find_first t (ds_queue (AddTotal s n ds))
        = (if t = s then map_option (\<lambda>v. v\<lparr>de_total := u32 (de_total v + n)\<rparr>) (find_first t (ds_queue ds))
           else find_first t (ds_queue ds))"
proof (cases "ds_queue ds = []")
  case True
  then have ds': "AddTotal s n ds = ds\<lparr>ds_lock := lock_idle\<lparr>lk_writer := True\<rparr>\<rparr>"
    using assms by (simp add: AddTotal_def ds_ready_def)
  show ?thesis
    using True held_refuses [of "lock_idle\<lparr>lk_writer := True\<rparr>"]
    by (simp add: ds' Let_def DS_AddSocket_def DS_ClearSocket_def RetSocket_def) (simp add: AddTotal_def)
next
  case False
  then show ?thesis using assms by (simp add: AddTotal_def ds_ready_def find_first_adjust)
qed

theorem AddTotal_counts_or_locks_witness:
  "lk_writer (ds_lock (AddTotal 5 100 DownSpeed)) \<and> find_first 11 (ds_queue (AddTotal 11 7 sample_speed))
    = map_option (\<lambda>v. v\<lparr>de_total := u32 (de_total v + 7)\<rparr>) (find_first 11 (ds_queue sample_speed))"
  using AddTotal_counts_or_locks [of DownSpeed 5 100 5 0] AddTotal_counts_or_locks [OF sample_speed_ready, of 11 7 11 0]
  by (simp add: Let_def DownSpeed_def ds_ready_def) (simp add: sample_speed_eq)

end
