(* ===== verification/Peer_Manager.thy ===== *)
theory Peer_Manager
  imports Bit_Memory Need_Piece Down_Speed
begin

text \<open>
  \<open>PeerManager\<close> and the calls between the singletons: the state of all of them is one record
  \<open>client\<close>, with the messages sent and the sockets closed so far. \<open>env\<close> is what the operating system
  says during one operation: the time (read once), the clock in microseconds and what \<open>send\<close> returns
  for a message. \<open>LocalBitField\<close> (the client's own \<open>BitField\<close> and its calls to the others) and the
  parts of \<open>NeedPiece\<close>, \<open>DownSpeed\<close> and \<open>BitMemory\<close> that call other singletons stand here too.
  The mutex of a socket only orders the sends of one connection and has no state here. The hash table
  of the peers is walked in the order of the list that models it; no theorem depends on that order.
\<close>

record peer_entry =
  pe_status :: peer_status
  pe_id :: int
  pe_expire :: int

record peer_manager =
  pm_list :: "(int, peer_entry) table"
  pm_cur_id :: int
  pm_lock :: rwlock
  pm_socket_num :: int

record client =
  cl_peers :: peer_manager
  cl_need :: need_piece
  cl_speed :: down_speed
  cl_bits :: bitfield
  cl_memory :: bit_memory
  cl_written :: "written list"
  cl_sent :: "(int \<times> byte list) list"
  cl_closed :: "int list"

record env =
  ev_now :: int
  ev_us :: int
  ev_send :: "int \<Rightarrow> byte list \<Rightarrow> int"

definition PeerEntry :: peer_entry where
  "PeerEntry = \<lparr>pe_status = PeerStatus, pe_id = 0, pe_expire = 0\<rparr>"

text \<open>\<open>socket_num\<close> is not initialised: the constructor is given what the memory held.\<close>

definition PeerManager :: "int \<Rightarrow> peer_manager" where
  "PeerManager junk = \<lparr>pm_list = [], pm_cur_id = 0, pm_lock = lock_idle, pm_socket_num = junk\<rparr>"

definition PEERPIECETIME :: int where
  "PEERPIECETIME = 30"

definition PEERKEEPALIVETIME :: int where
  "PEERKEEPALIVETIME = 30"

definition send_to :: "int \<Rightarrow> byte list \<Rightarrow> client \<Rightarrow> client" where
  "send_to s bs cl = cl\<lparr>cl_sent := cl_sent cl @ [(s, bs)]\<rparr>"

definition close_fd :: "int \<Rightarrow> client \<Rightarrow> client" where
  "close_fd s cl = cl\<lparr>cl_closed := cl_closed cl @ [s]\<rparr>"

text \<open>What the holder \<open>l\<close> of the lock leaves: a new list and the lock released.\<close>

definition pm_leave :: "rwlock \<Rightarrow> ((int, peer_entry) table \<Rightarrow> (int, peer_entry) table) \<Rightarrow> client \<Rightarrow> client" where
  "pm_leave l f cl = cl\<lparr>cl_peers := (cl_peers cl)\<lparr>pm_list := f (pm_list (cl_peers cl)), pm_lock := unlock l\<rparr>\<rparr>"

section \<open>Sockets\<close>

definition PM_RetSocketList :: "client \<Rightarrow> int list" where
  "PM_RetSocketList cl =
     (case rwlock_rdlock (pm_lock (cl_peers cl)) of None \<Rightarrow> []
      | Some _ \<Rightarrow> map fst (filter (\<lambda>val. 0 \<le> fst val \<and> \<not> recv_piece (pe_status (snd val))) (pm_list (cl_peers cl))))"

definition PM_RetSocketSize :: "client \<Rightarrow> int" where
  "PM_RetSocketSize cl =
     (case rwlock_rdlock (pm_lock (cl_peers cl)) of None \<Rightarrow> 0 | Some _ \<Rightarrow> int (length (pm_list (cl_peers cl))))"

definition PM_AddSocket :: "int \<Rightarrow> client \<Rightarrow> client" where
  "PM_AddSocket T_socket cl =
     (if 0 \<le> T_socket
      then (case rwlock_wrlock (pm_lock (cl_peers cl)) of None \<Rightarrow> cl
          | Some l \<Rightarrow>
              let pm = cl_peers cl; temp_id = pm_cur_id pm;
                  cl = cl\<lparr>cl_peers := pm\<lparr>pm_socket_num := u32 (pm_socket_num pm + 1), pm_cur_id := i32 (temp_id + 1),
                      pm_list := templace T_socket (PeerEntry\<lparr>pe_id := temp_id\<rparr>) (pm_list pm), pm_lock := unlock l\<rparr>\<rparr>
              in cl\<lparr>cl_speed := DS_AddSocket T_socket (cl_speed cl), cl_need := SocketMapId temp_id (cl_need cl)\<rparr>)
      else cl)"

definition PM_CloseSocket :: "int \<Rightarrow> client \<Rightarrow> client" where
  "PM_CloseSocket T_socket cl =
     (case rwlock_wrlock (pm_lock (cl_peers cl)) of None \<Rightarrow> cl
      | Some l \<Rightarrow>
          let pm = cl_peers cl in
          (case tfind (pm_list pm) T_socket of
             Some result \<Rightarrow>
               let cl = close_fd T_socket (cl\<lparr>cl_peers := pm\<lparr>pm_socket_num := u32 (pm_socket_num pm - 1),
                          pm_list := terase T_socket (pm_list pm), pm_lock := unlock l\<rparr>\<rparr>)
               in cl\<lparr>cl_speed := DS_ClearSocket T_socket (cl_speed cl), cl_need := NP_ClearSocket (pe_id result) (cl_need cl)\<rparr>
           | None \<Rightarrow> pm_leave l id cl))"

text \<open>Whether \<open>GetSocketMutex\<close> returns a mutex.\<close>

definition GetSocketMutex :: "client \<Rightarrow> int \<Rightarrow> bool" where
  "GetSocketMutex cl T_socket =
     (case rwlock_rdlock (pm_lock (cl_peers cl)) of None \<Rightarrow> False
      | Some _ \<Rightarrow> tfind (pm_list (cl_peers cl)) T_socket \<noteq> None)"

definition GetSocketId :: "client \<Rightarrow> int \<Rightarrow> int" where
  "GetSocketId cl T_socket =
     (case rwlock_rdlock (pm_lock (cl_peers cl)) of None \<Rightarrow> - 1
      | Some _ \<Rightarrow> (case tfind (pm_list (cl_peers cl)) T_socket of None \<Rightarrow> - 1 | Some e \<Rightarrow> pe_id e))"

definition PM_SendHave :: "env \<Rightarrow> int \<Rightarrow> client \<Rightarrow> client" where
  "PM_SendHave ev T_index cl =
     (if T_index < 0 then cl
      else (case rwlock_rdlock (pm_lock (cl_peers cl)) of None \<Rightarrow> cl
          | Some l \<Rightarrow>
              let have_msg = Have_SetParameter T_index Have; socks = map fst (pm_list (cl_peers cl));
                  del_sockets = filter (\<lambda>s. ev_send ev s have_msg = - 1 \<or> ev_send ev s have_msg \<noteq> int (length have_msg)) socks
              in fold PM_CloseSocket del_sockets (fold (\<lambda>s. send_to s have_msg) socks cl)))"

section \<open>The requests of a connection\<close>

definition set_entry :: "int \<Rightarrow> (peer_entry \<Rightarrow> peer_entry) \<Rightarrow> (int, peer_entry) table \<Rightarrow> (int, peer_entry) table" where
  "set_entry T_socket f t = tadjust T_socket f t"

definition set_status :: "(peer_status \<Rightarrow> peer_status) \<Rightarrow> peer_entry \<Rightarrow> peer_entry" where
  "set_status f e = e\<lparr>pe_status := f (pe_status e)\<rparr>"

definition ReqPiece :: "env \<Rightarrow> int \<Rightarrow> client \<Rightarrow> bool \<times> client" where
  "ReqPiece ev T_socket cl =
     (if T_socket < 0 then (False, cl)
      else (case rwlock_wrlock (pm_lock (cl_peers cl)) of None \<Rightarrow> (False, cl)
          | Some l \<Rightarrow>
              (case tfind (pm_list (cl_peers cl)) T_socket of None \<Rightarrow> (False, pm_leave l id cl)
               | Some e \<Rightarrow>
                   if request_piece (pe_status e)
                   then (if \<not> recv_piece (pe_status e)
                         then (if PEERPIECETIME \<le> ev_now ev - pe_expire e
                               then (True, pm_leave l (set_entry T_socket (\<lambda>e. e\<lparr>pe_expire := u32 (ev_now ev)\<rparr>)) cl)
                               else (False, pm_leave l id cl))
                         else (False, pm_leave l id cl))
                   else (True, pm_leave l (set_entry T_socket (\<lambda>e. (set_status (\<lambda>p. p\<lparr>request_piece := True\<rparr>) e)
                           \<lparr>pe_expire := u32 (ev_now ev)\<rparr>)) cl))))"

definition RecvPiece :: "int \<Rightarrow> client \<Rightarrow> bool \<times> client" where
  "RecvPiece T_socket cl =
     (if T_socket < 0 then (False, cl)
      else (case rwlock_wrlock (pm_lock (cl_peers cl)) of None \<Rightarrow> (False, cl)
          | Some l \<Rightarrow>
              (case tfind (pm_list (cl_peers cl)) T_socket of None \<Rightarrow> (False, pm_leave l id cl)
               | Some e \<Rightarrow>
                   if \<not> recv_piece (pe_status e)
                   then (True, pm_leave l (set_entry T_socket (set_status (\<lambda>p. p\<lparr>recv_piece := True\<rparr>))) cl)
                   else (False, pm_leave l id cl))))"

definition ClearPieceStatus :: "int \<Rightarrow> client \<Rightarrow> client" where
  "ClearPieceStatus T_socket cl =
     (if T_socket < 0 then cl
      else (case rwlock_wrlock (pm_lock (cl_peers cl)) of None \<Rightarrow> cl
          | Some l \<Rightarrow> pm_leave l (if tfind (pm_list (cl_peers cl)) T_socket \<noteq> None
              then set_entry T_socket (\<lambda>e. (set_status (\<lambda>p. p\<lparr>request_piece := False, recv_piece := False\<rparr>) e)\<lparr>pe_expire := 0\<rparr>)
              else id) cl))"

definition UpdateExpire :: "env \<Rightarrow> int \<Rightarrow> client \<Rightarrow> client" where
  "UpdateExpire ev T_socket cl =
     (if T_socket < 0 then cl
      else (case rwlock_wrlock (pm_lock (cl_peers cl)) of None \<Rightarrow> cl
          | Some l \<Rightarrow> pm_leave l (if tfind (pm_list (cl_peers cl)) T_socket \<noteq> None
              then set_entry T_socket (\<lambda>e. e\<lparr>pe_expire := u32 (ev_now ev)\<rparr>) else id) cl))"

text \<open>The body of the loop of \<open>NeedPiece::SendReq\<close>, and \<open>SendReq\<close>.\<close>

definition send_req :: "env \<Rightarrow> byte list \<Rightarrow> int \<Rightarrow> client \<Rightarrow> client" where
  "send_req ev request fd cl =
     (let (ok, cl) = ReqPiece ev fd cl
      in if \<not> ok then cl else if \<not> GetSocketMutex cl fd then cl else send_to fd request cl)"

definition SendReq :: "env \<Rightarrow> client \<Rightarrow> client" where
  "SendReq ev cl =
     (let ((index, fds), np) = PopNeed (ev_now ev) (GameEnd (cl_bits cl)) (cl_need cl);
          cl = cl\<lparr>cl_need := np\<rparr>
      in if fds = [] then cl
         else fold (send_req ev (ReqCleBase_SetParameter index 0 SLICESIZE Request)) fds cl)"

definition NP_PrUnChoke :: "env \<Rightarrow> int \<Rightarrow> client \<Rightarrow> client" where
  "NP_PrUnChoke ev T_id cl =
     (let (call, np) = NP_PrUnChoke_flag T_id (cl_need cl); cl = cl\<lparr>cl_need := np\<rparr>
      in if call then SendReq ev cl else cl)"

section \<open>The flags of a connection\<close>

text \<open>
  The four operations on the client's own flags have one body: nothing happens when the flag is already
  as wanted (\<open>already\<close>); otherwise it is set in the three components and the peer is told.
\<close>

definition am_body :: "(peer_status \<Rightarrow> bool) \<Rightarrow> (peer_status \<Rightarrow> peer_status) \<Rightarrow> (int \<Rightarrow> need_piece \<Rightarrow> need_piece)
    \<Rightarrow> (int \<Rightarrow> down_speed \<Rightarrow> down_speed) \<Rightarrow> byte list \<Rightarrow> int \<Rightarrow> client \<Rightarrow> client" where
  "am_body already f np_f ds_f msg T_socket cl =
     (case rwlock_wrlock (pm_lock (cl_peers cl)) of None \<Rightarrow> cl
      | Some l \<Rightarrow>
          (case tfind (pm_list (cl_peers cl)) T_socket of None \<Rightarrow> pm_leave l id cl
           | Some e \<Rightarrow>
               if already (pe_status e) then pm_leave l id cl
               else let cl = pm_leave l (set_entry T_socket (set_status f)) cl;
                        cl = cl\<lparr>cl_need := np_f (pe_id e) (cl_need cl)\<rparr>;
                        cl = cl\<lparr>cl_speed := ds_f T_socket (cl_speed cl)\<rparr>
                    in send_to T_socket msg cl))"

definition PM_AmChoke :: "int \<Rightarrow> client \<Rightarrow> client" where
  "PM_AmChoke = am_body am_choke (\<lambda>p. p\<lparr>am_choke := True\<rparr>) NP_AmChoke DS_AmChoke Choke"

definition PM_AmUnChoke :: "int \<Rightarrow> client \<Rightarrow> client" where
  "PM_AmUnChoke = am_body (\<lambda>p. \<not> am_choke p) (\<lambda>p. p\<lparr>am_choke := False\<rparr>) NP_AmUnChoke DS_AmUnChoke UnChoke"

definition PM_AmInterested :: "int \<Rightarrow> client \<Rightarrow> client" where
  "PM_AmInterested = am_body am_interested (\<lambda>p. p\<lparr>am_interested := True\<rparr>) NP_AmInterested DS_AmInterested Interested"

definition PM_AmUnInterested :: "int \<Rightarrow> client \<Rightarrow> client" where
  "PM_AmUnInterested = am_body (\<lambda>p. \<not> am_interested p) (\<lambda>p. p\<lparr>am_interested := False\<rparr>) NP_AmUnInterested
     DS_AmUnInterested UnInterested"

text \<open>The four operations on the peer's flags: \<open>np_f\<close> is what \<open>NeedPiece\<close> does.\<close>

definition pr_body :: "(peer_status \<Rightarrow> peer_status) \<Rightarrow> (int \<Rightarrow> client \<Rightarrow> client)
    \<Rightarrow> (int \<Rightarrow> down_speed \<Rightarrow> down_speed) \<Rightarrow> int \<Rightarrow> client \<Rightarrow> client" where
  "pr_body f np_f ds_f T_socket cl =
     (case rwlock_wrlock (pm_lock (cl_peers cl)) of None \<Rightarrow> cl
      | Some l \<Rightarrow>
          (case tfind (pm_list (cl_peers cl)) T_socket of None \<Rightarrow> pm_leave l id cl
           | Some e \<Rightarrow>
               let cl = np_f (pe_id e) (pm_leave l (set_entry T_socket (set_status f)) cl)
               in cl\<lparr>cl_speed := ds_f T_socket (cl_speed cl)\<rparr>))"

definition PM_PrChoke :: "int \<Rightarrow> client \<Rightarrow> client" where
  "PM_PrChoke = pr_body (\<lambda>p. p\<lparr>peer_choke := True\<rparr>) (\<lambda>d cl. cl\<lparr>cl_need := NP_PrChoke d (cl_need cl)\<rparr>) DS_PrChoke"

definition PM_PrUnChoke :: "env \<Rightarrow> int \<Rightarrow> client \<Rightarrow> client" where
  "PM_PrUnChoke ev = pr_body (\<lambda>p. p\<lparr>peer_choke := False\<rparr>) (NP_PrUnChoke ev) DS_PrUnChoke"

definition PM_PrInterested :: "int \<Rightarrow> client \<Rightarrow> client" where
  "PM_PrInterested = pr_body (\<lambda>p. p\<lparr>peer_interested := True\<rparr>)
     (\<lambda>d cl. cl\<lparr>cl_need := NP_PrInterested d (cl_need cl)\<rparr>) DS_PrInterested"

definition PM_PrUnInterested :: "int \<Rightarrow> client \<Rightarrow> client" where
  "PM_PrUnInterested = pr_body (\<lambda>p. p\<lparr>peer_interested := False\<rparr>)
     (\<lambda>d cl. cl\<lparr>cl_need := NP_PrUnInterested d (cl_need cl)\<rparr>) DS_PrUnInterested"

section \<open>The timers\<close>

text \<open>
  The loop of \<open>Optimistic\<close>, which runs under the lock: the sockets to close and the client. The peer it
  decides to unchoke ends the loop.
\<close>

fun optimistic_loop :: "env \<Rightarrow> int \<Rightarrow> (int \<times> peer_entry) list \<Rightarrow> client \<Rightarrow> int list \<times> client" where
  "optimistic_loop ev optimistic [] cl = ([], cl)"
| "optimistic_loop ev optimistic ((s, e) # es) cl =
     (let optimistic' = (if am_choke (pe_status e) then optimistic - 1 else optimistic)
      in if am_choke (pe_status e) \<and> optimistic' \<le> 0
         then let pm = cl_peers cl;
                  cl = cl\<lparr>cl_peers := pm\<lparr>pm_list := set_entry s (set_status (\<lambda>p. p\<lparr>am_choke := False\<rparr>)) (pm_list pm)\<rparr>,
                         cl_need := NP_AmUnChoke (pe_id e) (cl_need cl), cl_speed := DS_AmUnChoke s (cl_speed cl)\<rparr>
              in ([], send_to s UnChoke cl)
         else if PEERKEEPALIVETIME \<le> ev_now ev - pe_expire e
         then (case optimistic_loop ev optimistic' es cl of (del, cl) \<Rightarrow> (s # del, cl))
         else case optimistic_loop ev optimistic' es (send_to s KeepAlive cl) of (del, cl) \<Rightarrow>
              (if ev_send ev s KeepAlive \<noteq> int (length KeepAlive) then s # del else del, cl))"

definition Optimistic :: "env \<Rightarrow> client \<Rightarrow> client" where
  "Optimistic ev cl =
     (case rwlock_wrlock (pm_lock (cl_peers cl)) of None \<Rightarrow> cl
      | Some l \<Rightarrow>
          let n = int (length (pm_list (cl_peers cl))) - 4; num = (if n \<le> 0 then 1 else n);
              (del_socket, cl) = optimistic_loop ev (ev_us ev mod num) (pm_list (cl_peers cl))
                 (cl\<lparr>cl_peers := (cl_peers cl)\<lparr>pm_lock := l\<rparr>\<rparr>)
          in fold PM_CloseSocket del_socket (pm_leave l id cl))"

text \<open>\<open>DownSpeed::CalculateSpeed\<close>, its calls to the peer manager included.\<close>

definition PM_CalculateSpeed :: "client \<Rightarrow> client" where
  "PM_CalculateSpeed cl =
     (let (speed, result, ds) = CalculateSpeed (cl_speed cl)
      in fold (\<lambda>val. if fst val then PM_AmChoke (snd val) else PM_AmUnChoke (snd val)) result (cl\<lparr>cl_speed := ds\<rparr>))"

definition PM_Clear :: "client \<Rightarrow> client" where
  "PM_Clear cl =
     (let pm = cl_peers cl
      in (fold close_fd (filter (\<lambda>s. 0 \<le> s) (map fst (pm_list pm))) cl)
           \<lparr>cl_peers := pm\<lparr>pm_lock := rwlock_destroy (pm_lock pm), pm_list := []\<rparr>\<rparr>)"

section \<open>Lemmas: the three copies of the flags\<close>

definition peers :: "client \<Rightarrow> int \<Rightarrow> peer_entry option" where
  "peers cl s = tfind (pm_list (cl_peers cl)) s"

definition pm_ready :: "client \<Rightarrow> bool" where
  "pm_ready cl \<longleftrightarrow> pm_lock (cl_peers cl) = lock_idle"

definition pm_put :: "(peer_status \<Rightarrow> peer_status) \<Rightarrow> int \<Rightarrow> client \<Rightarrow> client" where
  "pm_put f s cl = pm_leave (lock_idle\<lparr>lk_writer := True\<rparr>) (set_entry s (set_status f)) cl"

interpretation pm_status: status_store pm_ready "\<lambda>cl s. map_option pe_status (peers cl s)" pm_put
  by unfold_locales (auto simp: pm_ready_def pm_put_def pm_leave_def peers_def set_entry_def set_status_def
    option.map_comp comp_def)

text \<open>
  The views of the components: the peers by socket \<open>L\<close>, the statuses of \<open>NeedPiece\<close> by id \<open>N\<close>, those of
  \<open>DownSpeed\<close> by socket \<open>D\<close>, and the next id. They agree when every peer has both copies with the same
  flags, no two peers share an id and nothing else has a status.
\<close>

definition copied :: "peer_status \<Rightarrow> peer_status option \<Rightarrow> bool" where
  "copied st q \<longleftrightarrow> (\<exists>st'. q = Some st' \<and> same_flags st st')"

definition agree :: "(int \<Rightarrow> peer_entry option) \<Rightarrow> (int \<Rightarrow> peer_status option) \<Rightarrow> (int \<Rightarrow> peer_status option) \<Rightarrow> int \<Rightarrow> bool" where
  "agree L N D c \<longleftrightarrow>
     (\<forall>s e. L s = Some e \<longrightarrow> 0 \<le> s \<and> 0 \<le> pe_id e \<and> pe_id e < c
        \<and> copied (pe_status e) (N (pe_id e)) \<and> copied (pe_status e) (D s))
     \<and> (\<forall>s e s' e'. L s = Some e \<longrightarrow> L s' = Some e' \<longrightarrow> pe_id e = pe_id e' \<longrightarrow> s = s')
     \<and> (\<forall>d. N d \<noteq> None \<longrightarrow> (\<exists>s e. L s = Some e \<and> pe_id e = d)) \<and> (\<forall>s. D s \<noteq> None \<longrightarrow> L s \<noteq> None) \<and> 0 \<le> c"

lemma copied_flag: "copied st q \<Longrightarrow> copied (set_flag x st) (map_option (set_flag x) q)"
  by (auto simp: copied_def same_flags_set)

lemma copied_same: "copied st q \<Longrightarrow> same_flags st' st \<Longrightarrow> copied st' q"
  by (auto simp: copied_def intro: same_flags_trans)

lemma agreeD:
  assumes "agree L N D c" and "L s = Some e"
  shows "0 \<le> s" "0 \<le> pe_id e" "pe_id e < c" "copied (pe_status e) (N (pe_id e))" "copied (pe_status e) (D s)"
  using assms unfolding agree_def by blast+

lemma agree_inj: "agree L N D c \<Longrightarrow> L s = Some e \<Longrightarrow> L s' = Some e' \<Longrightarrow> pe_id e = pe_id e' \<Longrightarrow> s = s'"
  unfolding agree_def by blast

lemma agree_owner: "agree L N D c \<Longrightarrow> N d \<noteq> None \<Longrightarrow> \<exists>s e. L s = Some e \<and> pe_id e = d"
  unfolding agree_def by blast

lemma agree_socket: "agree L N D c \<Longrightarrow> L s = None \<Longrightarrow> D s = None"
  unfolding agree_def by blast

text \<open>An entry changes: its copies follow, those of the others are as they were.\<close>

lemma agree_update:
  assumes a: "agree L N D c" and e: "L s = Some e" and id: "pe_id e' = pe_id e"
    and N': "copied (pe_status e') (N' (pe_id e))" "\<And>d. d \<noteq> pe_id e \<Longrightarrow> N' d = N d"
    and D': "copied (pe_status e') (D' s)" "\<And>s'. s' \<noteq> s \<Longrightarrow> D' s' = D s'"
  shows "agree (L(s \<mapsto> e')) N' D' c"
  unfolding agree_def
proof (intro conjI allI impI, goal_cases)
  case (1 s1 e1)
  then show ?case using agreeD [OF a] a e by (cases "s1 = s") auto
next
  case (2 s1 e1)
  then show ?case using agreeD [OF a] e id by (cases "s1 = s") auto
next
  case (3 s1 e1)
  then show ?case using agreeD [OF a] e id by (cases "s1 = s") auto
next
  case (4 s1 e1)
  show ?case
  proof (cases "s1 = s")
    case True
    then show ?thesis using 4 id N'(1) by simp
  next
    case False
    then have "pe_id e1 \<noteq> pe_id e" using 4 agree_inj [OF a _ e, of s1 e1] by auto
    then show ?thesis using 4 False agreeD(4) [OF a, of s1 e1] N'(2) by simp
  qed
next
  case (5 s1 e1)
  then show ?case using agreeD(5) [OF a, of s1 e1] D' by (cases "s1 = s") auto
next
  case (6 s1 e1 s2 e2)
  then show ?case using agree_inj [OF a] e id by (cases "s1 = s"; cases "s2 = s") auto
next
  case (7 d)
  have "N d \<noteq> None" using 7 N'(2) [of d] agreeD(4) [OF a e] by (cases "d = pe_id e") (auto simp: copied_def)
  then obtain s0 e0 where "L s0 = Some e0" "pe_id e0 = d" using agree_owner [OF a] by blast
  then show ?case using e id by (cases "s0 = s") auto
next
  case (8 s1)
  then show ?case using D'(2) [of s1] agree_socket [OF a, of s1] by (cases "s1 = s"; cases "L s1") auto
next
  case 9
  then show ?case using a by (simp add: agree_def)
qed

lemma agree_entry:
  assumes "agree L N D c" and "L s = Some e" and "pe_id e' = pe_id e" and "same_flags (pe_status e') (pe_status e)"
  shows "agree (L(s \<mapsto> e')) N D c"
  using agreeD(4,5) [OF assms(1,2)] assms by (intro agree_update [OF assms(1,2)]) (auto intro: copied_same)

lemma agree_flag:
  assumes "agree L N D c" and "L s = Some e"
  shows "agree (L(s \<mapsto> set_status (set_flag x) e)) (N(pe_id e := map_option (set_flag x) (N (pe_id e))))
     (D(s := map_option (set_flag x) (D s))) c"
  using agreeD(4,5) [OF assms] by (intro agree_update [OF assms]) (auto simp: set_status_def intro: copied_flag)

lemma agree_add:
  assumes a: "agree L N D c" and s: "L s = None" "0 \<le> s"
  shows "agree (L(s \<mapsto> PeerEntry\<lparr>pe_id := c\<rparr>)) (N(c \<mapsto> PeerStatus)) (D(s \<mapsto> PeerStatus)) (c + 1)"
  unfolding agree_def
proof (intro conjI allI impI, goal_cases)
  case (7 d)
  show ?case
  proof (cases "d = c")
    case False
    then obtain s0 e0 where "L s0 = Some e0" "pe_id e0 = d" using 7 agree_owner [OF a, of d] by auto
    then show ?thesis using s by (cases "s0 = s") auto
  qed (auto intro!: exI [of _ s])
next
  case (6 s1 e1 s2 e2)
  have c: "pe_id e0 = c \<longleftrightarrow> s0 = s" if "(L(s \<mapsto> PeerEntry\<lparr>pe_id := c\<rparr>)) s0 = Some e0" for s0 e0
    using that agreeD(3) [OF a, of s0 e0] by (auto split: if_splits)
  show ?case
  proof (cases "s1 = s")
    case True
    then show ?thesis using c [OF 6(1)] c [OF 6(2)] 6(3) by simp
  next
    case False
    then have "s2 \<noteq> s" using c [OF 6(1)] c [OF 6(2)] 6(3) by simp
    then have "L s1 = Some e1" "L s2 = Some e2" using 6(1,2) False by simp_all
    then show ?thesis using agree_inj [OF a _ _ 6(3)] by blast
  qed
next
  case (1 s1 e1)
  then show ?case using s(2) agreeD(1) [OF a, of s1 e1] by (auto split: if_splits)
next
  case (2 s1 e1)
  then show ?case using a agreeD(2) [OF a, of s1 e1] by (auto simp: agree_def split: if_splits)
next
  case (3 s1 e1)
  then show ?case using agreeD(3) [OF a, of s1 e1] by (auto split: if_splits)
next
  case (4 s1 e1)
  then show ?case using agreeD(3,4) [OF a, of s1 e1] by (auto simp: PeerEntry_def copied_def split: if_splits)
next
  case (5 s1 e1)
  then show ?case using agreeD(5) [OF a, of s1 e1] by (auto simp: PeerEntry_def copied_def split: if_splits)
next
  case (8 s1)
  then show ?case using agree_socket [OF a, of s1] by (cases "L s1") (auto split: if_splits)
next
  case 9
  then show ?case using a by (simp add: agree_def)
qed

lemma agree_erase:
  assumes a: "agree L N D c" and e: "L s = Some e"
  shows "agree (L(s := None)) (N(pe_id e := None)) (D(s := None)) c"
  unfolding agree_def
proof (intro conjI allI impI, goal_cases)
  case (4 s1 e1)
  then have "pe_id e1 \<noteq> pe_id e" "L s1 = Some e1" using agree_inj [OF a _ e, of s1 e1] by (auto split: if_splits)
  then show ?case using agreeD(4) [OF a] by auto
next
  case (7 d)
  then obtain s0 e0 where "L s0 = Some e0" "pe_id e0 = d" using agree_owner [OF a, of d] by (auto split: if_splits)
  then show ?case using 7 e by (cases "s0 = s") auto
next
  case (6 s1 e1 s2 e2)
  then show ?case using agree_inj [OF a] by (auto split: if_splits)
qed (use a e agreeD [OF a] agree_socket [OF a] in \<open>auto split: if_splits, auto simp: agree_def\<close>)

text \<open>The invariant of the client: every lock is free and the copies of the flags agree.\<close>

definition coherent :: "client \<Rightarrow> bool" where
  "coherent cl \<longleftrightarrow> pm_ready cl \<and> np_ready (cl_need cl) \<and> ds_ready (cl_speed cl)
     \<and> distinct (tkeys (pm_list (cl_peers cl))) \<and> distinct (map de_socket (ds_queue (cl_speed cl)))
     \<and> agree (peers cl) (RetSocketStatus (cl_need cl)) (ds_status (cl_speed cl)) (pm_cur_id (cl_peers cl))"

abbreviation pm_held :: rwlock where
  "pm_held \<equiv> lock_idle\<lparr>lk_writer := True\<rparr>"

lemma coherentD:
  assumes "coherent cl"
  shows "pm_lock (cl_peers cl) = lock_idle" "np_ready (cl_need cl)" "ds_ready (cl_speed cl)"
    "distinct (tkeys (pm_list (cl_peers cl)))" "distinct (map de_socket (ds_queue (cl_speed cl)))"
    "agree (peers cl) (RetSocketStatus (cl_need cl)) (ds_status (cl_speed cl)) (pm_cur_id (cl_peers cl))"
  using assms by (simp_all add: coherent_def pm_ready_def)

lemma coherent_wrlock: "coherent cl \<Longrightarrow> rwlock_wrlock (pm_lock (cl_peers cl)) = Some pm_held"
  by (simp add: coherentD)

lemma coherent_rdlock: "coherent cl \<Longrightarrow> rwlock_rdlock (pm_lock (cl_peers cl)) = Some (lock_idle\<lparr>lk_readers := 1\<rparr>)"
  by (simp add: coherentD)

lemma coherent_frame:
  "cl_peers cl' = cl_peers cl \<Longrightarrow> cl_need cl' = cl_need cl \<Longrightarrow> cl_speed cl' = cl_speed cl \<Longrightarrow> coherent cl' = coherent cl"
  by (simp add: coherent_def pm_ready_def peers_def [abs_def])

lemma send_to_frame [simp]:
  "cl_peers (send_to s b cl) = cl_peers cl" "cl_need (send_to s b cl) = cl_need cl" "cl_speed (send_to s b cl) = cl_speed cl"
  "cl_bits (send_to s b cl) = cl_bits cl" "cl_memory (send_to s b cl) = cl_memory cl"
  "cl_written (send_to s b cl) = cl_written cl" "cl_closed (send_to s b cl) = cl_closed cl"
  "cl_sent (send_to s b cl) = cl_sent cl @ [(s, b)]"
  by (simp_all add: send_to_def)

lemma close_fd_frame [simp]:
  "cl_peers (close_fd s cl) = cl_peers cl" "cl_need (close_fd s cl) = cl_need cl" "cl_speed (close_fd s cl) = cl_speed cl"
  "cl_bits (close_fd s cl) = cl_bits cl" "cl_memory (close_fd s cl) = cl_memory cl"
  "cl_written (close_fd s cl) = cl_written cl" "cl_sent (close_fd s cl) = cl_sent cl"
  "cl_closed (close_fd s cl) = cl_closed cl @ [s]"
  by (simp_all add: close_fd_def)

lemma pm_leave_frame [simp]:
  "cl_need (pm_leave l f cl) = cl_need cl" "cl_speed (pm_leave l f cl) = cl_speed cl"
  "cl_bits (pm_leave l f cl) = cl_bits cl" "cl_memory (pm_leave l f cl) = cl_memory cl"
  "cl_written (pm_leave l f cl) = cl_written cl" "cl_closed (pm_leave l f cl) = cl_closed cl"
  "cl_sent (pm_leave l f cl) = cl_sent cl"
  "cl_peers (pm_leave l f cl) = (cl_peers cl)\<lparr>pm_list := f (pm_list (cl_peers cl)), pm_lock := unlock l\<rparr>"
  by (simp_all add: pm_leave_def)

lemma peers_frame [simp]: "peers (send_to s b cl) = peers cl" "peers (close_fd s cl) = peers cl"
  by (simp_all add: peers_def fun_eq_iff)

lemma coherent_send [simp]: "coherent (send_to s b cl) = coherent cl" "coherent (close_fd s cl) = coherent cl"
  by (rule coherent_frame; simp)+

lemma pm_leave_id: "coherent cl \<Longrightarrow> pm_leave pm_held id cl = cl"
  by (simp add: pm_leave_def coherentD)

lemma set_entry_find: "tfind (set_entry s f t) s' = (if s' = s then map_option f (tfind t s) else tfind t s')"
  by (simp add: set_entry_def)

lemma set_entry_keys: "tkeys (set_entry s f t) = tkeys t"
  by (simp add: set_entry_def tbl.keys_adjust)

lemma set_entry_none: "tfind t s = None \<Longrightarrow> set_entry s f t = t"
  by (auto simp: set_entry_def tadjust_def tfind_def map_of_eq_None_iff intro!: map_idI) (metis fst_conv image_eqI)

section \<open>Lemmas: every operation keeps the invariant\<close>

lemma coherent_entry:
  assumes "coherent cl" and "\<And>e. pe_id (f e) = pe_id e" and "\<And>e. same_flags (pe_status (f e)) (pe_status e)"
  shows "coherent (pm_leave pm_held (set_entry s f) cl)"
proof -
  let ?cl = "pm_leave pm_held (set_entry s f) cl"
  have v: "peers ?cl = (if peers cl s = None then peers cl else (peers cl)(s \<mapsto> f (the (peers cl s))))"
    by (auto simp: peers_def fun_eq_iff set_entry_find)
  have "agree (peers ?cl) (RetSocketStatus (cl_need cl)) (ds_status (cl_speed cl)) (pm_cur_id (cl_peers cl))"
    using coherentD(6) [OF assms(1)] assms(2,3) by (auto simp: v intro!: agree_entry)
  then show ?thesis using assms(1) by (simp add: coherent_def pm_ready_def set_entry_keys)
qed

lemma coherent_need:
  assumes "coherent cl" and "np_id_lock np = np_id_lock (cl_need cl)" and "np_id_queue np = np_id_queue (cl_need cl)"
  shows "coherent (cl\<lparr>cl_need := np\<rparr>)"
proof -
  have "RetSocketStatus np = RetSocketStatus (cl_need cl)" using assms(3) by (simp add: RetSocketStatus_def fun_eq_iff)
  then show ?thesis using assms by (simp add: coherent_def pm_ready_def np_ready_def peers_def [abs_def])
qed

text \<open>A flag changes in all three components at once.\<close>

definition flag_all :: "flag_op \<Rightarrow> int \<Rightarrow> client \<Rightarrow> client" where
  "flag_all x s cl =
     (case peers cl s of None \<Rightarrow> cl
      | Some e \<Rightarrow> cl\<lparr>cl_peers := (cl_peers cl)\<lparr>pm_list := set_entry s (set_status (set_flag x)) (pm_list (cl_peers cl))\<rparr>,
          cl_need := np_put (set_flag x) (pe_id e) (cl_need cl), cl_speed := ds_put (set_flag x) s (cl_speed cl)\<rparr>)"

lemma adjust_first_sockets:
  "(\<And>v. de_socket (f v) = de_socket v) \<Longrightarrow> map de_socket (adjust_first s f q) = map de_socket q"
  by (induction q) auto

lemma ds_put_sockets: "map de_socket (ds_queue (ds_put f s ds)) = map de_socket (ds_queue ds)"
  by (simp add: ds_put_def adjust_first_sockets split: option.splits)

lemma peers_flag_all: "peers (flag_all x s cl) s' = (if s' = s then map_option (set_status (set_flag x)) (peers cl s) else peers cl s')"
  by (auto simp: flag_all_def peers_def set_entry_find split: option.splits)

lemma coherent_flag_all:
  assumes "coherent cl"
  shows "coherent (flag_all x s cl)"
proof (cases "peers cl s")
  case (Some e)
  have v: "peers (flag_all x s cl) = (peers cl)(s \<mapsto> set_status (set_flag x) e)"
    using Some by (auto simp: peers_flag_all fun_eq_iff)
  have n: "RetSocketStatus (np_put f d (cl_need cl)) = (RetSocketStatus (cl_need cl))(d := map_option f (RetSocketStatus (cl_need cl) d))" for f d
    using np_status.status_put [OF coherentD(2) [OF assms]] by (auto simp: fun_eq_iff)
  have d: "ds_status (ds_put f s (cl_speed cl)) = (ds_status (cl_speed cl))(s := map_option f (ds_status (cl_speed cl) s))" for f s
    using ds_store.status_put [OF coherentD(3) [OF assms]] by (auto simp: fun_eq_iff)
  have "agree (peers (flag_all x s cl)) (RetSocketStatus (cl_need (flag_all x s cl))) (ds_status (cl_speed (flag_all x s cl)))
      (pm_cur_id (cl_peers (flag_all x s cl)))"
    using agree_flag [OF coherentD(6) [OF assms] Some, of x] by (simp add: v) (simp add: flag_all_def Some n d)
  moreover have "np_ready (cl_need (flag_all x s cl))" "ds_ready (cl_speed (flag_all x s cl))" "pm_ready (flag_all x s cl)"
    using coherentD [OF assms] by (simp_all add: flag_all_def Some np_status.ready_put ds_store.ready_put pm_ready_def)
  ultimately show ?thesis
    using coherentD [OF assms] by (simp add: coherent_def) (simp add: flag_all_def Some set_entry_keys ds_put_sockets)
qed (simp add: flag_all_def assms)

lemma find_first_append: "find_first s (q @ [v]) = (case find_first s q of Some u \<Rightarrow> Some u | None \<Rightarrow> if de_socket v = s then Some v else None)"
  by (induction q) auto

lemma find_first_None: "find_first s q = None \<longleftrightarrow> s \<notin> set (map de_socket q)"
  by (induction q) auto

lemma erase_first_sockets: "map de_socket (erase_first s q) = remove1 s (map de_socket q)"
  by (induction q) auto

lemma find_first_erase: "distinct (map de_socket q) \<Longrightarrow> find_first t (erase_first s q) = (if t = s then None else find_first t q)"
  by (induction q) (auto simp: find_first_None)

lemma coherent_AddSocket:
  assumes "coherent cl" and "peers cl s = None" and "0 \<le> s" and "pm_cur_id (cl_peers cl) < 2147483647"
  shows "coherent (PM_AddSocket s cl) \<and> pm_cur_id (cl_peers (PM_AddSocket s cl)) = pm_cur_id (cl_peers cl) + 1
    \<and> peers (PM_AddSocket s cl) = (peers cl)(s \<mapsto> PeerEntry\<lparr>pe_id := pm_cur_id (cl_peers cl)\<rparr>)"
proof -
  let ?c = "pm_cur_id (cl_peers cl)" and ?cl = "PM_AddSocket s cl"
  note c = coherentD [OF assms(1)]
  have f: "tfind (pm_list (cl_peers cl)) s = None" using assms(2) by (simp add: peers_def)
  have ci: "i32 (?c + 1) = ?c + 1" using assms(4) c(6) by (intro i32_id) (auto simp: agree_def)
  have d: "ds_status (cl_speed cl) s = None" using agree_socket [OF c(6)] assms(2) by simp
  have nd: "RetSocketStatus (cl_need cl) ?c = None"
    using agree_owner [OF c(6), of ?c] agreeD(3) [OF c(6)] by (cases "RetSocketStatus (cl_need cl) ?c") fastforce+
  have p: "peers ?cl = (peers cl)(s \<mapsto> PeerEntry\<lparr>pe_id := ?c\<rparr>)"
    using assms(3) c(1) f by (auto simp: PM_AddSocket_def Let_def peers_def fun_eq_iff)
  have n: "RetSocketStatus (cl_need ?cl) = (RetSocketStatus (cl_need cl))(?c \<mapsto> PeerStatus)" "np_ready (cl_need ?cl)"
    using assms(3) c(1,2) nd by (auto simp: PM_AddSocket_def Let_def SocketMapId_def np_ready_def RetSocketStatus_def fun_eq_iff)
  have ds: "ds_status (cl_speed ?cl) = (ds_status (cl_speed cl))(s \<mapsto> PeerStatus)" "ds_ready (cl_speed ?cl)"
    "map de_socket (ds_queue (cl_speed ?cl)) = map de_socket (ds_queue (cl_speed cl)) @ [s]"
    using assms(3) c(1,3) d
    by (auto simp: PM_AddSocket_def Let_def DS_AddSocket_def ds_ready_def ds_status_def fun_eq_iff find_first_append split: option.splits)
  have s: "s \<notin> set (map de_socket (ds_queue (cl_speed cl)))" using d by (auto simp: ds_status_def find_first_None)
  have "agree (peers ?cl) (RetSocketStatus (cl_need ?cl)) (ds_status (cl_speed ?cl)) (?c + 1)"
    using agree_add [OF c(6) assms(2,3)] by (simp add: p n ds)
  moreover have "distinct (tkeys (pm_list (cl_peers ?cl)))" "pm_ready ?cl" "pm_cur_id (cl_peers ?cl) = ?c + 1"
    using assms(3) c(1,4) ci by (simp_all add: PM_AddSocket_def Let_def tbl.distinct_emplace pm_ready_def)
  ultimately show ?thesis using n ds p c(5) s by (simp add: coherent_def)
qed

lemma coherent_CloseSocket:
  assumes "coherent cl"
  shows "coherent (PM_CloseSocket s cl) \<and> peers (PM_CloseSocket s cl) = (peers cl)(s := None)
    \<and> pm_cur_id (cl_peers (PM_CloseSocket s cl)) = pm_cur_id (cl_peers cl)
    \<and> cl_closed (PM_CloseSocket s cl) = cl_closed cl @ (if peers cl s = None then [] else [s])
    \<and> cl_sent (PM_CloseSocket s cl) = cl_sent cl"
proof (cases "peers cl s")
  case None
  then have "PM_CloseSocket s cl = cl"
    using coherent_wrlock [OF assms] pm_leave_id [OF assms] by (simp add: PM_CloseSocket_def peers_def Let_def)
  then show ?thesis using None assms by (simp add: fun_upd_idem)
next
  case (Some e)
  let ?cl = "PM_CloseSocket s cl"
  note c = coherentD [OF assms]
  have f: "tfind (pm_list (cl_peers cl)) s = Some e" using Some by (simp add: peers_def)
  have p: "peers ?cl = (peers cl)(s := None)" using c(1) f by (auto simp: PM_CloseSocket_def Let_def peers_def fun_eq_iff)
  have n: "RetSocketStatus (cl_need ?cl) = (RetSocketStatus (cl_need cl))(pe_id e := None)" "np_ready (cl_need ?cl)"
    using c(1,2) f by (auto simp: PM_CloseSocket_def Let_def NP_ClearSocket_def np_ready_def RetSocketStatus_def fun_eq_iff)
  have ds: "ds_status (cl_speed ?cl) = (ds_status (cl_speed cl))(s := None)" "ds_ready (cl_speed ?cl)"
    "map de_socket (ds_queue (cl_speed ?cl)) = remove1 s (map de_socket (ds_queue (cl_speed cl)))"
    using c(1,3,5) f
    by (auto simp: PM_CloseSocket_def Let_def DS_ClearSocket_def ds_ready_def ds_status_def fun_eq_iff find_first_erase
      erase_first_sockets)
  have "agree (peers ?cl) (RetSocketStatus (cl_need ?cl)) (ds_status (cl_speed ?cl)) (pm_cur_id (cl_peers cl))"
    using agree_erase [OF c(6) Some] by (simp add: p n ds)
  moreover have "distinct (tkeys (pm_list (cl_peers ?cl)))" "pm_ready ?cl" "pm_cur_id (cl_peers ?cl) = pm_cur_id (cl_peers cl)"
    "cl_closed ?cl = cl_closed cl @ [s]" "cl_sent ?cl = cl_sent cl"
    using c(1,4) f by (simp_all add: PM_CloseSocket_def Let_def tbl.distinct_erase pm_ready_def)
  ultimately show ?thesis using n ds p c(5) Some by (simp add: coherent_def)
qed

lemma coherent_close_all:
  "coherent cl \<Longrightarrow> coherent (fold PM_CloseSocket ss cl) \<and> peers (fold PM_CloseSocket ss cl) = (\<lambda>s. if s \<in> set ss then None else peers cl s)
    \<and> pm_cur_id (cl_peers (fold PM_CloseSocket ss cl)) = pm_cur_id (cl_peers cl)
    \<and> cl_sent (fold PM_CloseSocket ss cl) = cl_sent cl"
proof (induction ss arbitrary: cl)
  case (Cons s ss)
  then show ?case using coherent_CloseSocket [OF Cons.prems, of s] by (auto simp: fun_eq_iff)
qed simp

text \<open>The operations on one connection, in terms of \<open>flag_all\<close>.\<close>

lemma am_body_eq:
  assumes "coherent cl" and "f = set_flag x" and "np_f = np_put (set_flag x)" and "ds_f = ds_put (set_flag x)"
  shows "am_body already f np_f ds_f msg s cl =
    (case peers cl s of None \<Rightarrow> cl | Some e \<Rightarrow> if already (pe_status e) then cl else send_to s msg (flag_all x s cl))"
  using coherent_wrlock [OF assms(1)] pm_leave_id [OF assms(1)] coherentD(1) [OF assms(1)] assms(2-4)
  by (auto simp: am_body_def peers_def flag_all_def Let_def pm_leave_def split: option.splits)

lemma np_flags:
  "NP_AmChoke = np_put (set_flag SetAmChoke)" "NP_AmUnChoke = np_put (set_flag SetAmUnChoke)"
  "NP_AmInterested = np_put (set_flag SetAmInterested)" "NP_AmUnInterested = np_put (set_flag SetAmUnInterested)"
  "NP_PrChoke = np_put (set_flag SetPrChoke)" "NP_PrInterested = np_put (set_flag SetPrInterested)"
  "NP_PrUnInterested = np_put (set_flag SetPrUnInterested)"
  by (auto simp: fun_eq_iff NP_AmChoke_def NP_AmUnChoke_def NP_AmInterested_def NP_AmUnInterested_def NP_PrChoke_def
      NP_PrInterested_def NP_PrUnInterested_def set_flag.simps [abs_def])

lemma ds_flags:
  "DS_AmChoke = ds_put (set_flag SetAmChoke)" "DS_AmUnChoke = ds_put (set_flag SetAmUnChoke)"
  "DS_AmInterested = ds_put (set_flag SetAmInterested)" "DS_AmUnInterested = ds_put (set_flag SetAmUnInterested)"
  "DS_PrChoke = ds_put (set_flag SetPrChoke)" "DS_PrUnChoke = ds_put (set_flag SetPrUnChoke)"
  "DS_PrInterested = ds_put (set_flag SetPrInterested)" "DS_PrUnInterested = ds_put (set_flag SetPrUnInterested)"
  by (auto simp: fun_eq_iff DS_AmChoke_def DS_AmUnChoke_def DS_AmInterested_def DS_AmUnInterested_def DS_PrChoke_def
      DS_PrUnChoke_def DS_PrInterested_def DS_PrUnInterested_def set_flag.simps [abs_def])

lemma am_ops:
  assumes "coherent cl"
  shows "PM_AmChoke s cl = (case peers cl s of None \<Rightarrow> cl | Some e \<Rightarrow>
      if am_choke (pe_status e) then cl else send_to s Choke (flag_all SetAmChoke s cl))"
    "PM_AmUnChoke s cl = (case peers cl s of None \<Rightarrow> cl | Some e \<Rightarrow>
      if \<not> am_choke (pe_status e) then cl else send_to s UnChoke (flag_all SetAmUnChoke s cl))"
    "PM_AmInterested s cl = (case peers cl s of None \<Rightarrow> cl | Some e \<Rightarrow>
      if am_interested (pe_status e) then cl else send_to s Interested (flag_all SetAmInterested s cl))"
    "PM_AmUnInterested s cl = (case peers cl s of None \<Rightarrow> cl | Some e \<Rightarrow>
      if \<not> am_interested (pe_status e) then cl else send_to s UnInterested (flag_all SetAmUnInterested s cl))"
  unfolding PM_AmChoke_def PM_AmUnChoke_def PM_AmInterested_def PM_AmUnInterested_def
  by (rule am_body_eq [OF assms], simp_all add: fun_eq_iff np_flags ds_flags)+

lemma pr_ops:
  assumes "coherent cl"
  shows "PM_PrChoke s cl = flag_all SetPrChoke s cl" "PM_PrInterested s cl = flag_all SetPrInterested s cl"
    "PM_PrUnInterested s cl = flag_all SetPrUnInterested s cl"
  using coherent_wrlock [OF assms] pm_leave_id [OF assms] coherentD(1) [OF assms]
  by (auto simp: PM_PrChoke_def PM_PrInterested_def PM_PrUnInterested_def pr_body_def np_flags ds_flags peers_def
      flag_all_def Let_def pm_leave_def set_flag.simps [abs_def] split: option.splits)

section \<open>Lemmas: requests\<close>

text \<open>A peer may be asked: no request is open, or the last one is 30 seconds old and nothing came.\<close>

definition may_request :: "env \<Rightarrow> peer_entry \<Rightarrow> bool" where
  "may_request ev e \<longleftrightarrow> \<not> request_piece (pe_status e)
     \<or> (\<not> recv_piece (pe_status e) \<and> PEERPIECETIME \<le> ev_now ev - pe_expire e)"

definition asked :: "env \<Rightarrow> peer_entry \<Rightarrow> peer_entry" where
  "asked ev e = (set_status (\<lambda>p. p\<lparr>request_piece := True\<rparr>) e)\<lparr>pe_expire := u32 (ev_now ev)\<rparr>"

definition clock_ok :: "env \<Rightarrow> bool" where
  "clock_ok ev \<longleftrightarrow> 0 \<le> ev_now ev \<and> ev_now ev < 4294967296"

lemma set_status_fields [simp]: "pe_id (set_status f e) = pe_id e" "pe_expire (set_status f e) = pe_expire e"
  "pe_status (set_status f e) = f (pe_status e)"
  by (simp_all add: set_status_def)

lemma asked_fields [simp]: "pe_id (asked ev e) = pe_id e" "same_flags (pe_status (asked ev e)) (pe_status e)"
  by (simp_all add: asked_def same_flags_def)

lemma asked_again: "clock_ok ev \<Longrightarrow> \<not> may_request ev (asked ev e)"
  by (simp add: may_request_def asked_def clock_ok_def PEERPIECETIME_def u32_id)

lemma set_entry_cong:
  assumes "distinct (tkeys t)" and "tfind t s = Some e" and "f e = g e"
  shows "set_entry s f t = set_entry s g t"
proof -
  have "v = e" if "(s, v) \<in> set t" for v using that assms(1,2) tfind_set [of t s v] by simp
  then show ?thesis using assms(3) by (auto simp: set_entry_def tadjust_def)
qed

lemma peers_leave: "peers (pm_leave l (set_entry s f) cl) = (\<lambda>s'. if s' = s then map_option f (peers cl s) else peers cl s')"
  by (simp add: peers_def fun_eq_iff set_entry_find)

lemma ReqPiece_eq:
  assumes "coherent cl"
  shows "ReqPiece ev s cl = (case peers cl s of None \<Rightarrow> (False, cl)
    | Some e \<Rightarrow> if may_request ev e then (True, pm_leave pm_held (set_entry s (asked ev)) cl) else (False, cl))"
proof -
  note c = coherentD [OF assms] coherent_wrlock [OF assms] pm_leave_id [OF assms]
  show ?thesis
  proof (cases "peers cl s")
    case None
    then show ?thesis using c by (simp add: ReqPiece_def peers_def)
  next
    case (Some e)
    have f: "tfind (pm_list (cl_peers cl)) s = Some e" using Some by (simp add: peers_def)
    have s: "0 \<le> s" using agreeD(1) [OF c(6) Some] .
    have l: "pm_leave pm_held (set_entry s f) cl = pm_leave pm_held (set_entry s g) cl" if "f e = g e" for f g
      using set_entry_cong [OF c(4) f, of f g] that by (simp add: pm_leave_def)
    have "e\<lparr>pe_expire := x\<rparr> = (set_status (\<lambda>p. p\<lparr>request_piece := True\<rparr>) e)\<lparr>pe_expire := x\<rparr>" if "request_piece (pe_status e)" for x
      using that by (simp add: set_status_def)
    then show ?thesis
      using s c(7,8) f Some l [of "\<lambda>e. e\<lparr>pe_expire := u32 (ev_now ev)\<rparr>" "asked ev"]
        l [of "\<lambda>e. (set_status (\<lambda>p. p\<lparr>request_piece := True\<rparr>) e)\<lparr>pe_expire := u32 (ev_now ev)\<rparr>" "asked ev"]
      by (auto simp: ReqPiece_def may_request_def asked_def)
  qed
qed

lemma coherent_asked: "coherent cl \<Longrightarrow> coherent (pm_leave pm_held (set_entry s (asked ev)) cl)"
  by (rule coherent_entry) simp_all

lemma send_req_eq:
  assumes "coherent cl"
  shows "send_req ev m s cl = (case peers cl s of None \<Rightarrow> cl
    | Some e \<Rightarrow> if may_request ev e then send_to s m (pm_leave pm_held (set_entry s (asked ev)) cl) else cl)"
  using coherent_rdlock [OF coherent_asked [OF assms, of s ev]] coherentD(1) [OF assms]
  by (auto simp: send_req_def ReqPiece_eq [OF assms] GetSocketMutex_def peers_def set_entry_find split: option.splits)

lemma send_req_fold:
  assumes "coherent cl" and "clock_ok ev"
  shows "coherent (fold (send_req ev m) fds cl) \<and> (\<exists>rs. distinct rs
    \<and> set rs = {s \<in> set fds. \<exists>e. peers cl s = Some e \<and> may_request ev e}
    \<and> cl_sent (fold (send_req ev m) fds cl) = cl_sent cl @ map (\<lambda>s. (s, m)) rs
    \<and> peers (fold (send_req ev m) fds cl) = (\<lambda>s. if s \<in> set rs then map_option (asked ev) (peers cl s) else peers cl s))"
  using assms(1)
proof (induction fds arbitrary: cl)
  case (Cons s fds)
  show ?case
  proof (cases "\<exists>e. peers cl s = Some e \<and> may_request ev e")
    case True
    then obtain e where e: "peers cl s = Some e" "may_request ev e" by blast
    let ?cl = "send_to s m (pm_leave pm_held (set_entry s (asked ev)) cl)"
    have eq: "send_req ev m s cl = ?cl" using send_req_eq [OF Cons.prems] e by simp
    have "coherent ?cl" using coherent_asked [OF Cons.prems] by simp
    from Cons.IH [OF this] obtain rs where rs: "coherent (fold (send_req ev m) fds ?cl)" "distinct rs"
      "set rs = {s' \<in> set fds. \<exists>e. peers ?cl s' = Some e \<and> may_request ev e}"
      "cl_sent (fold (send_req ev m) fds ?cl) = cl_sent ?cl @ map (\<lambda>s. (s, m)) rs"
      "peers (fold (send_req ev m) fds ?cl) = (\<lambda>s. if s \<in> set rs then map_option (asked ev) (peers ?cl s) else peers ?cl s)"
      by blast
    have p: "peers ?cl = (\<lambda>s'. if s' = s then Some (asked ev e) else peers cl s')"
      using e(1) by (simp add: peers_leave fun_eq_iff)
    have n: "s \<notin> set rs" using rs(3) p asked_again [OF assms(2)] by auto
    show ?thesis
    proof (intro conjI exI [of _ "s # rs"])
      show "set (s # rs) = {s' \<in> set (s # fds). \<exists>e. peers cl s' = Some e \<and> may_request ev e}"
        using rs(3) p e n by auto
      show "peers (fold (send_req ev m) (s # fds) cl)
          = (\<lambda>s'. if s' \<in> set (s # rs) then map_option (asked ev) (peers cl s') else peers cl s')"
        using rs(5) n e(1) by (auto simp: eq peers_leave fun_eq_iff)
    qed (use rs n in \<open>simp_all add: eq\<close>)
  next
    case False
    then have "send_req ev m s cl = cl" using send_req_eq [OF Cons.prems] by (auto split: option.splits)
    then show ?thesis using Cons.IH [OF Cons.prems] False by (auto intro!: Collect_cong)
  qed
qed (simp add: fun_eq_iff)

lemma PopNeed_coherent: "coherent cl \<Longrightarrow> coherent (cl\<lparr>cl_need := snd (PopNeed now g (cl_need cl))\<rparr>)"
  by (rule coherent_need) simp_all

lemma SendReq_fold:
  "PopNeed (ev_now ev) (GameEnd (cl_bits cl)) (cl_need cl) = ((i, fds), np) \<Longrightarrow>
    SendReq ev cl = fold (send_req ev (ReqCleBase_SetParameter i 0 SLICESIZE Request)) fds (cl\<lparr>cl_need := np\<rparr>)"
  by (simp add: SendReq_def Let_def)

text \<open>\<open>SendReq\<close> neither reads nor changes the entries of \<open>DownSpeed\<close>.\<close>

lemma ReqPiece_speed:
  "ReqPiece ev s (cl\<lparr>cl_speed := d\<rparr>) = (let (ok, cl') = ReqPiece ev s cl in (ok, cl'\<lparr>cl_speed := d\<rparr>))"
  "cl_speed (snd (ReqPiece ev s cl)) = cl_speed cl"
  by (auto simp: ReqPiece_def pm_leave_def Let_def split: option.splits)

lemma send_req_speed:
  "send_req ev m s (cl\<lparr>cl_speed := d\<rparr>) = (send_req ev m s cl)\<lparr>cl_speed := d\<rparr>"
  "cl_speed (send_req ev m s cl) = cl_speed cl"
proof -
  obtain ok cl' where r: "ReqPiece ev s cl = (ok, cl')" by (cases "ReqPiece ev s cl")
  then have "cl_speed cl' = cl_speed cl" using ReqPiece_speed(2) [of ev s cl] by simp
  then show "send_req ev m s (cl\<lparr>cl_speed := d\<rparr>) = (send_req ev m s cl)\<lparr>cl_speed := d\<rparr>"
    "cl_speed (send_req ev m s cl) = cl_speed cl"
    by (simp_all add: send_req_def ReqPiece_speed(1) r GetSocketMutex_def send_to_def split: option.splits)
qed

lemma fold_send_req_speed:
  "fold (send_req ev m) fds (cl\<lparr>cl_speed := d\<rparr>) = (fold (send_req ev m) fds cl)\<lparr>cl_speed := d\<rparr>"
  "cl_speed (fold (send_req ev m) fds cl) = cl_speed cl"
  by (induction fds arbitrary: cl) (simp_all add: send_req_speed)

lemma SendReq_speed:
  "SendReq ev (cl\<lparr>cl_speed := d\<rparr>) = (SendReq ev cl)\<lparr>cl_speed := d\<rparr>" "cl_speed (SendReq ev cl) = cl_speed cl"
proof -
  obtain i fds np where p: "PopNeed (ev_now ev) (GameEnd (cl_bits cl)) (cl_need cl) = ((i, fds), np)"
    by (metis surj_pair)
  have eq: "cl\<lparr>cl_speed := d, cl_need := np\<rparr> = (cl\<lparr>cl_need := np\<rparr>)\<lparr>cl_speed := d\<rparr>" by simp
  have "SendReq ev (cl\<lparr>cl_speed := d\<rparr>)
      = fold (send_req ev (ReqCleBase_SetParameter i 0 SLICESIZE Request)) fds (cl\<lparr>cl_speed := d, cl_need := np\<rparr>)"
    by (rule SendReq_fold) (simp add: p)
  then show "SendReq ev (cl\<lparr>cl_speed := d\<rparr>) = (SendReq ev cl)\<lparr>cl_speed := d\<rparr>"
    by (simp only: eq fold_send_req_speed(1) SendReq_fold [OF p])
  show "cl_speed (SendReq ev cl) = cl_speed cl" by (simp add: SendReq_fold [OF p] fold_send_req_speed(2))
qed

lemma PM_PrUnChoke_eq:
  assumes "coherent cl"
  shows "PM_PrUnChoke ev s cl = (if peers cl s = None then cl else SendReq ev (flag_all SetPrUnChoke s cl))"
proof (cases "peers cl s")
  case None
  then show ?thesis
    using coherent_wrlock [OF assms] pm_leave_id [OF assms] by (simp add: PM_PrUnChoke_def pr_body_def peers_def)
next
  case (Some e)
  note c = coherentD [OF assms]
  have f: "tfind (pm_list (cl_peers cl)) s = Some e" using Some by (simp add: peers_def)
  have "RetSocketStatus (cl_need cl) (pe_id e) \<noteq> None" using agreeD(4) [OF c(6) Some] by (auto simp: copied_def)
  then have fl: "NP_PrUnChoke_flag (pe_id e) (cl_need cl) = (True, np_put (set_flag SetPrUnChoke) (pe_id e) (cl_need cl))"
    using c(2) by (simp add: NP_PrUnChoke_flag_def np_ready_def set_flag.simps [abs_def])
  let ?cl = "(pm_leave pm_held (set_entry s (set_status (set_flag SetPrUnChoke))) cl)
    \<lparr>cl_need := np_put (set_flag SetPrUnChoke) (pe_id e) (cl_need cl)\<rparr>"
  have "PM_PrUnChoke ev s cl = (SendReq ev ?cl)\<lparr>cl_speed := ds_put (set_flag SetPrUnChoke) s (cl_speed cl)\<rparr>"
    using coherent_wrlock [OF assms] f fl SendReq_speed(2) [of ev ?cl]
    by (simp add: PM_PrUnChoke_def pr_body_def NP_PrUnChoke_def Let_def ds_flags set_flag.simps [abs_def])
  also have "\<dots> = SendReq ev (?cl\<lparr>cl_speed := ds_put (set_flag SetPrUnChoke) s (cl_speed cl)\<rparr>)"
    by (simp add: SendReq_speed(1))
  also have "?cl\<lparr>cl_speed := ds_put (set_flag SetPrUnChoke) s (cl_speed cl)\<rparr> = flag_all SetPrUnChoke s cl"
    using c(1) Some by (simp add: flag_all_def pm_leave_def)
  finally show ?thesis using Some by simp
qed

lemma coherent_SendReq:
  assumes "coherent cl" and "clock_ok ev"
  shows "coherent (SendReq ev cl)"
proof -
  obtain i fds np where p: "PopNeed (ev_now ev) (GameEnd (cl_bits cl)) (cl_need cl) = ((i, fds), np)"
    by (metis surj_pair)
  have "coherent (cl\<lparr>cl_need := np\<rparr>)" using PopNeed_coherent [OF assms(1), of "ev_now ev" "GameEnd (cl_bits cl)"] p by simp
  then show ?thesis using send_req_fold [OF _ assms(2)] by (simp add: SendReq_fold [OF p])
qed

lemma coherent_am:
  assumes "coherent cl"
  shows "coherent (PM_AmChoke s cl)" "coherent (PM_AmUnChoke s cl)" "coherent (PM_AmInterested s cl)"
    "coherent (PM_AmUnInterested s cl)"
  using coherent_flag_all [OF assms] assms by (simp_all add: am_ops [OF assms] split: option.splits)

lemma coherent_pr:
  assumes "coherent cl"
  shows "coherent (PM_PrChoke s cl)" "coherent (PM_PrInterested s cl)" "coherent (PM_PrUnInterested s cl)"
    "clock_ok ev \<Longrightarrow> coherent (PM_PrUnChoke ev s cl)"
  using coherent_flag_all [OF assms] assms by (simp_all add: pr_ops [OF assms] PM_PrUnChoke_eq [OF assms] coherent_SendReq)

lemma coherent_RecvPiece: "coherent cl \<Longrightarrow> coherent (snd (RecvPiece s cl))"
  using coherent_wrlock [of cl] pm_leave_id [of cl]
    coherent_entry [of cl "set_status (\<lambda>p. p\<lparr>recv_piece := True\<rparr>)" s]
  by (auto simp: RecvPiece_def same_flags_def split: option.splits)

lemma coherent_ReqPiece: "coherent cl \<Longrightarrow> coherent (snd (ReqPiece ev s cl))"
  by (auto simp: ReqPiece_eq coherent_asked split: option.splits)

definition cleared :: "peer_entry \<Rightarrow> peer_entry" where
  "cleared e = (set_status (\<lambda>p. p\<lparr>request_piece := False, recv_piece := False\<rparr>) e)\<lparr>pe_expire := 0\<rparr>"

lemma ClearPieceStatus_eq:
  "coherent cl \<Longrightarrow> 0 \<le> s \<Longrightarrow> ClearPieceStatus s cl = pm_leave pm_held (set_entry s cleared) cl"
  using coherent_wrlock [of cl] pm_leave_id [of cl]
  by (auto simp: ClearPieceStatus_def cleared_def [abs_def] set_entry_none pm_leave_def)

lemma UpdateExpire_eq:
  "coherent cl \<Longrightarrow> 0 \<le> s \<Longrightarrow> UpdateExpire ev s cl = pm_leave pm_held (set_entry s (\<lambda>e. e\<lparr>pe_expire := u32 (ev_now ev)\<rparr>)) cl"
  using coherent_wrlock [of cl] pm_leave_id [of cl] by (auto simp: UpdateExpire_def set_entry_none pm_leave_def)

lemma coherent_ClearPieceStatus: "coherent cl \<Longrightarrow> coherent (ClearPieceStatus s cl)"
  by (cases "0 \<le> s") (auto simp: ClearPieceStatus_eq cleared_def same_flags_def intro: coherent_entry,
    simp add: ClearPieceStatus_def)

lemma coherent_UpdateExpire: "coherent cl \<Longrightarrow> coherent (UpdateExpire ev s cl)"
  by (cases "0 \<le> s") (auto simp: UpdateExpire_eq intro: coherent_entry, simp add: UpdateExpire_def)

section \<open>Lemmas: messages to every peer\<close>

lemma sends_frame [simp]:
  "cl_peers (fold (\<lambda>s. send_to s m) ss cl) = cl_peers cl" "cl_need (fold (\<lambda>s. send_to s m) ss cl) = cl_need cl"
  "cl_speed (fold (\<lambda>s. send_to s m) ss cl) = cl_speed cl" "cl_bits (fold (\<lambda>s. send_to s m) ss cl) = cl_bits cl"
  "cl_memory (fold (\<lambda>s. send_to s m) ss cl) = cl_memory cl" "cl_written (fold (\<lambda>s. send_to s m) ss cl) = cl_written cl"
  "cl_closed (fold (\<lambda>s. send_to s m) ss cl) = cl_closed cl"
  "cl_sent (fold (\<lambda>s. send_to s m) ss cl) = cl_sent cl @ map (\<lambda>s. (s, m)) ss"
  by (induction ss arbitrary: cl) simp_all

lemma coherent_sends [simp]: "coherent (fold (\<lambda>s. send_to s m) ss cl) = coherent cl"
  by (rule coherent_frame) simp_all

lemma peers_sends [simp]: "peers (fold (\<lambda>s. send_to s m) ss cl) = peers cl"
  by (simp add: peers_def fun_eq_iff)

lemma close_all_closed:
  "coherent cl \<Longrightarrow> distinct ss \<Longrightarrow> (\<And>s. s \<in> set ss \<Longrightarrow> peers cl s \<noteq> None) \<Longrightarrow>
    cl_closed (fold PM_CloseSocket ss cl) = cl_closed cl @ ss"
proof (induction ss arbitrary: cl)
  case (Cons s ss)
  note c = coherent_CloseSocket [OF Cons.prems(1), of s]
  have "cl_closed (fold PM_CloseSocket ss (PM_CloseSocket s cl)) = cl_closed (PM_CloseSocket s cl) @ ss"
    using c Cons.prems by (intro Cons.IH) auto
  moreover have "peers cl s \<noteq> None" using Cons.prems(3) by simp
  ultimately show ?case using c by simp
qed simp

lemma peers_keys: "s \<in> fst ` set (pm_list (cl_peers cl)) \<longleftrightarrow> peers cl s \<noteq> None"
  using tbl.keys_find [of s "pm_list (cl_peers cl)"] by (simp add: peers_def tkeys_def)

lemma coherent_SendHave: "coherent cl \<Longrightarrow> coherent (PM_SendHave ev i cl)"
  using coherent_close_all by (simp add: PM_SendHave_def Let_def coherentD split: option.splits)

section \<open>Lemmas: the timers\<close>

definition silent :: "env \<Rightarrow> peer_entry \<Rightarrow> bool" where
  "silent ev e \<longleftrightarrow> PEERKEEPALIVETIME \<le> ev_now ev - pe_expire e"

text \<open>A peer the loop of \<open>Optimistic\<close> decides to drop: silent for 30 seconds, or the keep-alive cannot be sent.\<close>

definition dropped :: "env \<Rightarrow> int \<times> peer_entry \<Rightarrow> bool" where
  "dropped ev p \<longleftrightarrow> silent ev (snd p) \<or> ev_send ev (fst p) KeepAlive \<noteq> int (length KeepAlive)"

definition unchoke_held :: "int \<Rightarrow> peer_entry \<Rightarrow> client \<Rightarrow> client" where
  "unchoke_held s e cl = send_to s UnChoke (cl\<lparr>cl_peers := (cl_peers cl)\<lparr>pm_list :=
       set_entry s (set_status (set_flag SetAmUnChoke)) (pm_list (cl_peers cl))\<rparr>,
     cl_need := np_put (set_flag SetAmUnChoke) (pe_id e) (cl_need cl), cl_speed := ds_put (set_flag SetAmUnChoke) s (cl_speed cl)\<rparr>)"

abbreviation keep_alives :: "env \<Rightarrow> (int \<times> peer_entry) list \<Rightarrow> int list" where
  "keep_alives ev es \<equiv> map fst (filter (\<lambda>p. \<not> silent ev (snd p)) es)"

text \<open>The number of the choked peer, in the order of the list, that it is the turn of.\<close>

definition turn :: "env \<Rightarrow> client \<Rightarrow> int" where
  "turn ev cl = max 1 (ev_us ev mod (let n = int (length (pm_list (cl_peers cl))) - 4 in if n \<le> 0 then 1 else n))"

abbreviation choked_in :: "(int \<times> peer_entry) list \<Rightarrow> int" where
  "choked_in es \<equiv> int (length (filter (\<lambda>p. am_choke (pe_status (snd p))) es))"

lemma optimistic_loop_split:
  assumes "optimistic_loop ev k es cl = (del, cl')"
  shows "\<exists>pre post. es = pre @ post \<and> del = map fst (filter (dropped ev) pre)
    \<and> (if post = [] then choked_in pre < max 1 k else choked_in pre + 1 = max 1 k)
    \<and> (case post of [] \<Rightarrow> cl' = fold (\<lambda>s. send_to s KeepAlive) (keep_alives ev pre) cl
       | (s, e) # r \<Rightarrow> am_choke (pe_status e)
           \<and> cl' = unchoke_held s e (fold (\<lambda>s. send_to s KeepAlive) (keep_alives ev pre) cl))"
  using assms
proof (induction es arbitrary: k cl del)
  case (Cons p es)
  obtain s e where p: "p = (s, e)" by (cases p)
  define k' where "k' = (if am_choke (pe_status e) then k - 1 else k)"
  show ?case
  proof (cases "am_choke (pe_status e) \<and> k' \<le> 0")
    case True
    then show ?thesis
      using Cons.prems p
      by (intro exI [of _ "[]"] exI [of _ "p # es"])
        (auto simp: k'_def Let_def unchoke_held_def np_flags ds_flags set_flag.simps [abs_def])
  next
    case False
    define cl1 where "cl1 = (if silent ev e then cl else send_to s KeepAlive cl)"
    obtain del1 where l: "optimistic_loop ev k' es cl1 = (del1, cl')" "del = (if dropped ev p then s # del1 else del1)"
      using Cons.prems False p by (auto simp: k'_def cl1_def silent_def dropped_def Let_def split: prod.splits if_splits)
    obtain pre post where q: "es = pre @ post" "del1 = map fst (filter (dropped ev) pre)"
      "if post = [] then choked_in pre < max 1 k' else choked_in pre + 1 = max 1 k'"
      "case post of [] \<Rightarrow> cl' = fold (\<lambda>s. send_to s KeepAlive) (keep_alives ev pre) cl1
       | (s, e) # r \<Rightarrow> am_choke (pe_status e)
           \<and> cl' = unchoke_held s e (fold (\<lambda>s. send_to s KeepAlive) (keep_alives ev pre) cl1)"
      using Cons.IH [OF l(1)] by blast
    have "fold (\<lambda>s. send_to s KeepAlive) (keep_alives ev (p # pre)) cl = fold (\<lambda>s. send_to s KeepAlive) (keep_alives ev pre) cl1"
      by (simp add: cl1_def p)
    moreover have "if post = [] then choked_in (p # pre) < max 1 k else choked_in (p # pre) + 1 = max 1 k"
      using q(3) False p by (auto simp: k'_def split: if_splits)
    ultimately show ?thesis
      using q(1,2,4) l(2) p by - (rule exI [of _ "p # pre"], rule exI [of _ post], cases post, auto)
  qed
qed simp

lemma coherent_tfind:
  "coherent cl \<Longrightarrow> (s, e) \<in> set (pm_list (cl_peers cl)) \<longleftrightarrow> peers cl s = Some e"
  using coherentD(4) [of cl] by (simp add: tfind_set peers_def)

lemma unchoke_held_leave:
  assumes "coherent cl" and "peers cl s = Some e"
  shows "pm_leave pm_held id (unchoke_held s e (cl\<lparr>cl_peers := (cl_peers cl)\<lparr>pm_lock := pm_held\<rparr>\<rparr>))
    = send_to s UnChoke (flag_all SetAmUnChoke s cl)"
  using assms coherentD(1) [OF assms(1)] by (simp add: unchoke_held_def flag_all_def pm_leave_def send_to_def)

lemma hold_sends:
  "fold (\<lambda>s. send_to s m) ss (cl\<lparr>cl_peers := p\<rparr>) = (fold (\<lambda>s. send_to s m) ss cl)\<lparr>cl_peers := p\<rparr>"
proof (induction ss arbitrary: cl)
  case (Cons s ss)
  have "send_to s m (cl\<lparr>cl_peers := p\<rparr>) = (send_to s m cl)\<lparr>cl_peers := p\<rparr>" by (simp add: send_to_def)
  then show ?case using Cons by simp
qed simp

text \<open>
  What \<open>Optimistic\<close> does before it closes sockets: \<open>pre\<close> is the part of the walk before the peer that is
  unchoked, the head of \<open>post\<close>.
\<close>

definition walk :: "env \<Rightarrow> (int \<times> peer_entry) list \<Rightarrow> (int \<times> peer_entry) list \<Rightarrow> client \<Rightarrow> client" where
  "walk ev pre post cl =
     (let cl1 = fold (\<lambda>s. send_to s KeepAlive) (keep_alives ev pre) cl
      in if post = [] then cl1 else send_to (fst (hd post)) UnChoke (flag_all SetAmUnChoke (fst (hd post)) cl1))"

lemma Optimistic_split:
  assumes "coherent cl"
  shows "\<exists>pre post. pm_list (cl_peers cl) = pre @ post
    \<and> Optimistic ev cl = fold PM_CloseSocket (map fst (filter (dropped ev) pre)) (walk ev pre post cl)
    \<and> (post \<noteq> [] \<longrightarrow> am_choke (pe_status (snd (hd post))))
    \<and> (if post = [] then choked_in pre < turn ev cl else choked_in pre + 1 = turn ev cl)"
proof -
  let ?hold = "cl\<lparr>cl_peers := (cl_peers cl)\<lparr>pm_lock := pm_held\<rparr>\<rparr>"
  define k where "k = ev_us ev mod (let n = int (length (pm_list (cl_peers cl))) - 4 in if n \<le> 0 then 1 else n)"
  obtain del cl' where l: "optimistic_loop ev k (pm_list (cl_peers cl)) ?hold = (del, cl')"
    by (cases "optimistic_loop ev k (pm_list (cl_peers cl)) ?hold")
  have o: "Optimistic ev cl = fold PM_CloseSocket del (pm_leave pm_held id cl')"
    using coherent_wrlock [OF assms] l by (simp add: Optimistic_def k_def Let_def)
  obtain pre post where q: "pm_list (cl_peers cl) = pre @ post" "del = map fst (filter (dropped ev) pre)"
    "if post = [] then choked_in pre < max 1 k else choked_in pre + 1 = max 1 k"
    "case post of [] \<Rightarrow> cl' = fold (\<lambda>s. send_to s KeepAlive) (keep_alives ev pre) ?hold
       | (s, e) # r \<Rightarrow> am_choke (pe_status e)
           \<and> cl' = unchoke_held s e (fold (\<lambda>s. send_to s KeepAlive) (keep_alives ev pre) ?hold)"
    using optimistic_loop_split [OF l] by blast
  have tn: "max 1 k = turn ev cl" by (simp add: turn_def k_def)
  let ?cl1 = "fold (\<lambda>s. send_to s KeepAlive) (keep_alives ev pre) cl"
  have h: "fold (\<lambda>s. send_to s KeepAlive) (keep_alives ev pre) ?hold = ?cl1\<lparr>cl_peers := (cl_peers ?cl1)\<lparr>pm_lock := pm_held\<rparr>\<rparr>"
    by (simp add: hold_sends)
  have c1: "coherent ?cl1" using assms by simp
  show ?thesis
  proof (cases post)
    case Nil
    have "pm_leave pm_held id (?cl1\<lparr>cl_peers := (cl_peers ?cl1)\<lparr>pm_lock := pm_held\<rparr>\<rparr>) = ?cl1"
      using coherentD(1) [OF c1] by (simp add: pm_leave_def)
    then show ?thesis using q o Nil h tn by (intro exI [of _ pre] exI [of _ "[]"]) (simp add: walk_def)
  next
    case (Cons p r)
    obtain s e where p: "p = (s, e)" by (cases p)
    have "(s, e) \<in> set (pm_list (cl_peers cl))" using q(1) Cons p by simp
    then have "peers ?cl1 s = Some e" using coherent_tfind [OF assms] by simp
    from unchoke_held_leave [OF c1 this] show ?thesis
      using q o Cons p h tn by (intro exI [of _ pre] exI [of _ post]) (simp add: walk_def)
  qed
qed

lemma coherent_walk: "coherent cl \<Longrightarrow> coherent (walk ev pre post cl)"
  using coherent_flag_all by (simp add: walk_def Let_def)

lemma coherent_Optimistic: "coherent cl \<Longrightarrow> coherent (Optimistic ev cl)"
  using Optimistic_split [of cl ev] coherent_close_all coherent_walk by metis

lemma flag_all_frame [simp]:
  "cl_sent (flag_all x s cl) = cl_sent cl" "cl_closed (flag_all x s cl) = cl_closed cl" "cl_bits (flag_all x s cl) = cl_bits cl"
  "cl_memory (flag_all x s cl) = cl_memory cl" "cl_written (flag_all x s cl) = cl_written cl"
  "pm_cur_id (cl_peers (flag_all x s cl)) = pm_cur_id (cl_peers cl)"
  by (simp_all add: flag_all_def split: option.split)

text \<open>\<open>CalculateSpeed\<close>: the order and the totals of the entries do not matter to the statuses.\<close>

lemma find_first_mem:
  "distinct (map de_socket q) \<Longrightarrow> find_first s q = Some v \<longleftrightarrow> v \<in> set q \<and> de_socket v = s"
  by (induction q) (auto simp: image_iff)

lemma find_first_mset:
  assumes "mset q = mset q'" and "distinct (map de_socket q)"
  shows "find_first s q = find_first s q'"
proof -
  have d: "distinct (map de_socket q')" using assms by (metis mset_eq_imp_distinct_iff mset_map)
  have "set q = set q'" using assms(1) by (rule mset_eq_setD)
  then show ?thesis using find_first_mem [OF assms(2)] find_first_mem [OF d] by (metis not_Some_eq)
qed

lemma find_first_reset: "map_option de_status (find_first s (map (\<lambda>v. v\<lparr>de_total := 0\<rparr>) q)) = map_option de_status (find_first s q)"
  by (induction q) auto

lemma coherent_speed:
  assumes "coherent cl" and "CalculateSpeed (cl_speed cl) = (sp, result, ds)"
  shows "coherent (cl\<lparr>cl_speed := ds\<rparr>)" "distinct (map snd result)"
    "set result = (\<lambda>s. (False, s)) ` {s. peers cl s \<noteq> None}"
proof -
  note c = coherentD [OF assms(1)]
  let ?q = "list_sort DSComp (ds_queue (cl_speed cl))"
  have r: "result = map (\<lambda>v. (False, de_socket v)) ?q" "ds = (cl_speed cl)\<lparr>ds_queue := map (\<lambda>v. v\<lparr>de_total := 0\<rparr>) ?q\<rparr>"
    using assms(2) CalculateSpeed_ready [OF c(3)] by simp_all
  have m: "distinct (map de_socket ?q)" using c(5) by (metis mset_eq_imp_distinct_iff mset_map mset_list_sort)
  have st: "ds_status ds = ds_status (cl_speed cl)"
    using find_first_mset [OF _ m, of "ds_queue (cl_speed cl)"] by (simp add: ds_status_def fun_eq_iff r(2) find_first_reset)
  show "coherent (cl\<lparr>cl_speed := ds\<rparr>)"
    using c m st by (simp add: coherent_def pm_ready_def ds_ready_def r(2) comp_def peers_def [abs_def])
  show "distinct (map snd result)" using m by (simp add: r(1) comp_def)
  have "s \<in> de_socket ` set (ds_queue (cl_speed cl)) \<longleftrightarrow> peers cl s \<noteq> None" for s
    using agree_socket [OF c(6), of s] agreeD(5) [OF c(6), of s] find_first_None [of s "ds_queue (cl_speed cl)"]
    by (cases "peers cl s") (auto simp: ds_status_def copied_def)
  then have "de_socket ` set (ds_queue (cl_speed cl)) = {s. peers cl s \<noteq> None}" by blast
  moreover have "set result = (\<lambda>s. (False, s)) ` (de_socket ` set (ds_queue (cl_speed cl)))" by (auto simp: r(1))
  ultimately show "set result = (\<lambda>s. (False, s)) ` {s. peers cl s \<noteq> None}" by simp
qed

lemma unchoke_idle: "\<not> am_choke (pe_status e) \<Longrightarrow> set_status (set_flag SetAmUnChoke) e = e"
  by (simp add: set_status_def)

lemma unchoke_fold:
  assumes "coherent cl" and "distinct ss"
  shows "coherent (fold PM_AmUnChoke ss cl)
    \<and> peers (fold PM_AmUnChoke ss cl) = (\<lambda>s. if s \<in> set ss then map_option (set_status (set_flag SetAmUnChoke)) (peers cl s) else peers cl s)
    \<and> cl_sent (fold PM_AmUnChoke ss cl) = cl_sent cl @
        map (\<lambda>s. (s, UnChoke)) (filter (\<lambda>s. \<exists>e. peers cl s = Some e \<and> am_choke (pe_status e)) ss)
    \<and> cl_closed (fold PM_AmUnChoke ss cl) = cl_closed cl"
  using assms
proof (induction ss arbitrary: cl)
  case (Cons s ss)
  let ?cl = "PM_AmUnChoke s cl"
  have c: "coherent ?cl" using coherent_am(2) [OF Cons.prems(1)] .
  have p: "peers ?cl = (\<lambda>s'. if s' = s then map_option (set_status (set_flag SetAmUnChoke)) (peers cl s) else peers cl s')"
    by (auto simp: am_ops [OF Cons.prems(1)] peers_flag_all unchoke_idle fun_eq_iff simp del: set_flag.simps split: option.splits)
  have f: "filter (\<lambda>s. \<exists>e. peers ?cl s = Some e \<and> am_choke (pe_status e)) ss
      = filter (\<lambda>s. \<exists>e. peers cl s = Some e \<and> am_choke (pe_status e)) ss"
    using Cons.prems(2) by (intro filter_cong) (auto simp: p)
  have m: "cl_sent ?cl = cl_sent cl @ (if \<exists>e. peers cl s = Some e \<and> am_choke (pe_status e) then [(s, UnChoke)] else [])"
    "cl_closed ?cl = cl_closed cl"
    by (auto simp: am_ops [OF Cons.prems(1)] split: option.splits)
  have ih: "coherent (fold PM_AmUnChoke ss ?cl)"
    "peers (fold PM_AmUnChoke ss ?cl) = (\<lambda>s. if s \<in> set ss then map_option (set_status (set_flag SetAmUnChoke)) (peers ?cl s) else peers ?cl s)"
    "cl_sent (fold PM_AmUnChoke ss ?cl) = cl_sent ?cl @
        map (\<lambda>s. (s, UnChoke)) (filter (\<lambda>s. \<exists>e. peers cl s = Some e \<and> am_choke (pe_status e)) ss)"
    "cl_closed (fold PM_AmUnChoke ss ?cl) = cl_closed ?cl"
    using Cons.IH [OF c] Cons.prems(2) unfolding f by simp_all
  have "peers (fold PM_AmUnChoke ss ?cl)
      = (\<lambda>s'. if s' \<in> set (s # ss) then map_option (set_status (set_flag SetAmUnChoke)) (peers cl s') else peers cl s')"
    using Cons.prems(2) unfolding ih(2) p by (auto simp: fun_eq_iff simp del: set_flag.simps)
  then show ?case using ih(1,3,4) m by (simp del: set_flag.simps)
qed (simp add: fun_eq_iff)

lemma PM_CalculateSpeed_fold:
  assumes "coherent cl" and "CalculateSpeed (cl_speed cl) = (sp, result, ds)"
  shows "PM_CalculateSpeed cl = fold PM_AmUnChoke (map snd result) (cl\<lparr>cl_speed := ds\<rparr>)"
proof -
  have "\<forall>val \<in> set result. \<not> fst val" using coherent_speed(3) [OF assms] by auto
  then have "fold (\<lambda>val. if fst val then PM_AmChoke (snd val) else PM_AmUnChoke (snd val)) result cl'
      = fold PM_AmUnChoke (map snd result) cl'" for cl'
    by (induction result arbitrary: cl') auto
  then show ?thesis using assms(2) by (simp add: PM_CalculateSpeed_def)
qed

lemma coherent_CalculateSpeed:
  assumes "coherent cl"
  shows "coherent (PM_CalculateSpeed cl)"
proof -
  obtain sp result ds where r: "CalculateSpeed (cl_speed cl) = (sp, result, ds)" by (metis surj_pair)
  show ?thesis using unchoke_fold coherent_speed [OF assms r] by (simp add: PM_CalculateSpeed_fold [OF assms r])
qed

text \<open>The client at its start.\<close>

definition new_client :: "int \<Rightarrow> client" where
  "new_client junk = \<lparr>cl_peers = PeerManager junk, cl_need = NeedPiece, cl_speed = DownSpeed, cl_bits = BitField,
     cl_memory = BitMemory, cl_written = [], cl_sent = [], cl_closed = []\<rparr>"

lemma coherent_new: "coherent (new_client junk)"
  by (simp add: coherent_def new_client_def PeerManager_def NeedPiece_def DownSpeed_def pm_ready_def np_ready_def
      ds_ready_def agree_def peers_def RetSocketStatus_def ds_status_def tkeys_def)

lemma SendHave_effect:
  assumes "coherent cl" and "0 \<le> i"
  shows "coherent (PM_SendHave ev i cl) \<and> (\<exists>socks. distinct socks \<and> set socks = {s. peers cl s \<noteq> None}
    \<and> cl_sent (PM_SendHave ev i cl) = cl_sent cl @ map (\<lambda>s. (s, frame 4 (be32 i))) socks
    \<and> cl_closed (PM_SendHave ev i cl) = cl_closed cl @ filter (\<lambda>s. ev_send ev s (frame 4 (be32 i)) \<noteq> 9) socks
    \<and> peers (PM_SendHave ev i cl) = (\<lambda>s. if ev_send ev s (frame 4 (be32 i)) \<noteq> 9 then None else peers cl s))"
proof -
  define socks where "socks = map fst (pm_list (cl_peers cl))"
  let ?m = "frame 4 (be32 i)"
  define dels where "dels = filter (\<lambda>s. ev_send ev s ?m \<noteq> 9) socks"
  let ?cl = "fold (\<lambda>s. send_to s ?m) socks cl"
  have d: "distinct socks" using coherentD(4) [OF assms(1)] by (simp add: socks_def tkeys_def)
  have k: "set socks = {s. peers cl s \<noteq> None}" using peers_keys [of _ cl] by (auto simp: socks_def)
  have eq: "PM_SendHave ev i cl = fold PM_CloseSocket dels ?cl"
    using assms(2) coherent_rdlock [OF assms(1)]
    by (auto simp: PM_SendHave_def Let_def Have_frame socks_def dels_def intro!: arg_cong2 [of _ _ _ _ "fold PM_CloseSocket"] filter_cong)
  have c: "coherent ?cl" using assms(1) by simp
  have "distinct dels" "\<And>s. s \<in> set dels \<Longrightarrow> peers ?cl s \<noteq> None" using d k by (auto simp: dels_def)
  then have "cl_closed (PM_SendHave ev i cl) = cl_closed cl @ dels" using close_all_closed [OF c] by (simp add: eq)
  moreover have "peers (PM_SendHave ev i cl) = (\<lambda>s. if ev_send ev s ?m \<noteq> 9 then None else peers cl s)"
    using coherent_close_all [OF c, of dels] k by (auto simp: eq dels_def fun_eq_iff)
  ultimately show ?thesis
    using coherent_close_all [OF c, of dels] d k by (auto simp: eq dels_def)
qed

lemma Optimistic_effect:
  assumes "coherent cl"
  shows "\<exists>pre post. pm_list (cl_peers cl) = pre @ post \<and> coherent (Optimistic ev cl)
    \<and> cl_closed (Optimistic ev cl) = cl_closed cl @ map fst (filter (dropped ev) pre)
    \<and> (post \<noteq> [] \<longrightarrow> am_choke (pe_status (snd (hd post))))
    \<and> (if post = [] then choked_in pre < turn ev cl else choked_in pre + 1 = turn ev cl)
    \<and> cl_sent (Optimistic ev cl) = cl_sent cl @ map (\<lambda>s. (s, KeepAlive)) (keep_alives ev pre)
        @ (if post = [] then [] else [(fst (hd post), UnChoke)])
    \<and> peers (Optimistic ev cl) = (\<lambda>s. if s \<in> fst ` set (filter (dropped ev) pre) then None
        else if post \<noteq> [] \<and> s = fst (hd post) then map_option (set_status (set_flag SetAmUnChoke)) (peers cl s)
        else peers cl s)"
proof -
  obtain pre post where q: "pm_list (cl_peers cl) = pre @ post"
    "Optimistic ev cl = fold PM_CloseSocket (map fst (filter (dropped ev) pre)) (walk ev pre post cl)"
    "post \<noteq> [] \<longrightarrow> am_choke (pe_status (snd (hd post)))"
    "if post = [] then choked_in pre < turn ev cl else choked_in pre + 1 = turn ev cl"
    using Optimistic_split [OF assms] by blast
  let ?d = "map fst (filter (dropped ev) pre)"
  have c: "coherent (walk ev pre post cl)" by (rule coherent_walk [OF assms])
  have w: "cl_closed (walk ev pre post cl) = cl_closed cl"
    "peers (walk ev pre post cl) = (\<lambda>s. if post \<noteq> [] \<and> s = fst (hd post)
        then map_option (set_status (set_flag SetAmUnChoke)) (peers cl s) else peers cl s)"
    by (auto simp: walk_def Let_def peers_flag_all fun_eq_iff simp del: set_flag.simps)
  have "distinct (map fst (pre @ post))" using coherentD(4) [OF assms] by (simp add: q(1) tkeys_def)
  then have "distinct ?d" by (simp add: distinct_map_filter)
  moreover have "peers (walk ev pre post cl) s \<noteq> None" if "s \<in> set ?d" for s
  proof -
    have "s \<in> fst ` set (pm_list (cl_peers cl))" using that by (auto simp: q(1))
    then show ?thesis using peers_keys [of s cl] by (auto simp: w(2))
  qed
  ultimately have "cl_closed (Optimistic ev cl) = cl_closed cl @ ?d"
    using close_all_closed [OF c, of ?d] unfolding q(2) w(1) by blast
  moreover have "peers (Optimistic ev cl) = (\<lambda>s. if s \<in> fst ` set (filter (dropped ev) pre) then None
        else if post \<noteq> [] \<and> s = fst (hd post) then map_option (set_status (set_flag SetAmUnChoke)) (peers cl s) else peers cl s)"
    using coherent_close_all [OF c, of ?d] by (simp add: q(2) w(2) fun_eq_iff del: set_flag.simps)
  moreover have "cl_sent (Optimistic ev cl) = cl_sent cl @ map (\<lambda>s. (s, KeepAlive)) (keep_alives ev pre)
      @ (if post = [] then [] else [(fst (hd post), UnChoke)])"
    using coherent_close_all [OF c, of ?d] by (simp add: q(2) walk_def Let_def)
  ultimately show ?thesis using q(1,3,4) coherent_Optimistic [OF assms]
    by (intro exI [of _ pre] exI [of _ post]) (simp del: set_flag.simps)
qed

lemma calculated:
  assumes "coherent cl"
  shows "peers (PM_CalculateSpeed cl) = (\<lambda>s. map_option (set_status (set_flag SetAmUnChoke)) (peers cl s))"
    "cl_closed (PM_CalculateSpeed cl) = cl_closed cl"
    "\<exists>ss. distinct ss \<and> set ss = {s. \<exists>e. peers cl s = Some e \<and> am_choke (pe_status e)}
       \<and> cl_sent (PM_CalculateSpeed cl) = cl_sent cl @ map (\<lambda>s. (s, UnChoke)) ss"
proof -
  obtain sp result ds where r: "CalculateSpeed (cl_speed cl) = (sp, result, ds)" by (metis surj_pair)
  note c = coherent_speed [OF assms r]
  have p: "peers (cl\<lparr>cl_speed := ds\<rparr>) = peers cl" by (simp add: peers_def fun_eq_iff)
  have ss: "s \<in> set (map snd result) \<longleftrightarrow> peers cl s \<noteq> None" for s by (auto simp: c(3) image_image)
  note u = unchoke_fold [OF c(1,2), unfolded p, folded PM_CalculateSpeed_fold [OF assms r]]
  show "peers (PM_CalculateSpeed cl) = (\<lambda>s. map_option (set_status (set_flag SetAmUnChoke)) (peers cl s))"
    using u ss by (auto simp: fun_eq_iff simp del: set_flag.simps set_map)
  show "cl_closed (PM_CalculateSpeed cl) = cl_closed cl" using u by simp
  let ?f = "filter (\<lambda>s. \<exists>e. peers cl s = Some e \<and> am_choke (pe_status e)) (map snd result)"
  have "distinct ?f" using c(2) by (rule distinct_filter)
  moreover have "set ?f = {s. \<exists>e. peers cl s = Some e \<and> am_choke (pe_status e)}" using ss by (auto simp del: set_map)
  moreover have "cl_sent (PM_CalculateSpeed cl) = cl_sent cl @ map (\<lambda>s. (s, UnChoke)) ?f" using u by simp
  ultimately show "\<exists>ss. distinct ss \<and> set ss = {s. \<exists>e. peers cl s = Some e \<and> am_choke (pe_status e)}
       \<and> cl_sent (PM_CalculateSpeed cl) = cl_sent cl @ map (\<lambda>s. (s, UnChoke)) ss"
    by blast
qed

section \<open>Properties\<close>

text \<open>C10: \<open>SendReq\<close> asks for the first slice of the piece \<open>PopNeed\<close> chose, once each, exactly the peers \<open>PopNeed\<close>
  lists that are connected and have no request open (or an unanswered one of 30 seconds ago); within the next
  30 seconds none of them may be asked again.\<close>

theorem SendReq_asks:
  assumes "coherent cl" and "clock_ok ev"
    and "PopNeed (ev_now ev) (GameEnd (cl_bits cl)) (cl_need cl) = ((i, fds), np)"
  shows "\<exists>rs. distinct rs \<and> set rs = {s \<in> set fds. \<exists>e. peers cl s = Some e \<and> may_request ev e}
    \<and> cl_sent (SendReq ev cl) = cl_sent cl @ map (\<lambda>s. (s, frame 6 (be32 i @ be32 0 @ be32 SLICESIZE))) rs
    \<and> (\<forall>s \<in> set rs. \<forall>ev'. ev_now ev' < ev_now ev + 30 \<longrightarrow>
        (\<exists>e. peers (SendReq ev cl) s = Some e \<and> \<not> may_request ev' e))"
proof -
  let ?m = "ReqCleBase_SetParameter i 0 SLICESIZE Request"
  have m: "?m = frame 6 (be32 i @ be32 0 @ be32 SLICESIZE)" by (simp add: Request_def ReqCleBase_frame)
  have c: "coherent (cl\<lparr>cl_need := np\<rparr>)"
    using PopNeed_coherent [OF assms(1), of "ev_now ev" "GameEnd (cl_bits cl)"] assms(3) by simp
  have p: "peers (cl\<lparr>cl_need := np\<rparr>) = peers cl" by (simp add: peers_def fun_eq_iff)
  have "cl_sent (cl\<lparr>cl_need := np\<rparr>) = cl_sent cl" by simp
  then obtain rs where rs: "distinct rs" "set rs = {s \<in> set fds. \<exists>e. peers cl s = Some e \<and> may_request ev e}"
    "cl_sent (SendReq ev cl) = cl_sent cl @ map (\<lambda>s. (s, ?m)) rs"
    "peers (SendReq ev cl) = (\<lambda>s. if s \<in> set rs then map_option (asked ev) (peers cl s) else peers cl s)"
    using send_req_fold [OF c assms(2), of ?m fds] unfolding p SendReq_fold [OF assms(3)] by auto
  have n: "\<not> may_request ev' (asked ev e)" if "ev_now ev' < ev_now ev + 30" for ev' e
    using that assms(2) by (simp add: may_request_def asked_def clock_ok_def PEERPIECETIME_def u32_id)
  have "\<exists>e. peers (SendReq ev cl) s = Some e \<and> \<not> may_request ev' e" if a: "s \<in> set rs" "ev_now ev' < ev_now ev + 30" for s ev'
  proof -
    obtain e where "peers cl s = Some e" using a(1) unfolding rs(2) by blast
    then have "peers (SendReq ev cl) s = Some (asked ev e)" using a(1) by (simp add: rs(4))
    then show ?thesis using n [OF a(2)] by blast
  qed
  then show ?thesis using rs(1-3) unfolding m by blast
qed

text \<open>Three peers on the sockets 10, 11 and 12; the first two have piece 4, and the peers of 10 and 12 do not choke
  the client.\<close>

definition three_peers :: client where
  "three_peers = PM_AddSocket 12 (PM_AddSocket 11 (PM_AddSocket 10 (new_client 0)))"

definition quiet :: env where
  "quiet = \<lparr>ev_now = 1000, ev_us = 0, ev_send = (\<lambda>s m. int (length m))\<rparr>"

definition sample_client :: client where
  "sample_client = (let cl = PM_PrUnChoke quiet 12 (PM_PrUnChoke quiet 10 three_peers)
     in cl\<lparr>cl_need := PushNeed 4 11 1 (PushNeed 4 10 0 (cl_need cl))\<rparr>)"

lemma three_peers_eq:
  "peers (new_client 0) s = None" "pm_cur_id (cl_peers (new_client 0)) = 0"
  by (simp_all add: new_client_def PeerManager_def peers_def)

lemma three_peers_coherent:
  "coherent three_peers" "peers three_peers = [10 \<mapsto> PeerEntry\<lparr>pe_id := 0\<rparr>, 11 \<mapsto> PeerEntry\<lparr>pe_id := 1\<rparr>, 12 \<mapsto> PeerEntry\<lparr>pe_id := 2\<rparr>]"
proof -
  let ?c0 = "new_client 0" let ?c1 = "PM_AddSocket 10 ?c0" let ?c2 = "PM_AddSocket 11 ?c1"
  have 1: "coherent ?c1" "pm_cur_id (cl_peers ?c1) = 1" "peers ?c1 = [10 \<mapsto> PeerEntry\<lparr>pe_id := 0\<rparr>]"
    using coherent_AddSocket [OF coherent_new [of 0], of 10] by (simp_all add: three_peers_eq fun_eq_iff)
  have 2: "coherent ?c2" "pm_cur_id (cl_peers ?c2) = 2" "peers ?c2 = [10 \<mapsto> PeerEntry\<lparr>pe_id := 0\<rparr>, 11 \<mapsto> PeerEntry\<lparr>pe_id := 1\<rparr>]"
    using coherent_AddSocket [OF 1(1), of 11] by (simp_all add: 1)
  show "coherent three_peers" "peers three_peers = [10 \<mapsto> PeerEntry\<lparr>pe_id := 0\<rparr>, 11 \<mapsto> PeerEntry\<lparr>pe_id := 1\<rparr>, 12 \<mapsto> PeerEntry\<lparr>pe_id := 2\<rparr>]"
    using coherent_AddSocket [OF 2(1), of 12] by (simp_all add: three_peers_def 2)
qed

lemma PushNeed_frame [simp]: "np_id_lock (PushNeed i s d np) = np_id_lock np" "np_id_queue (PushNeed i s d np) = np_id_queue np"
  by (simp_all add: PushNeed_def)

lemma quiet_clock: "clock_ok quiet"
  by (simp add: quiet_def clock_ok_def)

lemma sample_client_coherent: "coherent sample_client"
  unfolding sample_client_def Let_def
  by (rule coherent_need) (auto intro!: coherent_pr three_peers_coherent quiet_clock)


lemma three_peers_need: "cl_need three_peers = \<lparr>np_index_queue = [], np_id_lock = lock_idle,
    np_id_queue = [(0, PeerStatus), (1, PeerStatus), (2, PeerStatus)]\<rparr>"
  by (simp add: three_peers_def PM_AddSocket_def new_client_def PeerManager_def NeedPiece_def SocketMapId_def Let_def
      templace_def i32_def)

lemma SendReq_empty: "np_index_queue (cl_need cl) = [] \<Longrightarrow> SendReq ev cl = cl"
  by (simp add: SendReq_def PopNeed_def)

lemma PrUnChoke_empty:
  "coherent cl \<Longrightarrow> np_index_queue (cl_need cl) = [] \<Longrightarrow> PM_PrUnChoke ev s cl = flag_all SetPrUnChoke s cl"
  by (auto simp: PM_PrUnChoke_eq flag_all_def np_put_def intro!: SendReq_empty split: option.split)

lemma sample_client_need: "cl_need sample_client = \<lparr>np_index_queue =
    [\<lparr>ne_index = 4, ne_status = 0, ne_expire = 0, ne_queue = [(10, 0), (11, 1)]\<rparr>], np_id_lock = lock_idle,
    np_id_queue = [(0, PeerStatus\<lparr>peer_choke := False\<rparr>), (1, PeerStatus), (2, PeerStatus\<lparr>peer_choke := False\<rparr>)]\<rparr>"
    "peers sample_client 10 = Some (PeerEntry\<lparr>pe_status := PeerStatus\<lparr>peer_choke := False\<rparr>\<rparr>)"
    "cl_bits sample_client = BitField" "cl_sent sample_client = []"
proof -
  let ?a = "flag_all SetPrUnChoke 10 three_peers" let ?b = "flag_all SetPrUnChoke 12 ?a"
  have a: "PM_PrUnChoke quiet 10 three_peers = ?a" "coherent ?a"
    using three_peers_coherent by (simp_all add: PrUnChoke_empty three_peers_need coherent_flag_all)
  have pa: "peers three_peers 10 = Some (PeerEntry\<lparr>pe_id := 0\<rparr>)" "peers ?a 12 = Some (PeerEntry\<lparr>pe_id := 2\<rparr>)"
    by (simp_all add: three_peers_coherent peers_flag_all)
  have na: "cl_need ?a = np_put (set_flag SetPrUnChoke) 0 (cl_need three_peers)"
    by (simp add: flag_all_def pa)
  have b: "PM_PrUnChoke quiet 12 ?a = ?b"
    using a by (intro PrUnChoke_empty) (simp_all add: na three_peers_need np_put_def split: option.split)
  have nb: "cl_need ?b = np_put (set_flag SetPrUnChoke) 2 (cl_need ?a)"
    by (simp add: flag_all_def [of _ 12] pa)
  have s: "sample_client = ?b\<lparr>cl_need := PushNeed 4 11 1 (PushNeed 4 10 0 (cl_need ?b))\<rparr>"
    by (simp add: sample_client_def a b Let_def)
  show "cl_need sample_client = \<lparr>np_index_queue =
    [\<lparr>ne_index = 4, ne_status = 0, ne_expire = 0, ne_queue = [(10, 0), (11, 1)]\<rparr>], np_id_lock = lock_idle,
    np_id_queue = [(0, PeerStatus\<lparr>peer_choke := False\<rparr>), (1, PeerStatus), (2, PeerStatus\<lparr>peer_choke := False\<rparr>)]\<rparr>"
    by (simp add: s nb na three_peers_need np_put_def RetSocketStatus_def tfind_def tadjust_def PushNeed_def)
  have "peers sample_client = peers ?b" by (simp add: s peers_def fun_eq_iff)
  then show "peers sample_client 10 = Some (PeerEntry\<lparr>pe_status := PeerStatus\<lparr>peer_choke := False\<rparr>\<rparr>)"
    by (simp add: peers_flag_all three_peers_coherent PeerEntry_def set_status_def)
  show "cl_bits sample_client = BitField" "cl_sent sample_client = []"
    by (simp_all add: s) (simp_all add: three_peers_def PM_AddSocket_def new_client_def PeerManager_def Let_def)
qed

lemma sample_client_pop: "fst (PopNeed 1000 (GameEnd (cl_bits sample_client)) (cl_need sample_client)) = (4, [10])"
  by (simp add: sample_client_need PopNeed_def list_sort_def judge_def open_sockets_def tfind_def PeerStatus_def)

theorem SendReq_asks_witness:
  "\<exists>rs. set rs = {10} \<and> cl_sent (SendReq quiet sample_client) = map (\<lambda>s. (s, frame 6 (be32 4 @ be32 0 @ be32 SLICESIZE))) rs"
proof -
  obtain np where np: "PopNeed (ev_now quiet) (GameEnd (cl_bits sample_client)) (cl_need sample_client) = ((4, [10]), np)"
    using sample_client_pop by (metis env.select_convs(1) prod.collapse quiet_def)
  have "may_request quiet (PeerEntry\<lparr>pe_status := PeerStatus\<lparr>peer_choke := False\<rparr>\<rparr>)"
    by (simp add: may_request_def PeerStatus_def)
  then show ?thesis
    using SendReq_asks [OF sample_client_coherent quiet_clock np] by (auto simp: sample_client_need)
qed

text \<open>C13: \<open>SendHave\<close> tells every connected peer, and closes exactly the connections that did not take the whole
  message; all others stay as they are and the copies of the flags agree afterwards.\<close>

theorem SendHave_tells_all:
  assumes "coherent cl" and "0 \<le> i"
  shows "coherent (PM_SendHave ev i cl) \<and> (\<exists>socks. distinct socks \<and> set socks = {s. peers cl s \<noteq> None}
    \<and> cl_sent (PM_SendHave ev i cl) = cl_sent cl @ map (\<lambda>s. (s, frame 4 (be32 i))) socks
    \<and> cl_closed (PM_SendHave ev i cl) = cl_closed cl @ filter (\<lambda>s. ev_send ev s (frame 4 (be32 i)) \<noteq> 9) socks
    \<and> peers (PM_SendHave ev i cl) = (\<lambda>s. if ev_send ev s (frame 4 (be32 i)) \<noteq> 9 then None else peers cl s))"
  by (rule SendHave_effect [OF assms])

theorem SendHave_tells_all_witness:
  "coherent (PM_SendHave (quiet\<lparr>ev_send := (\<lambda>s m. if s = 11 then - 1 else int (length m))\<rparr>) 4 three_peers)"
  using SendHave_tells_all [OF three_peers_coherent(1), of 4 "quiet\<lparr>ev_send := (\<lambda>s m. if s = 11 then - 1 else int (length m))\<rparr>"]
  by simp

text \<open>C12: \<open>Optimistic\<close> walks over the peers up to the choked one whose turn it is: those it passed (\<open>pre\<close>) are sent a
  keep-alive unless they were silent for 30 seconds, and these and those that do not take it are closed; the head of
  the rest is told and unchoked in all components; nobody else's flags change.\<close>

theorem Optimistic_exact:
  assumes "coherent cl"
  shows "\<exists>pre post. pm_list (cl_peers cl) = pre @ post \<and> coherent (Optimistic ev cl)
    \<and> cl_closed (Optimistic ev cl) = cl_closed cl @ map fst (filter (dropped ev) pre)
    \<and> (post \<noteq> [] \<longrightarrow> am_choke (pe_status (snd (hd post))))
    \<and> (if post = [] then choked_in pre < turn ev cl else choked_in pre + 1 = turn ev cl)
    \<and> cl_sent (Optimistic ev cl) = cl_sent cl @ map (\<lambda>s. (s, KeepAlive)) (keep_alives ev pre)
        @ (if post = [] then [] else [(fst (hd post), UnChoke)])
    \<and> peers (Optimistic ev cl) = (\<lambda>s. if s \<in> fst ` set (filter (dropped ev) pre) then None
        else if post \<noteq> [] \<and> s = fst (hd post) then map_option (set_status (set_flag SetAmUnChoke)) (peers cl s)
        else peers cl s)"
  by (rule Optimistic_effect [OF assms])

theorem Optimistic_exact_witness:
  "\<exists>pre post. pm_list (cl_peers three_peers) = pre @ post
    \<and> cl_sent (Optimistic quiet three_peers) = cl_sent three_peers @ map (\<lambda>s. (s, KeepAlive)) (keep_alives quiet pre)
        @ (if post = [] then [] else [(fst (hd post), UnChoke)])
    \<and> cl_closed (Optimistic quiet three_peers) = cl_closed three_peers @ map fst (filter (dropped quiet) pre)"
  using Optimistic_exact [OF three_peers_coherent(1), of quiet] by blast



text \<open>After \<open>CalculateSpeed\<close> no peer is choked: every choked one is told \<open>UnChoke\<close>, the others nothing, nobody is
  closed, and the flags agree in all components.\<close>

theorem CalculateSpeed_chokes_nobody:
  assumes "coherent cl"
  shows "coherent (PM_CalculateSpeed cl) \<and> (\<forall>s e. peers (PM_CalculateSpeed cl) s = Some e \<longrightarrow> \<not> am_choke (pe_status e))
    \<and> dom (peers (PM_CalculateSpeed cl)) = dom (peers cl) \<and> cl_closed (PM_CalculateSpeed cl) = cl_closed cl
    \<and> (\<exists>ss. distinct ss \<and> set ss = {s. \<exists>e. peers cl s = Some e \<and> am_choke (pe_status e)}
        \<and> cl_sent (PM_CalculateSpeed cl) = cl_sent cl @ map (\<lambda>s. (s, frame 1 [])) ss)"
  using calculated [OF assms] coherent_CalculateSpeed [OF assms] by (auto simp: dom_def short_frames)

theorem CalculateSpeed_chokes_nobody_witness:
  "coherent (PM_CalculateSpeed three_peers) \<and> cl_closed (PM_CalculateSpeed three_peers) = cl_closed three_peers
    \<and> dom (peers (PM_CalculateSpeed three_peers)) = dom (peers three_peers)"
  using CalculateSpeed_chokes_nobody [OF three_peers_coherent(1)] by blast

end
