(* ===== verification/Local_Bits.thy ===== *)
theory Local_Bits
  imports Peer_Manager
begin

text \<open>
  \<open>LocalBitField\<close>: the client's own bit field and what it tells the other singletons; the tail of
  \<open>BitMemory::Write\<close> for a complete piece; how peers come in (\<open>_LoadPeerList\<close> reads the tracker's answer,
  \<open>_Verification\<close> the handshake); and the steps of the whole client with their invariant. Setting up the
  non-blocking connections (\<open>_Connected\<close>) is not modelled: its outcome is what \<open>_Verification\<close> is given.
\<close>

section \<open>LocalBitField\<close>

definition LBF_CheckBitField :: "client \<Rightarrow> int \<Rightarrow> bool res" where
  "LBF_CheckBitField cl T_index = rbind (CheckPiece (cl_bits cl) T_index) (\<lambda>(found, index). Inr (found \<and> 0 \<le> index))"

definition RecvHave :: "int \<Rightarrow> int \<Rightarrow> client \<Rightarrow> client res" where
  "RecvHave T_socket T_index cl =
     rbind (CheckPiece (cl_bits cl) T_index) (\<lambda>(found, index).
       if found then Inr cl
       else let id = GetSocketId cl T_socket
            in if id < 0 then Inr cl
               else let cl = PM_AmInterested T_socket cl
                    in Inr (cl\<lparr>cl_need := PushNeed index T_socket id (cl_need cl)\<rparr>))"

definition RecvBitField :: "int \<Rightarrow> byte list option \<Rightarrow> int \<Rightarrow> client \<Rightarrow> client res" where
  "RecvBitField T_socket T_bit_field T_len cl =
     (case T_bit_field of None \<Rightarrow> Inr cl
      | Some p \<Rightarrow>
          rbind (LackNeedPiece (cl_bits cl) (Some p) T_len) (\<lambda>indexs.
            if indexs = [] then Inr cl
            else let id = GetSocketId cl T_socket
                 in if id < 0 then Inr cl
                    else let cl = PM_AmInterested T_socket cl
                         in Inr (cl\<lparr>cl_need := PushNeed_list (Some indexs) T_socket id (cl_need cl)\<rparr>)))"

definition LBF_FillBitField :: "env \<Rightarrow> int \<Rightarrow> client \<Rightarrow> client res" where
  "LBF_FillBitField ev T_index cl =
     rbind (FillBitField T_index (cl_bits cl)) (\<lambda>bf. Inr (PM_SendHave ev T_index (cl\<lparr>cl_bits := bf\<rparr>)))"

definition LBF_SetParameter :: "files \<Rightarrow> torrent \<Rightarrow> byte list \<Rightarrow> int \<Rightarrow> client \<Rightarrow> client res" where
  "LBF_SetParameter rd t T_bit_field T_total cl =
     rbind (SetParameter T_bit_field T_total (cl_bits cl)) (\<lambda>bf.
     rbind (LoadLocalFile rd t bf) (\<lambda>bf. Inr (cl\<lparr>cl_bits := bf\<rparr>)))"

definition LBF_Clear :: "client \<Rightarrow> client" where
  "LBF_Clear cl = cl\<lparr>cl_bits := BitField_Clear (cl_bits cl)\<rparr>"

text \<open>\<open>BitMemory::Write\<close> with the calls it makes for a complete piece.\<close>

definition Client_Write :: "alloc \<Rightarrow> disk \<Rightarrow> torrent \<Rightarrow> env \<Rightarrow> int \<Rightarrow> int \<Rightarrow> byte list option \<Rightarrow> int \<Rightarrow> client
    \<Rightarrow> (bool \<times> client) res" where
  "Client_Write alloc dk t ev T_index T_begin T_buf T_length cl =
     rbind (BM_Write alloc dk t T_index T_begin T_buf T_length (cl_memory cl)) (\<lambda>(ret, complete, log, bm).
       let cl = cl\<lparr>cl_memory := bm, cl_written := cl_written cl @ log\<rparr>
       in if complete
          then rbind (LBF_FillBitField ev T_index cl) (\<lambda>cl. Inr (ret, cl\<lparr>cl_need := NP_ClearIndex T_index (cl_need cl)\<rparr>))
          else Inr (ret, cl))"

section \<open>New peers\<close>

text \<open>
  \<open>std::stoi\<close> of at most three characters: the number and how many characters were read; \<open>None\<close> is the
  exception the source catches. (Three characters are never out of range.)
\<close>

definition stoi :: "string \<Rightarrow> (int \<times> nat) option" where
  "stoi s =
     (let r = dropWhile is_space s; (neg, u) = split_sign r; ds = takeWhile is_digit u; v = int (digits_val ds)
      in if ds = [] then None
         else Some (if neg then - v else v, (length s - length r) + (length r - length u) + length ds))"

text \<open>The addresses the loop of \<open>_LoadPeerList\<close> reads: four bytes and two bytes each; past the terminator is undefined.\<close>

function peer_loop :: "string \<Rightarrow> int \<Rightarrow> (string \<times> string) list res" where
  "peer_loop start num =
     (if 0 < num
      then (if length start + 1 < 6 then Inl Undef
            else let start0 = start @ [char_of (0 :: nat)]
                 in rbind (peer_loop (drop 6 start) (num - 6)) (\<lambda>r.
                      Inr ((take 4 start0, take 2 (drop 4 start0)) # r)))
      else Inr [])"
  by pat_completeness auto
termination by (relation "measure (\<lambda>(s, n). nat n)") auto

declare peer_loop.simps [simp del]

definition LoadPeerList :: "string \<Rightarrow> (string \<times> string) list res" where
  "LoadPeerList T_socket_list =
     (case find_sub ''peers'' T_socket_list of None \<Rightarrow> Inr []
      | Some found \<Rightarrow>
          let flag = found + 5
          in if length T_socket_list < flag + 3 then Inl Undef
             else (case stoi (take 3 (drop flag T_socket_list)) of None \<Rightarrow> Inr []
                 | Some (num, num_length) \<Rightarrow>
                     peer_loop (drop (flag + num_length + 1) T_socket_list) num))"

text \<open>\<open>buf\<close> is what arrived within 6 seconds when it is the whole 68 bytes.\<close>

definition Verification :: "byte list \<Rightarrow> int \<Rightarrow> byte list option \<Rightarrow> client \<Rightarrow> client res" where
  "Verification hand_shake T_socket buf cl =
     (if T_socket < 0 then Inr cl
      else (case buf of None \<Rightarrow> Inr (close_fd T_socket cl)
          | Some p \<Rightarrow>
              if length p \<noteq> 68 then Inr (close_fd T_socket cl)
              else rbind (HandShake_Varification (Some p) hand_shake) (\<lambda>ok.
                if \<not> ok then Inr (close_fd T_socket cl)
                else Inr (PM_AddSocket T_socket (send_to T_socket (bf_data (cl_bits cl)) cl)))))"

section \<open>Lemmas\<close>

lemma coherent_bits [simp]:
  "coherent (cl\<lparr>cl_bits := b\<rparr>) = coherent cl" "coherent (cl\<lparr>cl_memory := m\<rparr>) = coherent cl"
  "coherent (cl\<lparr>cl_written := w\<rparr>) = coherent cl"
  by (rule coherent_frame; simp)+

lemma PushNeed_list_frame:
  "np_id_lock (PushNeed_list is s d np) = np_id_lock np" "np_id_queue (PushNeed_list is s d np) = np_id_queue np"
proof -
  have "np_id_lock (fold (\<lambda>v. PushNeed v s d) js np) = np_id_lock np
      \<and> np_id_queue (fold (\<lambda>v. PushNeed v s d) js np) = np_id_queue np" for js
    by (induction js arbitrary: np) simp_all
  then show "np_id_lock (PushNeed_list is s d np) = np_id_lock np" "np_id_queue (PushNeed_list is s d np) = np_id_queue np"
    by (simp_all add: PushNeed_list_def split: option.split)
qed

lemma coherent_RecvHave: "coherent cl \<Longrightarrow> RecvHave s i cl = Inr cl' \<Longrightarrow> coherent cl'"
  by (auto simp: RecvHave_def rbind_Inr_iff Let_def coherent_am split: if_splits intro: coherent_need)

lemma coherent_RecvBitField: "coherent cl \<Longrightarrow> RecvBitField s p n cl = Inr cl' \<Longrightarrow> coherent cl'"
  by (auto simp: RecvBitField_def rbind_Inr_iff Let_def coherent_am PushNeed_list_frame split: if_splits option.splits
      intro: coherent_need)

lemma coherent_FillBitField: "coherent cl \<Longrightarrow> LBF_FillBitField ev i cl = Inr cl' \<Longrightarrow> coherent cl'"
  by (auto simp: LBF_FillBitField_def rbind_Inr_iff coherent_SendHave)

lemma coherent_indexes:
  "coherent cl \<Longrightarrow> coherent (cl\<lparr>cl_need := NP_ClearIndex i (cl_need cl)\<rparr>)"
  "coherent cl \<Longrightarrow> coherent (cl\<lparr>cl_need := UnLockIndex i (cl_need cl)\<rparr>)"
  "coherent cl \<Longrightarrow> coherent (cl\<lparr>cl_need := snd (SetIndexW i (cl_need cl))\<rparr>)"
  by (auto intro!: coherent_need simp: NP_ClearIndex_def UnLockIndex_def SetIndexW_def split: option.split)

lemma coherent_Write: "coherent cl \<Longrightarrow> Client_Write a dk t ev i b p n cl = Inr (r, cl') \<Longrightarrow> coherent cl'"
  by (auto simp: Client_Write_def rbind_Inr_iff Let_def coherent_indexes dest: coherent_FillBitField [rotated] split: if_splits)

lemma adjust_status:
  "(\<And>v. de_status (f v) = de_status v \<and> de_socket (f v) = de_socket v) \<Longrightarrow>
    map_option de_status (find_first s (adjust_first t f q)) = map_option de_status (find_first s q)"
  by (induction q) auto

lemma coherent_AddTotal:
  assumes "coherent cl" and "peers cl s \<noteq> None"
  shows "coherent (cl\<lparr>cl_speed := AddTotal s' n (cl_speed cl)\<rparr>)"
proof -
  note c = coherentD [OF assms(1)]
  obtain e where e: "peers cl s = Some e" using assms(2) by blast
  have "ds_queue (cl_speed cl) \<noteq> []"
    using agreeD(5) [OF c(6) e] by (auto simp: ds_status_def copied_def)
  then have ds: "AddTotal s' n (cl_speed cl) = (cl_speed cl)\<lparr>ds_queue :=
      adjust_first s' (\<lambda>v. v\<lparr>de_total := u32 (de_total v + n)\<rparr>) (ds_queue (cl_speed cl))\<rparr>"
    using c(3) by (simp add: AddTotal_def ds_ready_def)
  have st: "ds_status (AddTotal s' n (cl_speed cl)) = ds_status (cl_speed cl)"
    by (simp add: ds ds_status_def fun_eq_iff adjust_status)
  then show ?thesis
    using c by (simp add: coherent_def pm_ready_def peers_def [abs_def]) (simp add: ds ds_ready_def adjust_first_sockets)
qed

section \<open>The steps of the client\<close>

text \<open>
  What the threads of the client do to its state, one operation at a time. A socket the kernel hands out is
  not in the table; the bytes of a slice are counted for a peer that is connected.
\<close>

inductive client_step :: "client \<Rightarrow> client \<Rightarrow> bool" where
  step_add: "\<lbrakk>peers cl s = None; pm_cur_id (cl_peers cl) < 2147483647\<rbrakk> \<Longrightarrow> client_step cl (PM_AddSocket s cl)"
| step_close: "client_step cl (PM_CloseSocket s cl)"
| step_am_choke: "client_step cl (PM_AmChoke s cl)"
| step_am_unchoke: "client_step cl (PM_AmUnChoke s cl)"
| step_am_interested: "client_step cl (PM_AmInterested s cl)"
| step_am_uninterested: "client_step cl (PM_AmUnInterested s cl)"
| step_pr_choke: "client_step cl (PM_PrChoke s cl)"
| step_pr_unchoke: "clock_ok ev \<Longrightarrow> client_step cl (PM_PrUnChoke ev s cl)"
| step_pr_interested: "client_step cl (PM_PrInterested s cl)"
| step_pr_uninterested: "client_step cl (PM_PrUnInterested s cl)"
| step_optimistic: "client_step cl (Optimistic ev cl)"
| step_speed: "client_step cl (PM_CalculateSpeed cl)"
| step_send_have: "client_step cl (PM_SendHave ev i cl)"
| step_send_req: "clock_ok ev \<Longrightarrow> client_step cl (SendReq ev cl)"
| step_req: "client_step cl (snd (ReqPiece ev s cl))"
| step_recv: "client_step cl (snd (RecvPiece s cl))"
| step_clear: "client_step cl (ClearPieceStatus s cl)"
| step_expire: "client_step cl (UpdateExpire ev s cl)"
| step_recv_have: "RecvHave s i cl = Inr cl' \<Longrightarrow> client_step cl cl'"
| step_recv_bits: "RecvBitField s p n cl = Inr cl' \<Longrightarrow> client_step cl cl'"
| step_fill: "LBF_FillBitField ev i cl = Inr cl' \<Longrightarrow> client_step cl cl'"
| step_write: "Client_Write a dk t ev i b buf n cl = Inr (r, cl') \<Longrightarrow> client_step cl cl'"
| step_lock_index: "client_step cl (cl\<lparr>cl_need := snd (SetIndexW i (cl_need cl))\<rparr>)"
| step_unlock_index: "client_step cl (cl\<lparr>cl_need := UnLockIndex i (cl_need cl)\<rparr>)"
| step_total: "peers cl s \<noteq> None \<Longrightarrow> client_step cl (cl\<lparr>cl_speed := AddTotal s n (cl_speed cl)\<rparr>)"
| step_load: "LBF_SetParameter rd t bs n cl = Inr cl' \<Longrightarrow> client_step cl cl'"

lemma coherent_SetParameter: "coherent cl \<Longrightarrow> LBF_SetParameter rd t bs n cl = Inr cl' \<Longrightarrow> coherent cl'"
  by (auto simp: LBF_SetParameter_def rbind_Inr_iff)

lemma coherent_add: "coherent cl \<Longrightarrow> peers cl s = None \<Longrightarrow> pm_cur_id (cl_peers cl) < 2147483647 \<Longrightarrow> coherent (PM_AddSocket s cl)"
  by (cases "0 \<le> s") (simp add: coherent_AddSocket, simp add: PM_AddSocket_def)

lemmas coherent_ops = coherent_add coherent_CloseSocket [THEN conjunct1] coherent_am coherent_pr coherent_Optimistic coherent_CalculateSpeed
  coherent_SendHave coherent_SendReq coherent_ReqPiece coherent_RecvPiece coherent_ClearPieceStatus coherent_UpdateExpire
  coherent_indexes coherent_AddTotal

lemma coherent_step: "client_step cl cl' \<Longrightarrow> coherent cl \<Longrightarrow> coherent cl'"
  by (induction rule: client_step.induct)
    (blast intro: coherent_ops coherent_RecvHave coherent_RecvBitField coherent_FillBitField coherent_Write coherent_SetParameter)+

lemma coherent_reachable: "client_step\<^sup>*\<^sup>* (new_client junk) cl \<Longrightarrow> coherent cl"
  by (induction rule: rtranclp_induct) (simp_all add: coherent_new coherent_step)

section \<open>Lemmas: the tracker's answer\<close>

lemma dec_short: "n < 1000 \<Longrightarrow> length (dec n) \<le> 3"
proof -
  have 1: "length (dec m) = 1" if "m < 10" for m using that by (simp add: dec.simps [of m])
  have 2: "length (dec m) \<le> 2" if "m < 100" for m using 1 [of m] 1 [of "m div 10"] that by (simp add: dec.simps [of m])
  assume "n < 1000"
  then show ?thesis using 1 [of n] 2 [of "n div 10"] by (simp add: dec.simps [of n])
qed

lemma stoi_dec:
  assumes "n < 1000" and "3 \<le> length (dec n @ CHR '':'' # r)"
  shows "stoi (take 3 (dec n @ CHR '':'' # r)) = Some (int n, length (dec n))"
proof -
  let ?d = "dec n" let ?s = "take 3 (?d @ CHR '':'' # r)"
  obtain c ds where eq: "?d = c # ds" and c: "is_digit c" by (rule dec_Cons)
  have s: "?s = ?d @ take (3 - length ?d) (CHR '':'' # r)" using dec_short [OF assms(1)] by simp
  have "dropWhile is_space ?s = ?s" using digit_props [OF c] by (simp add: s eq)
  moreover have "split_sign ?s = (False, ?s)" using digit_props [OF c] by (simp add: s eq split_sign_def)
  moreover have "takeWhile is_digit ?s = ?d"
  proof (cases "3 - length ?d")
    case 0
    then have "?s = ?d" using dec_short [OF assms(1)] by simp
    then show ?thesis by (simp only: takeWhile_digits)
  next
    case (Suc k)
    have "takeWhile is_digit (?d @ CHR '':'' # take k r) = ?d @ takeWhile is_digit (CHR '':'' # take k r)"
      by (rule takeWhile_append2) (rule dec_digits)
    then show ?thesis unfolding s Suc by (simp add: is_digit_def)
  qed
  moreover have "digits_val ?d = n" using dec_spec [of n] by simp
  ultimately show ?thesis by (simp add: stoi_def eq)
qed

lemma peer_loop_read:
  assumes "list_all (\<lambda>(ip, port). length ip = 4 \<and> length port = 2) ps"
  shows "peer_loop (concat (map (\<lambda>(ip, port). ip @ port) ps) @ rest) (6 * int (length ps)) = Inr ps"
  using assms
proof (induction ps)
  case Nil
  then show ?case by (simp add: peer_loop.simps)
next
  case (Cons p ps)
  obtain ip port where p: "p = (ip, port)" "length ip = 4" "length port = 2" using Cons.prems by (cases p) auto
  let ?r = "concat (map (\<lambda>(ip, port). ip @ port) ps) @ rest"
  have "6 * int (length (p # ps)) - 6 = 6 * int (length ps)" by simp
  then show ?case
    using Cons p by (subst peer_loop.simps) (simp add: Let_def)
qed

lemma LoadPeerList_reads:
  assumes "list_all (\<lambda>(ip, port). length ip = 4 \<and> length port = 2) ps" and "ps \<noteq> []" and "length ps \<le> 166"
    and "answer = pre @ ''peers'' @ dec (6 * length ps) @ '':'' @ concat (map (\<lambda>(ip, port). ip @ port) ps) @ rest"
    and "find_sub ''peers'' answer = Some (length pre)"
  shows "LoadPeerList answer = Inr ps"
proof -
  let ?n = "6 * length ps" let ?c = "concat (map (\<lambda>(ip, port). ip @ port) ps)"
  have d: "drop (length pre + 5) answer = dec ?n @ CHR '':'' # ?c @ rest" by (simp add: assms(4))
  obtain p ps' where ps: "ps = p # ps'" using assms(2) by (cases ps) auto
  have "6 \<le> length ?c" using assms(1) by (cases p) (auto simp: ps)
  then have len: "3 \<le> length (dec ?n @ CHR '':'' # ?c @ rest)" by simp
  have st: "stoi (take 3 (drop (length pre + 5) answer)) = Some (int ?n, length (dec ?n))"
    unfolding d using assms(3) len by (intro stoi_dec) auto
  have "length answer = length pre + 5 + length (dec ?n @ CHR '':'' # ?c @ rest)" by (simp add: assms(4))
  then have "\<not> length answer < length pre + 5 + 3" using len by linarith
  moreover have "drop (length pre + 5 + length (dec ?n) + 1) answer = drop (length (dec ?n) + 1) (drop (length pre + 5) answer)"
    by (simp add: add.commute add.left_commute)
  then have "drop (length pre + 5 + length (dec ?n) + 1) answer = ?c @ rest" unfolding d by simp
  ultimately show ?thesis
    using assms(5) st peer_loop_read [OF assms(1), of rest] by (simp add: LoadPeerList_def Let_def)
qed

section \<open>Properties\<close>

text \<open>In every state the client can reach, all locks are free, no two peers share an id, and every peer has in
  \<open>NeedPiece\<close> (by its id) and in \<open>DownSpeed\<close> (by its socket) a status with the same four flags as in
  \<open>PeerManager\<close>; neither component has a status of anyone else.\<close>

theorem flags_agree:
  assumes "client_step\<^sup>*\<^sup>* (new_client junk) cl"
  shows "pm_lock (cl_peers cl) = lock_idle \<and> np_id_lock (cl_need cl) = lock_idle \<and> ds_lock (cl_speed cl) = lock_idle
    \<and> agree (peers cl) (RetSocketStatus (cl_need cl)) (ds_status (cl_speed cl)) (pm_cur_id (cl_peers cl))"
  using coherent_reachable [OF assms] by (simp add: coherent_def pm_ready_def np_ready_def ds_ready_def)

theorem flags_agree_witness:
  "agree (peers (PM_AmInterested 10 (PM_AddSocket 10 (new_client 0))))
     (RetSocketStatus (cl_need (PM_AmInterested 10 (PM_AddSocket 10 (new_client 0)))))
     (ds_status (cl_speed (PM_AmInterested 10 (PM_AddSocket 10 (new_client 0)))))
     (pm_cur_id (cl_peers (PM_AmInterested 10 (PM_AddSocket 10 (new_client 0)))))"
proof -
  have "client_step (new_client 0) (PM_AddSocket 10 (new_client 0))"
    by (rule step_add) (simp_all add: three_peers_eq)
  then have "client_step\<^sup>*\<^sup>* (new_client 0) (PM_AmInterested 10 (PM_AddSocket 10 (new_client 0)))"
    using step_am_interested by (rule rtranclp.rtrancl_into_rtrancl [OF r_into_rtranclp])
  from flags_agree [OF this] show ?thesis by simp
qed

text \<open>Out of a tracker's answer with at most 166 compact addresses \<open>_LoadPeerList\<close> reads exactly these
  addresses.\<close>

theorem LoadPeerList_compact:
  assumes "list_all (\<lambda>(ip, port). length ip = 4 \<and> length port = 2) ps" and "ps \<noteq> []" and "length ps \<le> 166"
    and "answer = pre @ ''peers'' @ dec (6 * length ps) @ '':'' @ concat (map (\<lambda>(ip, port). ip @ port) ps) @ rest"
    and "find_sub ''peers'' answer = Some (length pre)"
  shows "LoadPeerList answer = Inr ps"
  by (rule LoadPeerList_reads [OF assms])

theorem LoadPeerList_compact_witness:
  "LoadPeerList ''d5:peers12:abcdefghijkle'' = Inr [(''abcd'', ''ef''), (''ghij'', ''kl'')]"
proof -
  have "dec 12 = ''12''" by (simp add: dec.simps char_of_def bit_0)
  then show ?thesis
    by (intro LoadPeerList_compact [where pre = "''d5:''" and rest = "''e''"]) simp_all
qed

end
