(* ===== verification/Select_Switch.thy ===== *)
theory Select_Switch
  imports Local_Bits
begin

text \<open>
  \<open>SelectSwitch\<close>: the handlers of the peer protocol's messages, the loop that takes the slices of a piece off
  one connection (\<open>_LockPiece\<close>), and the dispatch of what arrives on the connections that are ready.
  What a socket delivers is a parameter: a \<open>frame_in\<close> is the length prefix as read, the id (\<open>None\<close> when it
  does not come) and the bytes that arrive within the time the source waits; no frame is a prefix that does not
  come. \<open>new(std::nothrow)\<close> is taken to succeed for a size that is not negative. Messages of the slow kind are
  pushed to the thread pool: the dispatch returns them as tasks, which run one at a time in any order.
\<close>

record frame_in =
  fi_len :: int
  fi_id :: "byte option"
  fi_data :: "byte list"

text \<open>\<open>RecvTime_us\<close> into a new buffer of \<open>len\<close> bytes: it fails for a length that is not positive.\<close>

definition recv_body :: "int \<Rightarrow> byte list \<Rightarrow> byte list option" where
  "recv_body len d = (if 0 < len \<and> len \<le> int (length d) then Some (take (nat len) d) else None)"

section \<open>Handlers\<close>

definition DKeepAlive :: "env \<Rightarrow> int \<Rightarrow> client \<Rightarrow> client" where
  "DKeepAlive ev s cl = UpdateExpire ev s cl"

definition DChoke :: "env \<Rightarrow> int \<Rightarrow> client \<Rightarrow> client" where
  "DChoke ev s cl = PM_PrChoke s (UpdateExpire ev s cl)"

definition DUnChoke :: "env \<Rightarrow> int \<Rightarrow> client \<Rightarrow> client" where
  "DUnChoke ev s cl = PM_PrUnChoke ev s (UpdateExpire ev s cl)"

definition DInterested :: "env \<Rightarrow> int \<Rightarrow> client \<Rightarrow> client" where
  "DInterested ev s cl = PM_PrInterested s (UpdateExpire ev s cl)"

definition DUnInterested :: "env \<Rightarrow> int \<Rightarrow> client \<Rightarrow> client" where
  "DUnInterested ev s cl = PM_PrUnInterested s (UpdateExpire ev s cl)"

text \<open>A four byte integer out of the buffer, which is not checked to be that long.\<close>

definition buf_int :: "byte list \<Rightarrow> nat \<Rightarrow> int res" where
  "buf_int buf i = (if length buf < i + 4 then Inl Undef else Inr (rd32 (drop i buf)))"

definition DHave :: "env \<Rightarrow> int \<Rightarrow> byte list \<Rightarrow> client \<Rightarrow> client res" where
  "DHave ev s buf cl =
     (let cl = UpdateExpire ev s cl in rbind (buf_int buf 0) (\<lambda>index. RecvHave s index cl))"

definition DBitField :: "env \<Rightarrow> int \<Rightarrow> byte list \<Rightarrow> client \<Rightarrow> client res" where
  "DBitField ev s buf cl = RecvBitField s (Some buf) (int (length buf)) (UpdateExpire ev s cl)"

text \<open>
  The reads of \<open>_SendPiece\<close>: a file that does not open ends the loop, a short read ends the function
  (\<open>None\<close>); \<open>cur_read\<close> stays 0, so that every part is read to the start of the buffer.
\<close>

fun read_files :: "files \<Rightarrow> fileinfo list \<Rightarrow> byte list \<Rightarrow> byte list option res" where
  "read_files rd [] pdata = Inr (Some pdata)"
| "read_files rd ((name, first, second) # fs) pdata =
     (case rd name first second of
        NotValid \<Rightarrow> Inr (Some pdata)
      | ReadFailed \<Rightarrow> if second \<noteq> - 1 then Inr None else read_files rd fs pdata
      | Stored bs \<Rightarrow>
          if length pdata < length bs then Inl Undef
          else if second \<noteq> int (length bs) then Inr None
          else read_files rd fs (put_at 0 bs pdata))"

definition SendPiece :: "files \<Rightarrow> torrent \<Rightarrow> int \<Rightarrow> int \<Rightarrow> int \<Rightarrow> int \<Rightarrow> client \<Rightarrow> client res" where
  "SendPiece rd t T_socket T_index T_begin T_length cl =
     (let file_name = GetFileName t T_index T_begin T_length
      in if file_name = [] then Inr cl
         else if T_length < 0 then Inl Exit
         else rbind (read_files rd file_name (replicate (nat T_length) 0)) (\<lambda>r.
           case r of None \<Rightarrow> Inr cl
           | Some pdata \<Rightarrow>
               let piece = Piece_SetParameter T_index T_begin pdata Piece
               in if \<not> GetSocketMutex cl T_socket then Inr cl else Inr (send_to T_socket piece cl)))"

definition DRequest :: "files \<Rightarrow> torrent \<Rightarrow> env \<Rightarrow> int \<Rightarrow> byte list \<Rightarrow> client \<Rightarrow> client res" where
  "DRequest rd t ev s buf cl =
     (let cl = UpdateExpire ev s cl
      in if CheckSocket s (cl_speed cl)
         then rbind (buf_int buf 0) (\<lambda>index.
              rbind (LBF_CheckBitField cl index) (\<lambda>have_it.
                if have_it
                then rbind (buf_int buf 4) (\<lambda>begin. rbind (buf_int buf 8) (\<lambda>len. SendPiece rd t s index begin len cl))
                else Inr cl))
         else Inr cl)"

definition DCancle :: "env \<Rightarrow> int \<Rightarrow> client \<Rightarrow> client" where
  "DCancle ev s cl = UpdateExpire ev s cl"

definition DPort :: "env \<Rightarrow> int \<Rightarrow> client \<Rightarrow> client" where
  "DPort ev s cl = UpdateExpire ev s cl"

section \<open>A piece\<close>

text \<open>What a handler works on besides the client: the pool of blocks, the files and the torrent.\<close>

record world =
  wd_alloc :: alloc
  wd_disk :: disk
  wd_files :: files
  wd_torrent :: torrent

text \<open>
  \<open>_LockPiece\<close>: \<open>left\<close> is \<open>T_size - i\<close>, the number of slices still to come, \<open>fs\<close> what the connection delivers.
  The result is \<open>ret\<close> and the client.
\<close>

fun LockPiece :: "world \<Rightarrow> env \<Rightarrow> int \<Rightarrow> int \<Rightarrow> frame_in list \<Rightarrow> int \<Rightarrow> int \<Rightarrow> client \<Rightarrow> (int \<times> client) res" where
  "LockPiece w ev s T_index [] left ret cl = Inr (ret, cl)"
| "LockPiece w ev s T_index (f # fs) left ret cl =
     (if left \<le> 0 then Inr (ret, cl)
      else if 0 = fi_len f then LockPiece w ev s T_index fs left ret (DKeepAlive ev s cl)
      else (case fi_id f of None \<Rightarrow> Inr (ret, cl)
        | Some i \<Rightarrow>
            if i = 0 then LockPiece w ev s T_index fs left ret (DChoke ev s cl)
            else if i = 1 then LockPiece w ev s T_index fs left ret (DUnChoke ev s cl)
            else if i = 2 then LockPiece w ev s T_index fs left ret (DInterested ev s cl)
            else if i = 3 then LockPiece w ev s T_index fs left ret (DUnInterested ev s cl)
            else (case recv_body (i32 (fi_len f - 1)) (fi_data f) of None \<Rightarrow> Inr (ret, cl)
              | Some buf \<Rightarrow>
                  if i = 4 then rbind (DHave ev s buf cl) (LockPiece w ev s T_index fs left ret)
                  else if i = 5 then rbind (DBitField ev s buf cl) (LockPiece w ev s T_index fs left ret)
                  else if i = 6 then rbind (DRequest (wd_files w) (wd_torrent w) ev s buf cl) (LockPiece w ev s T_index fs left ret)
                  else if i = 7
                  then (let cl = UpdateExpire ev s cl
                        in rbind (buf_int buf 0) (\<lambda>index. rbind (buf_int buf 4) (\<lambda>begin.
                             if T_index = index
                             then rbind (Client_Write (wd_alloc w) (wd_disk w) (wd_torrent w) ev index begin
                                          (Some (drop 8 buf)) (int (length buf) - 8) cl) (\<lambda>(ok, cl).
                                    if ok
                                    then LockPiece w ev s T_index fs (left - 1) 1
                                           (cl\<lparr>cl_speed := AddTotal s (int (length buf) - 8) (cl_speed cl)\<rparr>)
                                    else Inr (- 1, cl))
                             else LockPiece w ev s T_index fs left ret cl)))
                  else if i = 8 then LockPiece w ev s T_index fs left ret (DCancle ev s cl)
                  else if i = 9 then LockPiece w ev s T_index fs left ret (DPort ev s cl)
                  else LockPiece w ev s T_index fs left ret cl)))"

text \<open>The requests for the slices from 1 on, up to the first that cannot be sent in full.\<close>

definition slice_requests :: "torrent \<Rightarrow> int \<Rightarrow> byte list list" where
  "slice_requests t index =
     (let size = GetPieceBit t index; end_slice = CheckEndSlice t index
      in map (\<lambda>i. ReqCleBase_SetParameter index (i32 (i * SLICESIZE))
            (if i = size - 1 \<and> fst end_slice then snd end_slice else SLICESIZE) Request) [1..size - 1])"

fun send_until :: "env \<Rightarrow> int \<Rightarrow> byte list list \<Rightarrow> client \<Rightarrow> client" where
  "send_until ev s [] cl = cl"
| "send_until ev s (m # ms) cl =
     (let cl = send_to s m cl in if ev_send ev s m \<noteq> int (length m) then cl else send_until ev s ms cl)"

definition DPiece :: "world \<Rightarrow> env \<Rightarrow> int \<Rightarrow> byte list \<Rightarrow> frame_in list \<Rightarrow> client \<Rightarrow> client res" where
  "DPiece w ev s buf fs cl =
     (let t = wd_torrent w; cl = UpdateExpire ev s cl
      in rbind (buf_int buf 0) (\<lambda>index. rbind (buf_int buf 4) (\<lambda>begin.
         let len = int (length buf) - 8; real_end_slice = CheckEndSlice_begin t index begin
         in if \<not> fst real_end_slice \<and> SLICESIZE \<noteq> len then Inr cl
            else if fst real_end_slice \<and> snd real_end_slice \<noteq> len then Inr cl
            else (let (locked, np) = SetIndexW index (cl_need cl); cl = cl\<lparr>cl_need := np\<rparr>
                  in if \<not> locked then Inr (ClearPieceStatus s cl)
                     else rbind (Client_Write (wd_alloc w) (wd_disk w) t ev index begin (Some (drop 8 buf)) len cl) (\<lambda>(ok, cl).
                       if \<not> ok
                       then (let cl = ClearPieceStatus s cl in Inr (cl\<lparr>cl_need := UnLockIndex index (cl_need cl)\<rparr>))
                       else (let cl = cl\<lparr>cl_speed := AddTotal s len (cl_speed cl)\<rparr>
                             in if \<not> GetSocketMutex cl s
                                then Inr (PM_CloseSocket s (cl\<lparr>cl_need := UnLockIndex index (cl_need cl)\<rparr>))
                                else rbind (LockPiece w ev s index fs (GetPieceBit t index - 1) 0
                                              (send_until ev s (slice_requests t index) cl)) (\<lambda>(code, cl).
                                     rbind (if 0 < code then LBF_CheckBitField cl index else Inr False) (\<lambda>complete.
                                       if complete then Inr (ClearPieceStatus s cl)
                                       else Inr (PM_CloseSocket s (cl\<lparr>cl_need := UnLockIndex index (cl_need cl)\<rparr>))))))))))"

section \<open>Dispatch\<close>

datatype task = THave "byte list" | TBitField "byte list" | TRequest "byte list" | TPiece "byte list" | TCancle | TPort

text \<open>A message on a ready socket: the client and the task that goes to the thread pool, if any.\<close>

definition select_one :: "env \<Rightarrow> int \<Rightarrow> frame_in option \<Rightarrow> client \<Rightarrow> task option \<times> client" where
  "select_one ev s fo cl =
     (case fo of None \<Rightarrow> (None, PM_CloseSocket s cl)
      | Some f \<Rightarrow>
          if 0 = fi_len f then (None, DKeepAlive ev s cl)
          else (case fi_id f of None \<Rightarrow> (None, PM_CloseSocket s cl)
            | Some i \<Rightarrow>
                if i = 0 then (None, DChoke ev s cl)
                else if i = 1 then (None, DUnChoke ev s cl)
                else if i = 2 then (None, DInterested ev s cl)
                else if i = 3 then (None, DUnInterested ev s cl)
                else (case recv_body (i32 (fi_len f - 1)) (fi_data f) of None \<Rightarrow> (None, PM_CloseSocket s cl)
                  | Some buf \<Rightarrow>
                      if i = 4 then (Some (THave buf), cl)
                      else if i = 5 then (Some (TBitField buf), cl)
                      else if i = 6 then (Some (TRequest buf), cl)
                      else if i = 7 then (let (ok, cl) = RecvPiece s cl in (if ok then Some (TPiece buf) else None, cl))
                      else if i = 8 then (Some TCancle, cl)
                      else if i = 9 then (Some TPort, cl)
                      else (None, cl))))"

fun run_task :: "world \<Rightarrow> env \<Rightarrow> int \<Rightarrow> frame_in list \<Rightarrow> task \<Rightarrow> client \<Rightarrow> client res" where
  "run_task w ev s fs (THave buf) cl = DHave ev s buf cl"
| "run_task w ev s fs (TBitField buf) cl = DBitField ev s buf cl"
| "run_task w ev s fs (TRequest buf) cl = DRequest (wd_files w) (wd_torrent w) ev s buf cl"
| "run_task w ev s fs (TPiece buf) cl = DPiece w ev s buf fs cl"
| "run_task w ev s fs TCancle cl = Inr (DCancle ev s cl)"
| "run_task w ev s fs TPort cl = Inr (DPort ev s cl)"

text \<open>One round of \<open>operator()\<close>: the events \<open>epoll_wait\<close> reports, with what each socket delivers.\<close>

fun select_round :: "env \<Rightarrow> (int \<times> frame_in option) list \<Rightarrow> client \<Rightarrow> (int \<times> task) list \<times> client" where
  "select_round ev [] cl = ([], cl)"
| "select_round ev ((s, fo) # evs) cl =
     (let (t, cl) = select_one ev s fo cl; (ts, cl) = select_round ev evs cl
      in (case t of None \<Rightarrow> ts | Some t \<Rightarrow> (s, t) # ts, cl))"

section \<open>Lemmas: the slices of a piece on one connection\<close>

text \<open>The client goes on: its copies of the flags agree, the same peers are connected, and it may have sent more.\<close>

definition follows :: "client \<Rightarrow> client \<Rightarrow> bool" where
  "follows cl cl' \<longleftrightarrow> coherent cl' \<and> dom (peers cl') = dom (peers cl) \<and> (\<exists>ms. cl_sent cl' = cl_sent cl @ ms)"

lemma follows_refl: "coherent cl \<Longrightarrow> follows cl cl"
  by (simp add: follows_def)

lemma follows_trans [trans]: "follows cl cl' \<Longrightarrow> follows cl' cl'' \<Longrightarrow> follows cl cl''"
  by (auto simp: follows_def)

lemma follows_peer: "follows cl cl' \<Longrightarrow> peers cl s \<noteq> None \<longleftrightarrow> peers cl' s \<noteq> None"
  unfolding follows_def dom_def by blast

lemma follows_sent: "follows cl cl' \<Longrightarrow> x \<in> set (cl_sent cl) \<Longrightarrow> x \<in> set (cl_sent cl')"
  by (auto simp: follows_def)

lemma follows_coherent: "follows cl cl' \<Longrightarrow> coherent cl'"
  by (simp add: follows_def)

lemma UpdateExpire_frame [simp]:
  "cl_need (UpdateExpire ev s cl) = cl_need cl" "cl_speed (UpdateExpire ev s cl) = cl_speed cl"
  "cl_bits (UpdateExpire ev s cl) = cl_bits cl" "cl_memory (UpdateExpire ev s cl) = cl_memory cl"
  "cl_written (UpdateExpire ev s cl) = cl_written cl" "cl_sent (UpdateExpire ev s cl) = cl_sent cl"
  "cl_closed (UpdateExpire ev s cl) = cl_closed cl"
  by (simp_all add: UpdateExpire_def split: option.split)

lemma follows_expire: "coherent cl \<Longrightarrow> follows cl (UpdateExpire ev s cl)"
proof -
  assume c: "coherent cl"
  have "dom (peers (UpdateExpire ev s cl)) = dom (peers cl)"
  proof (cases "0 \<le> s")
    case True
    then show ?thesis by (auto simp: UpdateExpire_eq [OF c] peers_leave dom_def)
  qed (simp add: UpdateExpire_def)
  then show ?thesis using coherent_UpdateExpire [OF c] by (simp add: follows_def)
qed

lemma peers_other [simp]:
  "peers (cl\<lparr>cl_speed := d\<rparr>) = peers cl" "peers (cl\<lparr>cl_need := n\<rparr>) = peers cl" "peers (cl\<lparr>cl_memory := m\<rparr>) = peers cl"
  "peers (cl\<lparr>cl_written := l\<rparr>) = peers cl" "peers (cl\<lparr>cl_bits := b\<rparr>) = peers cl"
  by (simp_all add: peers_def fun_eq_iff)

lemma follows_total: "coherent cl \<Longrightarrow> peers cl s \<noteq> None \<Longrightarrow> follows cl (cl\<lparr>cl_speed := AddTotal s n (cl_speed cl)\<rparr>)"
  by (simp add: follows_def coherent_AddTotal)

definition all_sent :: "env \<Rightarrow> bool" where
  "all_sent ev \<longleftrightarrow> (\<forall>s m. ev_send ev s m = int (length m))"

lemma SendHave_frame:
  assumes "all_sent ev"
  shows "cl_need (PM_SendHave ev i cl) = cl_need cl" "cl_bits (PM_SendHave ev i cl) = cl_bits cl"
    "cl_memory (PM_SendHave ev i cl) = cl_memory cl" "cl_written (PM_SendHave ev i cl) = cl_written cl"
  using assms by (simp_all add: PM_SendHave_def all_sent_def Let_def split: option.split)

lemma follows_SendHave:
  assumes "coherent cl" and "all_sent ev" and "0 \<le> i"
  shows "follows cl (PM_SendHave ev i cl)"
    and "peers cl s \<noteq> None \<Longrightarrow> (s, frame 4 (be32 i)) \<in> set (cl_sent (PM_SendHave ev i cl))"
proof -
  have n: "ev_send ev s (frame 4 (be32 i)) = 9" for s using assms(2) by (simp add: all_sent_def)
  obtain socks where s: "set socks = {s. peers cl s \<noteq> None}"
    "cl_sent (PM_SendHave ev i cl) = cl_sent cl @ map (\<lambda>s. (s, frame 4 (be32 i))) socks"
    using SendHave_effect [OF assms(1,3), of ev] by blast
  have "peers (PM_SendHave ev i cl) = peers cl"
    using SendHave_effect [OF assms(1,3), of ev] n by auto
  then show "follows cl (PM_SendHave ev i cl)"
    using SendHave_effect [OF assms(1,3), of ev] s(2) by (simp add: follows_def)
  show "peers cl s \<noteq> None \<Longrightarrow> (s, frame 4 (be32 i)) \<in> set (cl_sent (PM_SendHave ev i cl))"
    using s by auto
qed

lemma Client_Write_part:
  "BM_Write a dk t i b buf n (cl_memory cl) = Inr (r, False, log, bm) \<Longrightarrow>
    Client_Write a dk t ev i b buf n cl = Inr (r, cl\<lparr>cl_memory := bm, cl_written := cl_written cl @ log\<rparr>)"
  by (simp add: Client_Write_def)

text \<open>The last slice: the piece is marked, announced to everyone and no longer needed.\<close>

definition piece_done :: "int \<Rightarrow> client \<Rightarrow> client \<Rightarrow> bool" where
  "piece_done i cl cl' \<longleftrightarrow> follows cl cl' \<and> cl_need cl' = NP_ClearIndex i (cl_need cl)
     \<and> bf_inv (cl_bits cl') \<and> length (bits (cl_bits cl')) = length (bits (cl_bits cl))
     \<and> (\<forall>m. has_bit (bits (cl_bits cl')) m \<longleftrightarrow> has_bit (bits (cl_bits cl)) m \<or> m = nat i)
     \<and> (\<forall>s. peers cl s \<noteq> None \<longrightarrow> (s, frame 4 (be32 i)) \<in> set (cl_sent cl'))"

lemma Client_Write_done:
  assumes "BM_Write a dk t i b buf n (cl_memory cl) = Inr (r, True, log, bm)"
    and "coherent cl" and "all_sent ev" and "0 \<le> i" and "bf_inv (cl_bits cl)" and "nat i < 8 * length (bits (cl_bits cl))"
  shows "\<exists>cl'. Client_Write a dk t ev i b buf n cl = Inr (r, cl') \<and> piece_done i cl cl'
    \<and> cl_written cl' = cl_written cl @ log \<and> cl_memory cl' = bm"
proof -
  have l: "bf_lock (cl_bits cl) = lock_idle" using assms(5) by (simp add: bf_inv_def)
  obtain bf where bf: "FillBitField i (cl_bits cl) = Inr bf" using FillBitField_eq [OF l assms(4,6)] by blast
  note f = FillBitField_fields [OF l assms(4,6) bf]
  let ?cl1 = "cl\<lparr>cl_memory := bm, cl_written := cl_written cl @ log, cl_bits := bf\<rparr>"
  let ?cl2 = "PM_SendHave ev i ?cl1" let ?cl' = "?cl2\<lparr>cl_need := NP_ClearIndex i (cl_need ?cl2)\<rparr>"
  have c1: "coherent ?cl1" using assms(2) by simp
  note h = follows_SendHave [OF c1 assms(3,4)] and fr = SendHave_frame [OF assms(3), of i ?cl1]
  have "Client_Write a dk t ev i b buf n cl = Inr (r, ?cl')"
    using assms(1) bf by (simp add: Client_Write_def LBF_FillBitField_def Let_def)
  moreover have "follows cl ?cl'"
    using h(1) coherent_indexes(1) [OF follows_coherent [OF h(1)]] by (simp add: follows_def)
  moreover have "length (bits bf) = length (bits (cl_bits cl))" using f(5) by (simp add: bits_def)
  ultimately show ?thesis
    using fr h(2) f(1) FillBitField_inv [OF assms(5,6) bf] by (auto simp: piece_done_def)
qed

text \<open>The message that carries slice \<open>k\<close> of piece \<open>i\<close> with the content \<open>C\<close>.\<close>

definition slice_body :: "int \<Rightarrow> byte list \<Rightarrow> nat \<Rightarrow> byte list" where
  "slice_body i C k = be32 i @ be32 (16384 * int k) @ piece_slice C k"

definition slice_frame :: "int \<Rightarrow> byte list \<Rightarrow> nat \<Rightarrow> frame_in" where
  "slice_frame i C k = \<lparr>fi_len = 9 + int (length (piece_slice C k)), fi_id = Some 7, fi_data = slice_body i C k\<rparr>"

definition small_piece :: "int \<Rightarrow> byte list \<Rightarrow> bool" where
  "small_piece i C \<longleftrightarrow> 0 \<le> i \<and> i < 2147483648 \<and> length C \<le> 2 * BT_size"

lemma slice_ints:
  assumes "small_piece i C" and "16384 * k < length C"
  shows "buf_int (slice_body i C k) 0 = Inr i" "buf_int (slice_body i C k) 4 = Inr (16384 * int k)"
    "drop 8 (slice_body i C k) = piece_slice C k" "int (length (slice_body i C k)) - 8 = int (length (piece_slice C k))"
proof -
  have i: "i32 i = i" using assms(1) by (intro i32_id) (auto simp: small_piece_def)
  have k: "i32 (16384 * int k) = 16384 * int k"
    using assms by (intro i32_id) (auto simp: small_piece_def BT_size_def)
  show "buf_int (slice_body i C k) 0 = Inr i" "buf_int (slice_body i C k) 4 = Inr (16384 * int k)"
    "drop 8 (slice_body i C k) = piece_slice C k" "int (length (slice_body i C k)) - 8 = int (length (piece_slice C k))"
    by (simp_all add: buf_int_def slice_body_def rd32_be32_append i k)
qed

lemma recv_slice:
  "recv_body (i32 (fi_len (slice_frame i C k) - 1)) (fi_data (slice_frame i C k)) = Some (slice_body i C k)"
proof -
  have "length (piece_slice C k) \<le> 16384" by (simp add: length_piece_slice)
  then have l: "i32 (9 + int (length (piece_slice C k)) - 1) = int (length (slice_body i C k))"
    by (subst i32_id) (auto simp: slice_body_def)
  have "0 < length (slice_body i C k)" by (simp add: slice_body_def)
  then show ?thesis unfolding slice_frame_def frame_in.simps l by (simp add: recv_body_def)
qed

lemma lock_slice:
  assumes "small_piece i C" and "16384 * k < length C" and "0 < left"
  shows "LockPiece w ev s i (slice_frame i C k # fs) left ret cl =
    rbind (Client_Write (wd_alloc w) (wd_disk w) (wd_torrent w) ev i (16384 * int k) (Some (piece_slice C k))
        (int (length (piece_slice C k))) (UpdateExpire ev s cl)) (\<lambda>(ok, cl).
      if ok then LockPiece w ev s i fs (left - 1) 1 (cl\<lparr>cl_speed := AddTotal s (int (length (piece_slice C k))) (cl_speed cl)\<rparr>)
      else Inr (- 1, cl))"
proof -
  note r = recv_slice [of i C k] and b = slice_ints [OF assms(1,2)]
  have f: "fi_len (slice_frame i C k) \<noteq> 0" "fi_id (slice_frame i C k) = Some 7" by (simp_all add: slice_frame_def)
  show ?thesis using assms(3) f by (simp add: r b Let_def cong: if_cong)
qed

lemma write_slices_Cons:
  assumes "write_slices a dk t i C (k # ks) bm = Inr (replicate (length ks) (True, False) @ [(True, True)], log, bm')"
  shows "\<exists>log0 bm1. BM_Write a dk t i (16384 * int k) (Some (piece_slice C k)) (int (length (piece_slice C k))) bm
      = Inr (True, ks = [], log0, bm1)
    \<and> (if ks = [] then log = log0 \<and> bm' = bm1
       else \<exists>log1. log = log0 @ log1
         \<and> write_slices a dk t i C ks bm1 = Inr (replicate (length ks - 1) (True, False) @ [(True, True)], log1, bm'))"
proof -
  obtain r c log0 bm1 rs log1 where w: "BM_Write a dk t i (16384 * int k) (Some (piece_slice C k)) (int (length (piece_slice C k))) bm
      = Inr (r, c, log0, bm1)" "write_slices a dk t i C ks bm1 = Inr (rs, log1, bm')"
    "(r, c) # rs = replicate (length ks) (True, False) @ [(True, True)]" "log = log0 @ log1"
    using assms by (auto simp: rbind_Inr_iff)
  show ?thesis
  proof (cases ks)
    case Nil
    then show ?thesis using w by simp
  next
    case (Cons j js)
    then show ?thesis using w by simp
  qed
qed

lemma piece_done_after:
  assumes "follows cl cl1" and "cl_need cl1 = cl_need cl" and "cl_bits cl1 = cl_bits cl" and "piece_done i cl1 cl2"
  shows "piece_done i cl cl2"
  using assms follows_trans [OF assms(1), of cl2] follows_peer [OF assms(1)] by (simp add: piece_done_def)

lemma piece_done_then:
  assumes "piece_done i cl cl1" and "follows cl1 cl2" and "cl_need cl2 = cl_need cl1" and "cl_bits cl2 = cl_bits cl1"
  shows "piece_done i cl cl2"
  using assms follows_trans [of cl cl1 cl2] follows_sent [OF assms(2)] by (simp add: piece_done_def)

lemma LockPiece_zero [simp]: "LockPiece w ev s i fs 0 ret cl = Inr (ret, cl)"
  by (cases fs) simp_all

lemma lock_slices:
  assumes "small_piece i C" and "all_sent ev"
  shows "\<lbrakk>write_slices (wd_alloc w) (wd_disk w) (wd_torrent w) i C ks (cl_memory cl)
        = Inr (replicate (length ks - 1) (True, False) @ [(True, True)], log, bm');
      ks \<noteq> []; filter (\<lambda>f. fi_len f \<noteq> 0) fs = map (slice_frame i C) ks; \<forall>k \<in> set ks. 16384 * k < length C;
      coherent cl; peers cl s \<noteq> None; bf_inv (cl_bits cl); nat i < 8 * length (bits (cl_bits cl))\<rbrakk>
    \<Longrightarrow> \<exists>cl'. LockPiece w ev s i fs (int (length ks)) ret cl = Inr (1, cl') \<and> piece_done i cl cl'
      \<and> cl_written cl' = cl_written cl @ log"
proof (induction fs arbitrary: ks cl log ret)
  case Nil
  then show ?case by simp
next
  case (Cons f fs)
  let ?e = "UpdateExpire ev s cl"
  have e: "follows cl ?e" "coherent ?e" "peers ?e s \<noteq> None"
    using follows_expire [OF Cons.prems(5), of ev s] follows_peer [OF follows_expire [OF Cons.prems(5)]] Cons.prems(6)
    by (simp_all add: follows_coherent)
  have pos: "0 < int (length ks)" using Cons.prems(2) by simp
  show ?case
  proof (cases "fi_len f = 0")
    case True
    then obtain cl' where "LockPiece w ev s i fs (int (length ks)) ret ?e = Inr (1, cl')" "piece_done i ?e cl'"
      "cl_written cl' = cl_written ?e @ log"
      using Cons.IH [of ks ?e log ret] Cons.prems e by auto
    then show ?thesis using True pos piece_done_after [OF e(1)] by (auto simp: DKeepAlive_def)
  next
    case False
    obtain k ks' where ks: "ks = k # ks'" "f = slice_frame i C k" "filter (\<lambda>f. fi_len f \<noteq> 0) fs = map (slice_frame i C) ks'"
      using Cons.prems(2,3) False by (cases ks) auto
    have k: "16384 * k < length C" using Cons.prems(4) ks(1) by simp
    have i: "0 \<le> i" using assms(1) by (simp add: small_piece_def)
    let ?n = "int (length (piece_slice C k))"
    note L = lock_slice [OF assms(1) k pos, of w ev s fs ret cl, folded ks(2)]
    obtain log0 bm1 where w: "BM_Write (wd_alloc w) (wd_disk w) (wd_torrent w) i (16384 * int k) (Some (piece_slice C k)) ?n (cl_memory cl)
        = Inr (True, ks' = [], log0, bm1)"
      "if ks' = [] then log = log0 \<and> bm' = bm1
       else \<exists>log1. log = log0 @ log1 \<and> write_slices (wd_alloc w) (wd_disk w) (wd_torrent w) i C ks' bm1
         = Inr (replicate (length ks' - 1) (True, False) @ [(True, True)], log1, bm')"
      using write_slices_Cons [of "wd_alloc w" "wd_disk w" "wd_torrent w" i C k ks' "cl_memory cl" log bm'] Cons.prems(1) ks(1) by auto
    show ?thesis
    proof (cases "ks' = []")
      case True
      obtain cl1 where c1: "Client_Write (wd_alloc w) (wd_disk w) (wd_torrent w) ev i (16384 * int k) (Some (piece_slice C k)) ?n ?e
          = Inr (True, cl1)" "piece_done i ?e cl1" "cl_written cl1 = cl_written cl @ log"
        using Client_Write_done [OF _ e(2) assms(2) i, of "wd_alloc w" "wd_disk w" "wd_torrent w" "16384 * int k"
            "Some (piece_slice C k)" ?n True log0 bm1] w Cons.prems(7,8) True by auto
      have f1: "follows ?e cl1" using c1(2) by (simp add: piece_done_def)
      let ?cl' = "cl1\<lparr>cl_speed := AddTotal s ?n (cl_speed cl1)\<rparr>"
      have "follows cl1 ?cl'" using follows_total [of cl1 s] follows_coherent [OF f1] follows_peer [OF f1] e(3) by simp
      then have "piece_done i cl ?cl'"
        using piece_done_after [OF e(1) _ _ piece_done_then [OF c1(2)]] by simp
      then show ?thesis using c1 ks(1) True L by simp
    next
      case False
      let ?c1 = "?e\<lparr>cl_memory := bm1, cl_written := cl_written cl @ log0\<rparr>"
      let ?c2 = "?c1\<lparr>cl_speed := AddTotal s ?n (cl_speed ?c1)\<rparr>"
      have f1: "follows cl ?c1" using e(1) by (simp add: follows_def)
      have "follows ?c1 ?c2" using follows_total [OF follows_coherent [OF f1]] follows_peer [OF f1] Cons.prems(6) by simp
      then have f2: "follows cl ?c2" by (rule follows_trans [OF f1])
      have cw: "Client_Write (wd_alloc w) (wd_disk w) (wd_torrent w) ev i (16384 * int k) (Some (piece_slice C k)) ?n ?e = Inr (True, ?c1)"
        using Client_Write_part [of "wd_alloc w" "wd_disk w" "wd_torrent w" i "16384 * int k" "Some (piece_slice C k)" ?n ?e True log0 bm1 ev]
          w(1) False by simp
      obtain log1 where l1: "log = log0 @ log1" "write_slices (wd_alloc w) (wd_disk w) (wd_torrent w) i C ks' bm1
         = Inr (replicate (length ks' - 1) (True, False) @ [(True, True)], log1, bm')"
        using w(2) False by auto
      obtain cl' where c: "LockPiece w ev s i fs (int (length ks')) 1 ?c2 = Inr (1, cl')" "piece_done i ?c2 cl'"
        "cl_written cl' = cl_written ?c2 @ log1"
        using Cons.IH [of ks' ?c2 log1 1] l1 False ks(3) Cons.prems(4,7,8) follows_coherent [OF f2] follows_peer [OF f2] Cons.prems(6)
          ks(1) by auto
      have "piece_done i cl cl'" by (rule piece_done_after [OF f2 _ _ c(2)]) simp_all
      moreover have "LockPiece w ev s i (f # fs) (int (length ks)) ret cl = Inr (1, cl')"
        using c(1) cw L ks(1) by simp
      ultimately show ?thesis using c(3) l1(1) by simp
    qed
  qed
qed

section \<open>Lemmas: a piece from its first slice on\<close>

text \<open>The torrent, the disk and the memory as they should be, and \<open>C\<close> the content of piece \<open>i\<close>, of several slices.\<close>

definition good_world :: "world \<Rightarrow> int \<Rightarrow> byte list \<Rightarrow> bool" where
  "good_world w i C \<longleftrightarrow> (let t = wd_torrent w in
     wf_torrent t \<and> tf_single t \<and> GetFileTotal t < 2147483648 \<and> pieces_num t \<le> 107374182 \<and> tf_piece_length t mod SLICESIZE = 0
     \<and> 0 \<le> i \<and> i < pieces_num t \<and> good_alloc (wd_alloc w) \<and> good_disk (wd_disk w) (tf_name t)
     \<and> int (length C) = GetPieceLength t i \<and> length C \<le> 2 * BT_size
     \<and> bytes_of (take 20 (drop (nat (i * 20)) (tf_pieces t))) = fips_sha1 C)"

text \<open>The client has asked for piece \<open>i\<close>, which it lacks and has nothing of, and the peer on socket \<open>s\<close> is connected.\<close>

definition awaits :: "world \<Rightarrow> int \<Rightarrow> client \<Rightarrow> bool" where
  "awaits w i cl \<longleftrightarrow> np_inv (cl_need cl)
     \<and> (\<exists>e. find_entry i (np_index_queue (cl_need cl)) = Some e \<and> ne_status e AND 2 = 0)
     \<and> bf_inv (cl_bits cl) \<and> nat i < 8 * length (bits (cl_bits cl))
     \<and> (\<exists>bm. BM_Init (GetIndexEnd (wd_torrent w)) (GetIndexEndLength (wd_torrent w)) (GetIndexNormalLength (wd_torrent w)) bm
           = Inr (cl_memory cl))
     \<and> tfind (bm_pool (cl_memory cl)) i = None"

definition expects :: "world \<Rightarrow> int \<Rightarrow> int \<Rightarrow> client \<Rightarrow> bool" where
  "expects w s i cl \<longleftrightarrow> coherent cl \<and> peers cl s \<noteq> None \<and> awaits w i cl"

lemma expectsD: "expects w s i cl \<Longrightarrow> coherent cl" "expects w s i cl \<Longrightarrow> awaits w i cl"
  by (simp_all add: expects_def)

definition pieces_of :: "int \<Rightarrow> nat" where
  "pieces_of len = nat ((len + 16383) div 16384)"

lemma good_worldD:
  assumes "good_world w i C"
  shows "small_piece i C" "0 < length C" "GetPieceBit (wd_torrent w) i = int (pieces_of (int (length C)))"
    "length C \<le> 16384 * pieces_of (int (length C))" "16384 * pieces_of (int (length C)) < length C + 16384"
    "i = GetIndexEnd (wd_torrent w) \<or> length C mod 16384 = 0"
    "CheckEndSlice (wd_torrent w) i = (if i = GetIndexEnd (wd_torrent w)
       then (True, if int (length C) mod SLICESIZE = 0 then SLICESIZE else int (length C) mod SLICESIZE) else (False, 0))"
proof -
  note g = assms [unfolded good_world_def Let_def]
  have w: "wf_torrent (wd_torrent w)" and i: "0 \<le> i" "i < pieces_num (wd_torrent w)" using g by blast+
  have pl: "0 < GetPieceLength (wd_torrent w) i" using piece_place(3) [OF w] g by blast
  show "small_piece i C" using g by (simp add: small_piece_def)
  show len: "0 < length C" using pl g by linarith
  show "GetPieceBit (wd_torrent w) i = int (pieces_of (int (length C)))"
    using GetPieceBit_wf [of "wd_torrent w" i] g pl by (simp add: pieces_of_def)
  have "length C + 16383 < 16384 * pieces_of (int (length C)) + 16384 \<and> 16384 * pieces_of (int (length C)) \<le> length C + 16383"
    unfolding pieces_of_def using len by (simp add: nat_add_distrib nat_div_distrib)
  then show "length C \<le> 16384 * pieces_of (int (length C))" "16384 * pieces_of (int (length C)) < length C + 16384"
    by linarith+
  have e: "GetIndexEnd (wd_torrent w) = pieces_num (wd_torrent w) - 1" using GetIndexEnd_wf [OF w] .
  have L: "int (length C) = (if i = pieces_num (wd_torrent w) - 1 then end_length (wd_torrent w) else tf_piece_length (wd_torrent w))"
    using GetPieceLength_wf [OF w i(1)] g by simp
  have "i = GetIndexEnd (wd_torrent w) \<or> int (length C) mod 16384 = 0" using L g e by (auto simp: SLICESIZE_def)
  then show "i = GetIndexEnd (wd_torrent w) \<or> length C mod 16384 = 0" by presburger
  show "CheckEndSlice (wd_torrent w) i = (if i = GetIndexEnd (wd_torrent w)
       then (True, if int (length C) mod SLICESIZE = 0 then SLICESIZE else int (length C) mod SLICESIZE) else (False, 0))"
    using CheckEndSlice_wf [OF w i(1)] L e by simp
qed

lemma first_slice_check:
  assumes "good_world w i C" and "2 \<le> pieces_of (int (length C))"
  shows "length (piece_slice C 0) = 16384"
    "CheckEndSlice_begin (wd_torrent w) i 0 = (if i = GetIndexEnd (wd_torrent w) then (True, 16384) else (False, 0))"
proof -
  have l: "16384 < length C" using good_worldD(5) [OF assms(1)] assms(2) by linarith
  then show "length (piece_slice C 0) = 16384" by (simp add: length_piece_slice)
  have "16384 < GetPieceLength (wd_torrent w) i" using l assms(1) by (simp add: good_world_def Let_def)
  then show "CheckEndSlice_begin (wd_torrent w) i 0 = (if i = GetIndexEnd (wd_torrent w) then (True, 16384) else (False, 0))"
    by (auto simp: CheckEndSlice_begin_def Let_def SLICESIZE_def cmod_nonneg i32_id)
qed

lemma request_lengths:
  assumes "good_world w i C" and "1 \<le> k" and "k < pieces_of (int (length C))"
  shows "(s, frame 6 (be32 i @ be32 (16384 * int k) @ be32 (int (length (piece_slice C k)))))
    \<in> Pair s ` set (slice_requests (wd_torrent w) i)"
proof -
  let ?n = "pieces_of (int (length C))"
  note d = good_worldD [OF assms(1)]
  have small: "16384 * int k < 2147483648"
    using assms(3) d(1,5) by (simp add: small_piece_def BT_size_def)
  have len: "(if int k = int ?n - 1 \<and> fst (CheckEndSlice (wd_torrent w) i) then snd (CheckEndSlice (wd_torrent w) i) else SLICESIZE)
      = int (length (piece_slice C k))"
  proof (cases "k = ?n - 1")
    case True
    define r where "r = length C - 16384 * k"
    have r: "length C = 16384 * k + r" "0 < r" "r \<le> 16384" using d(4,5) assms(2,3) True by (auto simp: r_def)
    have m: "int (length C) mod SLICESIZE = (if r = 16384 then 0 else int r)" "length C mod 16384 = (if r = 16384 then 0 else r)"
      using r(2,3) by (auto simp: r(1) SLICESIZE_def)
    have "length (piece_slice C k) = r" using r by (simp add: length_piece_slice)
    moreover have "int k = int ?n - 1" using True assms(3) by simp
    ultimately show ?thesis using d(6,7) m r(2,3) by (cases "r = 16384") (auto simp: SLICESIZE_def)
  next
    case False
    then have "16384 * k + 16384 \<le> length C" using assms(3) d(5) by linarith
    then show ?thesis using False assms(3) by (auto simp: length_piece_slice SLICESIZE_def)
  qed
  have "int k \<in> set [1..int ?n - 1]" using assms(2,3) by simp
  then have "ReqCleBase_SetParameter i (i32 (int k * SLICESIZE))
      (if int k = int ?n - 1 \<and> fst (CheckEndSlice (wd_torrent w) i) then snd (CheckEndSlice (wd_torrent w) i) else SLICESIZE) Request
    \<in> set (slice_requests (wd_torrent w) i)"
    unfolding slice_requests_def Let_def d(3) by (auto simp only: set_map)
  moreover have "i32 (int k * SLICESIZE) = 16384 * int k"
    using small by (subst i32_id) (auto simp: SLICESIZE_def)
  ultimately have "frame 6 (be32 i @ be32 (16384 * int k) @ be32 (int (length (piece_slice C k)))) \<in> set (slice_requests (wd_torrent w) i)"
    unfolding len by (simp add: Request_def ReqCleBase_frame)
  then show ?thesis by (rule imageI)
qed

lemma send_until_all: "all_sent ev \<Longrightarrow> send_until ev s ms cl = fold (send_to s) ms cl"
  by (induction ms arbitrary: cl) (simp_all add: all_sent_def)

lemma sends_to_frame [simp]:
  "cl_peers (fold (send_to s) ms cl) = cl_peers cl" "cl_need (fold (send_to s) ms cl) = cl_need cl"
  "cl_speed (fold (send_to s) ms cl) = cl_speed cl" "cl_bits (fold (send_to s) ms cl) = cl_bits cl"
  "cl_memory (fold (send_to s) ms cl) = cl_memory cl" "cl_written (fold (send_to s) ms cl) = cl_written cl"
  "cl_sent (fold (send_to s) ms cl) = cl_sent cl @ map (Pair s) ms"
  by (induction ms arbitrary: cl) simp_all

lemma follows_sends: "coherent cl \<Longrightarrow> follows cl (fold (send_to s) ms cl)"
proof -
  have "coherent (fold (send_to s) ms cl) = coherent cl" by (rule coherent_frame) simp_all
  moreover have "peers (fold (send_to s) ms cl) = peers cl" by (simp add: peers_def fun_eq_iff)
  ultimately show "coherent cl \<Longrightarrow> follows cl (fold (send_to s) ms cl)" by (simp add: follows_def)
qed

lemma clear_index_gone:
  "np_inv np \<Longrightarrow> 0 \<le> i \<Longrightarrow> find_entry i (np_index_queue (NP_ClearIndex i np)) = None"
  by (simp add: NP_ClearIndex_def find_entry_drop np_inv_def)

lemma ClearPieceStatus_frame [simp]:
  "cl_need (ClearPieceStatus s cl) = cl_need cl" "cl_bits (ClearPieceStatus s cl) = cl_bits cl"
  "cl_written (ClearPieceStatus s cl) = cl_written cl" "cl_sent (ClearPieceStatus s cl) = cl_sent cl"
  by (simp_all add: ClearPieceStatus_def split: option.split)

lemma follows_clear:
  assumes "coherent cl"
  shows "follows cl (ClearPieceStatus s cl)"
proof -
  have "dom (peers (ClearPieceStatus s cl)) = dom (peers cl)"
  proof (cases "0 \<le> s")
    case True
    then show ?thesis by (auto simp: ClearPieceStatus_eq [OF assms] peers_leave dom_def)
  qed (simp add: ClearPieceStatus_def)
  then show ?thesis using coherent_ClearPieceStatus [OF assms] by (simp add: follows_def)
qed

text \<open>From the accepted first slice to the end: \<open>cl\<close> is the client after the first \<open>Write\<close> and its \<open>AddTotal\<close>.\<close>

lemma DPiece_rest:
  assumes g: "good_world w i C" "2 \<le> pieces_of (int (length C))" and ev: "all_sent ev"
    and cl: "coherent cl" "peers cl s \<noteq> None" "bf_inv (cl_bits cl)" "nat i < 8 * length (bits (cl_bits cl))"
    and fs: "filter (\<lambda>f. fi_len f \<noteq> 0) fs = map (slice_frame i C) ks" "ks \<noteq> []" "\<forall>k \<in> set ks. 16384 * k < length C"
    and n: "int (length ks) = GetPieceBit (wd_torrent w) i - 1"
    and wr: "write_slices (wd_alloc w) (wd_disk w) (wd_torrent w) i C ks (cl_memory cl)
        = Inr (replicate (length ks - 1) (True, False) @ [(True, True)], log, bm')"
  shows "\<exists>cl'. LockPiece w ev s i fs (GetPieceBit (wd_torrent w) i - 1) 0
        (send_until ev s (slice_requests (wd_torrent w) i) cl) = Inr (1, cl')
      \<and> LBF_CheckBitField cl' i = Inr True \<and> piece_done i cl cl' \<and> cl_written cl' = cl_written cl @ log
      \<and> Pair s ` set (slice_requests (wd_torrent w) i) \<subseteq> set (cl_sent cl')"
proof -
  let ?q = "send_until ev s (slice_requests (wd_torrent w) i) cl"
  have q: "?q = fold (send_to s) (slice_requests (wd_torrent w) i) cl" by (rule send_until_all [OF ev])
  have f: "follows cl ?q" unfolding q by (rule follows_sends [OF cl(1)])
  have sp: "small_piece i C" by (rule good_worldD(1) [OF g(1)])
  obtain cl' where c: "LockPiece w ev s i fs (int (length ks)) 0 ?q = Inr (1, cl')" "piece_done i ?q cl'"
    "cl_written cl' = cl_written ?q @ log"
    using lock_slices [OF sp ev, of w ks ?q log bm' fs s 0] fs wr cl follows_coherent [OF f] follows_peer [OF f, of s]
    by (auto simp: q)
  have d: "piece_done i cl cl'" by (rule piece_done_after [OF f _ _ c(2)]) (simp_all add: q)
  have "CheckPiece (cl_bits cl') i = Inr (True, i)"
    using check_piece_eq [of "cl_bits cl'" i] d cl(4) sp by (simp add: piece_done_def small_piece_def)
  then have "LBF_CheckBitField cl' i = Inr True" using sp by (simp add: LBF_CheckBitField_def small_piece_def)
  moreover have "follows ?q cl'" using c(2) by (simp add: piece_done_def)
  then have "Pair s ` set (slice_requests (wd_torrent w) i) \<subseteq> set (cl_sent cl')"
    by (auto simp: follows_def q)
  ultimately show ?thesis using c(1,3) d by (intro exI [of _ cl']) (simp add: n q)
qed

section \<open>Lemmas: serving a slice\<close>

lemma request_body:
  assumes "0 \<le> i" and "i < 2147483648" and "0 \<le> b" and "b < 2147483648" and "0 \<le> l" and "l < 2147483648"
  shows "buf_int (be32 i @ be32 b @ be32 l) 0 = Inr i" "buf_int (be32 i @ be32 b @ be32 l) 4 = Inr b"
    "buf_int (be32 i @ be32 b @ be32 l) 8 = Inr l"
  using assms by (simp_all add: buf_int_def rd32_be32_append i32_id)

lemma DRequest_served:
  assumes "coherent cl" and "bf_inv (cl_bits cl)" and "has_bit (bits (cl_bits cl)) (nat i)" and "CheckSocket s (cl_speed cl)"
    and "0 \<le> i" and "i < 2147483648" and "0 \<le> b" and "b < 2147483648" and "0 \<le> l" and "l < 2147483648"
  shows "DRequest rd t ev s (be32 i @ be32 b @ be32 l) cl = SendPiece rd t s i b l (UpdateExpire ev s cl)"
proof -
  have "CheckPiece (cl_bits cl) i = Inr (True, i)"
    using check_piece_eq [OF assms(2,5)] has_bit_less [OF assms(3)] assms(3) by simp
  then have "LBF_CheckBitField (UpdateExpire ev s cl) i = Inr True" using assms(5) by (simp add: LBF_CheckBitField_def)
  then show ?thesis using assms(4) request_body [OF assms(5-10)] by (simp add: DRequest_def Let_def)
qed

lemma single_offset:
  assumes "on_disk t content" and "0 \<le> i" and "i < pieces_num t" and "0 \<le> b" and "b < GetPieceLength t i"
  shows "i32 (u64 (i * tf_piece_length t + b)) = i * tf_piece_length t + b"
    "0 \<le> i * tf_piece_length t" "i * tf_piece_length t + GetPieceLength t i \<le> int (length content)" "i < 2147483648"
proof -
  have w: "wf_torrent t" "tf_single t" "GetFileTotal t < 2147483648" "int (length content) = GetFileTotal t"
    using assms(1) by (simp_all add: on_disk_def)
  have p: "i * tf_piece_length t + GetPieceLength t i \<le> GetFileTotal t" by (rule piece_place(2) [OF w(1-3) assms(2,3)])
  show z: "0 \<le> i * tf_piece_length t" using assms(2) w(1) by (simp add: wf_torrent_def)
  show "i * tf_piece_length t + GetPieceLength t i \<le> int (length content)" using p w(4) by simp
  show "i32 (u64 (i * tf_piece_length t + b)) = i * tf_piece_length t + b"
    unfolding i32_u64 using p z w(3) assms(4,5) by (intro i32_id) auto
  show "i < 2147483648" using assms(3) w(1) by (simp add: wf_torrent_def)
qed

text \<open>\<open>DPiece\<close> up to the write, and the count of the bytes after it.\<close>

lemma DPiece_locked:
  assumes "good_world w i C" and "coherent cl" and "awaits w i cl"
  obtains np1 where "SetIndexW i (cl_need cl) = (True, np1)" "np_inv np1" "follows cl ((UpdateExpire ev s cl)\<lparr>cl_need := np1\<rparr>)"
proof -
  have i: "0 \<le> i" using assms(1) by (simp add: good_world_def Let_def)
  note x = assms(3) [unfolded awaits_def]
  have e: "follows cl (UpdateExpire ev s cl)" by (rule follows_expire [OF assms(2)])
  define np1 where "np1 = snd (SetIndexW i (cl_need cl))"
  have inv: "np_inv (cl_need cl)" using x by blast
  obtain en where en: "find_entry i (np_index_queue (cl_need cl)) = Some en" "ne_status en AND 2 = 0" using x by blast
  have "fst (SetIndexW i (cl_need cl)) = True" unfolding SetIndexW_def using i en by simp
  then have np1: "SetIndexW i (cl_need cl) = (True, np1)" "np_inv np1"
    using np_exec_inv [OF inv, of "OSetW i"] by (simp_all add: np1_def prod_eq_iff)
  have "coherent ((UpdateExpire ev s cl)\<lparr>cl_need := np1\<rparr>)"
    using coherent_indexes(3) [OF follows_coherent [OF e], of i] np1(1) by simp
  then have "follows cl ((UpdateExpire ev s cl)\<lparr>cl_need := np1\<rparr>)" using e by (simp add: follows_def)
  then show ?thesis using np1 that by blast
qed

lemma DPiece_counted:
  assumes "follows cl cl2" and "peers cl s \<noteq> None"
  shows "follows cl (cl2\<lparr>cl_speed := AddTotal s n (cl_speed cl2)\<rparr>)"
    and "peers (cl2\<lparr>cl_speed := AddTotal s n (cl_speed cl2)\<rparr>) s \<noteq> None"
    and "GetSocketMutex (cl2\<lparr>cl_speed := AddTotal s n (cl_speed cl2)\<rparr>) s"
proof -
  let ?c = "cl2\<lparr>cl_speed := AddTotal s n (cl_speed cl2)\<rparr>"
  have "peers cl2 s \<noteq> None" using follows_peer [OF assms(1), of s] assms(2) by blast
  from follows_trans [OF assms(1) follows_total [OF follows_coherent [OF assms(1)] this]]
  show f: "follows cl ?c" .
  show p: "peers ?c s \<noteq> None" using follows_peer [OF f, of s] assms(2) by blast
  show "GetSocketMutex ?c s"
    using coherentD(1) [OF follows_coherent [OF f]] p by (simp add: GetSocketMutex_def peers_def)
qed

lemma first_slice_written:
  assumes "good_world w i C" and "2 \<le> pieces_of (int (length C))" and "awaits w i cl"
    and "distinct ks" and "set ks = {1..<pieces_of (int (length C))}"
  obtains log0 bm1 log1 bm' where
    "BM_Write (wd_alloc w) (wd_disk w) (wd_torrent w) i 0 (Some (piece_slice C 0)) 16384 (cl_memory cl) = Inr (True, False, log0, bm1)"
    "piece_log (tf_name (wd_torrent w)) (i * tf_piece_length (wd_torrent w)) C = log0 @ log1"
    "write_slices (wd_alloc w) (wd_disk w) (wd_torrent w) i C ks bm1 = Inr (replicate (length ks - 1) (True, False) @ [(True, True)], log1, bm')"
proof -
  let ?t = "wd_torrent w"
  note d = good_worldD [OF assms(1)] and g = assms(1) [unfolded good_world_def Let_def]
  obtain bm where bm: "BM_Init (GetIndexEnd ?t) (GetIndexEndLength ?t) (GetIndexNormalLength ?t) bm = Inr (cl_memory cl)"
    and fresh: "tfind (bm_pool (cl_memory cl)) i = None"
    using assms(3) by (auto simp: awaits_def)
  have ks: "distinct (0 # ks)" "set (0 # ks) = {..<nat (GetPieceBit ?t i)}" "ks \<noteq> []"
    using assms(2,4,5) d(3) by auto
  obtain bm' where ws: "write_slices (wd_alloc w) (wd_disk w) ?t i C (0 # ks) (cl_memory cl) =
      Inr (replicate (length ks) (True, False) @ [(True, True)], piece_log (tf_name ?t) (i * tf_piece_length ?t) C, bm')"
    using slices_complete [of ?t bm "cl_memory cl" i "wd_alloc w" "wd_disk w" C "0 # ks"] g bm fresh ks by auto
  show ?thesis using write_slices_Cons [OF ws] ks(3) first_slice_check(1) [OF assms(1,2)] that by auto
qed

lemma single_slice_check:
  assumes "good_world w i C" and "pieces_of (int (length C)) = 1"
  obtains lb ck where "CheckEndSlice_begin (wd_torrent w) i 0 = (lb, ck)"
    "lb \<longrightarrow> ck = int (length C)" "\<not> lb \<longrightarrow> int (length C) = SLICESIZE"
proof -
  let ?t = "wd_torrent w"
  note d = good_worldD [OF assms(1)] and g = assms(1) [unfolded good_world_def Let_def]
  have C: "0 < length C" "length C \<le> 16384" using d(2,4) assms(2) by simp_all
  have gp: "GetPieceLength ?t i = int (length C)" using g by simp
  have chk: "CheckEndSlice_begin ?t i 0 = (if i = GetIndexEnd ?t then (True, int (length C)) else (False, 0))"
    unfolding CheckEndSlice_begin_def Let_def gp using C by (auto simp: SLICESIZE_def cmod_nonneg i32_id)
  have len: "i = GetIndexEnd ?t \<or> int (length C) = SLICESIZE"
  proof -
    have "length C mod 16384 = 0 \<Longrightarrow> length C = 16384" using C by (metis mod_less not_gr0 le_eq_less_or_eq)
    then show ?thesis using d(6) by (auto simp: SLICESIZE_def)
  qed
  show ?thesis using chk len that by (auto split: if_splits)
qed

section \<open>Properties\<close>

lemma DPiece_completes:
  assumes "good_world w i C" and "2 \<le> pieces_of (int (length C))" and "all_sent ev" and "expects w s i cl"
    and "filter (\<lambda>f. fi_len f \<noteq> 0) fs = map (slice_frame i C) ks" and "distinct ks"
    and "set ks = {1..<pieces_of (int (length C))}"
  shows "\<exists>cl'. DPiece w ev s (slice_body i C 0) fs cl = Inr cl'
    \<and> coherent cl' \<and> dom (peers cl') = dom (peers cl)
    \<and> cl_written cl' = cl_written cl @ piece_log (tf_name (wd_torrent w)) (i * tf_piece_length (wd_torrent w)) C
    \<and> has_bit (bits (cl_bits cl')) (nat i) \<and> find_entry i (np_index_queue (cl_need cl')) = None
    \<and> (\<forall>p. peers cl p \<noteq> None \<longrightarrow> (p, frame 4 (be32 i)) \<in> set (cl_sent cl'))
    \<and> (\<forall>k \<in> set ks. (s, frame 6 (be32 i @ be32 (16384 * int k) @ be32 (int (length (piece_slice C k))))) \<in> set (cl_sent cl'))"
proof -
  let ?t = "wd_torrent w" let ?n = "pieces_of (int (length C))"
  note d = good_worldD [OF assms(1)] and g = assms(1) [unfolded good_world_def Let_def]
  note x = assms(4) [unfolded expects_def awaits_def]
  have i: "0 \<le> i" using g by blast
  have kC: "16384 * k < length C" if "k < ?n" for k using that d(5) by linarith
  have ks: "ks \<noteq> []" "\<forall>k \<in> set ks. 16384 * k < length C" "int (length ks) = GetPieceBit ?t i - 1"
    using assms(2,6,7) kC distinct_card [OF assms(6)] d(3) by auto
  obtain np1 where np1: "SetIndexW i (cl_need cl) = (True, np1)" "np_inv np1"
    "follows cl ((UpdateExpire ev s cl)\<lparr>cl_need := np1\<rparr>)"
    by (rule DPiece_locked [OF assms(1) expectsD(1,2) [OF assms(4)]])
  obtain log0 bm1 log1 bm' where w0:
    "BM_Write (wd_alloc w) (wd_disk w) ?t i 0 (Some (piece_slice C 0)) 16384 (cl_memory cl) = Inr (True, False, log0, bm1)"
    "piece_log (tf_name ?t) (i * tf_piece_length ?t) C = log0 @ log1"
    "write_slices (wd_alloc w) (wd_disk w) ?t i C ks bm1 = Inr (replicate (length ks - 1) (True, False) @ [(True, True)], log1, bm')"
    by (rule first_slice_written [OF assms(1,2) expectsD(2) [OF assms(4)] assms(6,7)])
  let ?c1 = "(UpdateExpire ev s cl)\<lparr>cl_need := np1\<rparr>"
  let ?c2 = "?c1\<lparr>cl_memory := bm1, cl_written := cl_written cl @ log0\<rparr>"
  let ?c3 = "?c2\<lparr>cl_speed := AddTotal s 16384 (cl_speed ?c2)\<rparr>"
  have cw: "Client_Write (wd_alloc w) (wd_disk w) ?t ev i 0 (Some (piece_slice C 0)) 16384 ?c1 = Inr (True, ?c2)"
    using Client_Write_part [of "wd_alloc w" "wd_disk w" ?t i 0 "Some (piece_slice C 0)" 16384 ?c1 True log0 bm1 ev] w0(1) by simp
  have f2: "follows cl ?c2" using np1(3) by (simp add: follows_def)
  have p: "peers cl s \<noteq> None" using x by blast
  note f3 = DPiece_counted(1) [OF f2 p, of 16384] and p3 = DPiece_counted(2) [OF f2 p, of 16384]
    and mx = DPiece_counted(3) [OF f2 p, of 16384]
  obtain cl4 where c4: "LockPiece w ev s i fs (GetPieceBit ?t i - 1) 0 (send_until ev s (slice_requests ?t i) ?c3) = Inr (1, cl4)"
    "LBF_CheckBitField cl4 i = Inr True" "piece_done i ?c3 cl4" "cl_written cl4 = cl_written ?c3 @ log1"
    "Pair s ` set (slice_requests ?t i) \<subseteq> set (cl_sent cl4)"
    using DPiece_rest [OF assms(1-3) follows_coherent [OF f3] p3 _ _ assms(5) ks, of log1 bm'] w0(3) x by auto
  have k0: "16384 * 0 < length C" using d(2) by simp
  note sl = slice_ints [OF d(1) k0]
  have D: "DPiece w ev s (slice_body i C 0) fs cl = Inr (ClearPieceStatus s cl4)"
    using sl first_slice_check [OF assms(1,2)] np1(1) cw mx c4(1,2)
    by (simp add: DPiece_def Let_def SLICESIZE_def)
  have f4: "follows cl cl4" using c4(3) f3 follows_trans by (auto simp: piece_done_def)
  have f5: "follows cl (ClearPieceStatus s cl4)"
    by (rule follows_trans [OF f4 follows_clear [OF follows_coherent [OF f4]]])
  have "find_entry i (np_index_queue (cl_need cl4)) = None"
    using c4(3) clear_index_gone [OF np1(2) i] by (simp add: piece_done_def)
  moreover have "\<forall>p. peers cl p \<noteq> None \<longrightarrow> (p, frame 4 (be32 i)) \<in> set (cl_sent cl4)"
    using c4(3) follows_peer [OF f3] by (simp add: piece_done_def)
  moreover have "(s, frame 6 (be32 i @ be32 (16384 * int k) @ be32 (int (length (piece_slice C k))))) \<in> set (cl_sent cl4)"
    if "k \<in> set ks" for k
    using request_lengths [OF assms(1), of k s] that assms(7) c4(5) by auto
  moreover have "has_bit (bits (cl_bits cl4)) (nat i)" using c4(3) by (simp add: piece_done_def)
  ultimately show ?thesis
    using D f5 c4(4) w0(2) by (intro exI [of _ "ClearPieceStatus s cl4"]) (simp add: follows_def)
qed


text \<open>A torrent of one piece of 20000 bytes, two slices, which the peer on socket 10 has.\<close>

definition one_world :: world where
  "one_world = \<lparr>wd_alloc = blank_alloc, wd_disk = all_disk, wd_files = (\<lambda>_ _ _. NotValid), wd_torrent = one_piece\<rparr>"

definition one_client :: client where
  "one_client = three_peers\<lparr>cl_need := PushNeed 0 10 0 (cl_need three_peers),
     cl_bits := \<lparr>bf_data = (replicate 6 0) [4 := 5], bf_total = 1, bf_cur_sum = 0, bf_lock = lock_idle\<rparr>,
     cl_memory := BitMemory\<lparr>bm_length_end := 20000, bm_length_normal := 32768\<rparr>\<rparr>"

lemma one_piece_lengths:
  "GetIndexEnd one_piece = 0" "end_length one_piece = 20000" "GetIndexNormalLength one_piece = 32768"
  "GetPieceLength one_piece 0 = 20000"
  using one_piece_wf by (simp_all add: GetIndexEnd_wf GetPieceLength_wf end_length_def)
    (simp_all add: one_piece_def GetFileTotal_def GetIndexNormalLength_def new_torrent_def i32_def)

lemma one_world_good: "good_world one_world 0 (replicate 20000 7)"
proof -
  have "bytes_of (take 20 (drop (nat (0 * 20)) (tf_pieces one_piece))) = fips_sha1 (replicate 20000 7)"
    by (simp add: one_piece_def bytes_of_char)
  moreover have "int (length (replicate 20000 (7 :: byte))) = GetPieceLength one_piece 0"
    by (simp only: one_piece_lengths length_replicate)
  ultimately show ?thesis
    unfolding good_world_def Let_def using one_piece_wf
    by (simp add: one_world_def good_alloc_def blank_alloc_def good_disk_def all_disk_def BT_size_def)
      (simp add: one_piece_def new_torrent_def GetFileTotal_def SLICESIZE_def)
qed

lemma one_client_expects: "expects one_world 10 0 one_client"
proof -
  have "coherent (three_peers\<lparr>cl_need := PushNeed 0 10 0 (cl_need three_peers)\<rparr>)"
    by (rule coherent_need) (simp_all add: three_peers_coherent)
  then have "coherent one_client" by (simp add: one_client_def)
  moreover have "peers one_client 10 \<noteq> None" by (simp add: one_client_def three_peers_coherent)
  moreover have "np_inv (cl_need one_client)" "\<exists>e. find_entry 0 (np_index_queue (cl_need one_client)) = Some e \<and> ne_status e AND 2 = 0"
    by (simp_all add: one_client_def three_peers_need PushNeed_def np_inv_def tkeys_def)
  moreover have "bits (cl_bits one_client) = [0]" by (simp add: one_client_def bits_def)
  moreover have "bf_inv (cl_bits one_client)"
  proof -
    have "\<not> has_bit [0] n" for n by (auto simp: has_bit_def)
    then show ?thesis by (simp add: bf_inv_def one_client_def bits_def count_bits_def)
  qed
  moreover have "BM_Init (GetIndexEnd one_piece) (GetIndexEndLength one_piece) (GetIndexNormalLength one_piece) BitMemory
      = Inr (cl_memory one_client)"
    using one_piece_wf by (simp add: one_piece_lengths GetIndexEndLength_wf BM_Init_def BitMemory_def one_client_def)
  then have "\<exists>bm. BM_Init (GetIndexEnd one_piece) (GetIndexEndLength one_piece) (GetIndexNormalLength one_piece) bm
      = Inr (cl_memory one_client)"
    by blast
  moreover have "tfind (bm_pool (cl_memory one_client)) 0 = None" by (simp add: one_client_def BitMemory_def)
  ultimately show ?thesis by (simp add: expects_def awaits_def one_world_def)
qed


lemma DRequest_answers:
  assumes "on_disk t content" and "0 \<le> i" and "i < pieces_num t - 1" and "0 \<le> b" and "0 < l" and "b + l \<le> tf_piece_length t"
    and "coherent cl" and "peers cl s \<noteq> None" and "bf_inv (cl_bits cl)" and "has_bit (bits (cl_bits cl)) (nat i)"
    and "CheckSocket s (cl_speed cl)"
  shows "DRequest (whole_file (tf_name t) content) t ev s (be32 i @ be32 b @ be32 l) cl =
    Inr (send_to s (frame 7 (be32 i @ be32 b @ take (nat l) (drop (nat (i * tf_piece_length t + b)) content))) (UpdateExpire ev s cl))"
proof -
  have w: "wf_torrent t" "tf_single t" "tf_piece_length t < 2147483648" using assms(1) by (auto simp: on_disk_def wf_torrent_def)
  have pl: "GetPieceLength t i = tf_piece_length t" using GetPieceLength_wf [OF w(1) assms(2)] assms(3) by simp
  note o = single_offset [OF assms(1,2), of b, unfolded pl]
  have off: "i32 (u64 (i * tf_piece_length t + b)) = i * tf_piece_length t + b" "0 \<le> i * tf_piece_length t"
    "i * tf_piece_length t + b + l \<le> int (length content)" "i < 2147483648"
    using o assms(3-6) by auto
  have f: "GetFileName t i b l = [(tf_name t, i * tf_piece_length t + b, l)]"
    using w assms(2,3) off(1) by (simp add: GetFileName_def GetIndexEnd_wf)
  let ?bs = "take (nat l) (drop (nat (i * tf_piece_length t + b)) content)"
  have n: "nat (i * tf_piece_length t + b) + nat l \<le> length content"
    using off(2,3) assms(4,5) by linarith
  have len: "length ?bs = nat l" using n by simp
  then have ne: "?bs \<noteq> []" using assms(5) by auto
  have r: "read_files (whole_file (tf_name t) content) [(tf_name t, i * tf_piece_length t + b, l)] (replicate (nat l) 0) = Inr (Some ?bs)"
    using assms(4,5) off(2) len by (simp add: whole_file_def)
  have m: "GetSocketMutex (UpdateExpire ev s cl) s"
    using coherentD(1) [OF follows_coherent [OF follows_expire [OF assms(7)]]] follows_peer [OF follows_expire [OF assms(7)], of s ev s]
      assms(8) by (simp add: GetSocketMutex_def peers_def)
  have "SendPiece (whole_file (tf_name t) content) t s i b l (UpdateExpire ev s cl)
      = Inr (send_to s (frame 7 (be32 i @ be32 b @ ?bs)) (UpdateExpire ev s cl))"
    using assms(5) m Piece_frame [OF assms(2,4) ne] by (simp add: SendPiece_def f r Let_def del: read_files.simps)
  moreover have "b < 2147483648" "0 \<le> l" "l < 2147483648" using assms(4-6) w(3) by linarith+
  ultimately show ?thesis
    using DRequest_served [OF assms(7,9,10,11,2) off(4) assms(4), of l "whole_file (tf_name t) content" t ev] by simp
qed


text \<open>Two pieces of 4 and 2 bytes, both there; the peer on socket 10 is interested.\<close>

definition two_pieces :: torrent where
  "two_pieces = new_torrent\<lparr>tf_pieces := replicate 40 CHR ''h'', tf_name := ''f'', tf_length := 6, tf_piece_length := 4\<rparr>"

definition serving_client :: client where
  "serving_client = (PM_PrInterested 10 three_peers)\<lparr>cl_bits := \<lparr>bf_data = [0, 0, 0, 2, 5, 0xC0], bf_total = 2, bf_cur_sum = 2,
     bf_lock = lock_idle\<rparr>\<rparr>"

lemma two_pieces_disk: "on_disk two_pieces [1, 2, 3, 4, 5, 6]" "pieces_num two_pieces = 2"
  by (simp_all add: on_disk_def two_pieces_def wf_torrent_def pieces_num_def pieces_size_def GetFileTotal_def new_torrent_def)

lemma serving_bits: "has_bit [0xC0] n \<longleftrightarrow> n = 0 \<or> n = 1"
  by (auto simp: has_bit_def bit_hex_def dest!: less_8_cases)

lemma serving_client_ready:
  "coherent serving_client" "peers serving_client 10 \<noteq> None" "bf_inv (cl_bits serving_client)"
  "bits (cl_bits serving_client) = [0xC0]" "CheckSocket 10 (cl_speed serving_client)"
proof -
  show "coherent serving_client" by (simp add: serving_client_def coherent_pr three_peers_coherent)
  show "peers serving_client 10 \<noteq> None"
    by (simp add: serving_client_def pr_ops three_peers_coherent peers_flag_all)
  show b: "bits (cl_bits serving_client) = [0xC0]" by (simp add: serving_client_def bits_def)
  have "{n. n = (0 :: nat) \<or> n = 1} = {0, 1}" by auto
  then show "bf_inv (cl_bits serving_client)"
    unfolding bf_inv_def count_bits_def b serving_bits by (simp add: serving_client_def)
  have "ds_queue (cl_speed three_peers) = map (\<lambda>s. \<lparr>de_status = PeerStatus, de_socket = s, de_total = 0\<rparr>) [10, 11, 12]"
    "ds_lock (cl_speed three_peers) = lock_idle"
    by (simp_all add: three_peers_def PM_AddSocket_def new_client_def PeerManager_def DownSpeed_def DS_AddSocket_def Let_def)
  then have "RetSocket (cl_speed (PM_PrInterested 10 three_peers)) = [10]"
    by (simp add: pr_ops three_peers_coherent flag_all_def ds_put_def RetSocket_def PeerStatus_def)
  then show "CheckSocket 10 (cl_speed serving_client)" by (simp add: serving_client_def CheckSocket_def)
qed


text \<open>C34: a request for a slice of the last piece that is shorter than the piece writes past the end of the buffer: the
  whole piece is read into a buffer of the length the peer asked for.\<close>

theorem DRequest_last_overruns:
  assumes "on_disk t content" and "i = pieces_num t - 1" and "0 \<le> b" and "b < 2147483648" and "0 \<le> l" and "l < GetPieceLength t i"
    and "coherent cl" and "bf_inv (cl_bits cl)" and "has_bit (bits (cl_bits cl)) (nat i)" and "CheckSocket s (cl_speed cl)"
  shows "DRequest (whole_file (tf_name t) content) t ev s (be32 i @ be32 b @ be32 l) cl = Inl Undef"
proof -
  have w: "wf_torrent t" "tf_single t" "GetFileTotal t < 2147483648" "int (length content) = GetFileTotal t"
    using assms(1) by (auto simp: on_disk_def)
  have i: "0 \<le> i" "i < pieces_num t" using assms(2) w(1) by (auto simp: wf_torrent_def)
  have pl: "GetPieceLength t i = end_length t" using GetPieceLength_wf [OF w(1) i(1)] assms(2) by simp
  note e = end_length_bounds [OF w(1)]
  note o = single_offset [OF assms(1) i, of 0, unfolded pl]
  have off: "i32 (u64 (i * tf_piece_length t)) = i * tf_piece_length t" "0 \<le> i * tf_piece_length t"
    "i * tf_piece_length t + end_length t \<le> int (length content)" "i < 2147483648"
    using o e(1) by auto
  have tot: "GetFileTotal t - i * tf_piece_length t = end_length t" by (simp add: assms(2) end_length_def)
  have "i32 (u64 (GetFileTotal t - i * tf_piece_length t)) = end_length t"
    unfolding tot i32_u64 using e by (intro i32_id) auto
  then have f: "GetFileName t i b l = [(tf_name t, i * tf_piece_length t, end_length t)]"
    using w assms(2) i off(1) by (simp add: GetFileName_def GetIndexEnd_wf Let_def)
  let ?bs = "take (nat (end_length t)) (drop (nat (i * tf_piece_length t)) content)"
  have "length ?bs = nat (end_length t)" using off(2,3) e(1) by (simp add: min_def) linarith
  then have "nat l < length ?bs" using assms(5,6) pl by simp
  then have r: "read_files (whole_file (tf_name t) content) [(tf_name t, i * tf_piece_length t, end_length t)] (replicate (nat l) 0) = Inl Undef"
    using off(2) e(1) by (simp add: whole_file_def)
  have "SendPiece (whole_file (tf_name t) content) t s i b l (UpdateExpire ev s cl) = Inl Undef"
    using assms(5) by (simp add: SendPiece_def f r Let_def del: read_files.simps)
  then show ?thesis
    using DRequest_served [OF assms(7-10) i(1) off(4) assms(3,4,5), of "whole_file (tf_name t) content" t ev] assms(6) pl e(3) by simp
qed

theorem DRequest_last_overruns_witness:
  "DRequest (whole_file (tf_name two_pieces) [1, 2, 3, 4, 5, 6]) two_pieces quiet 10 (be32 1 @ be32 0 @ be32 1) serving_client = Inl Undef"
proof (rule DRequest_last_overruns [OF two_pieces_disk(1)])
  have "GetPieceLength two_pieces 1 = end_length two_pieces"
    using GetPieceLength_wf [of two_pieces 1] two_pieces_disk by (simp add: on_disk_def)
  also have "\<dots> = 2" using two_pieces_disk(2) by (simp add: end_length_def) (simp add: two_pieces_def GetFileTotal_def new_torrent_def)
  finally show "1 < GetPieceLength two_pieces 1" by simp
qed (simp_all add: two_pieces_disk(2) serving_client_ready serving_bits)


text \<open>A torrent of 100 bytes, one piece of one slice.\<close>

definition tiny_piece :: torrent where
  "tiny_piece = new_torrent\<lparr>tf_pieces := map (\<lambda>b. char_of (unat b)) (fips_sha1 (replicate 100 7)), tf_name := ''f'',
     tf_length := 100, tf_piece_length := 16384\<rparr>"

definition tiny_world :: world where
  "tiny_world = \<lparr>wd_alloc = blank_alloc, wd_disk = all_disk, wd_files = (\<lambda>_ _ _. NotValid), wd_torrent = tiny_piece\<rparr>"

definition tiny_client :: client where
  "tiny_client = one_client\<lparr>cl_memory := BitMemory\<lparr>bm_length_end := 100, bm_length_normal := 16384\<rparr>\<rparr>"

lemma tiny_piece_wf: "wf_torrent tiny_piece" "pieces_num tiny_piece = 1"
  by (simp_all add: tiny_piece_def wf_torrent_def pieces_num_def pieces_size_def GetFileTotal_def new_torrent_def)

lemma tiny_piece_lengths:
  "GetIndexEnd tiny_piece = 0" "end_length tiny_piece = 100" "GetIndexNormalLength tiny_piece = 16384"
  "GetPieceLength tiny_piece 0 = 100"
  using tiny_piece_wf by (simp_all add: GetIndexEnd_wf GetPieceLength_wf end_length_def)
    (simp_all add: tiny_piece_def GetFileTotal_def GetIndexNormalLength_def new_torrent_def i32_def)

lemma tiny_world_good: "good_world tiny_world 0 (replicate 100 7)"
proof -
  have "bytes_of (take 20 (drop (nat (0 * 20)) (tf_pieces tiny_piece))) = fips_sha1 (replicate 100 7)"
    by (simp add: tiny_piece_def bytes_of_char)
  moreover have "int (length (replicate 100 (7 :: byte))) = GetPieceLength tiny_piece 0"
    by (simp only: tiny_piece_lengths length_replicate)
  ultimately show ?thesis
    unfolding good_world_def Let_def using tiny_piece_wf
    by (simp add: tiny_world_def good_alloc_def blank_alloc_def good_disk_def all_disk_def BT_size_def)
      (simp add: tiny_piece_def new_torrent_def GetFileTotal_def SLICESIZE_def)
qed

lemma tiny_client_expects: "expects tiny_world 10 0 tiny_client"
proof -
  note e = one_client_expects [unfolded expects_def awaits_def]
  have "BM_Init (GetIndexEnd tiny_piece) (GetIndexEndLength tiny_piece) (GetIndexNormalLength tiny_piece) BitMemory
      = Inr (cl_memory tiny_client)"
    using tiny_piece_wf by (simp add: tiny_piece_lengths GetIndexEndLength_wf BM_Init_def BitMemory_def tiny_client_def)
  then have "\<exists>bm. BM_Init (GetIndexEnd tiny_piece) (GetIndexEndLength tiny_piece) (GetIndexNormalLength tiny_piece) bm
      = Inr (cl_memory tiny_client)"
    by blast
  moreover have "tfind (bm_pool (cl_memory tiny_client)) 0 = None" by (simp add: tiny_client_def BitMemory_def)
  ultimately show ?thesis using e by (simp add: expects_def awaits_def tiny_world_def tiny_client_def)
qed


end
