(* ===== verification/Web.thy ===== *)
theory Web
  imports Tables
begin

text \<open>
  \<open>src/Web\<close>: \<open>UrlEscape\<close>, the request line and headers (\<open>HttpRequest\<close>), the read buffer of a connection
  (\<open>CacheRegio\<close>) and the response (\<open>HttpResponse\<close>). What \<open>read(2)\<close> returns on the socket is a parameter, a
  list of \<open>reading\<close>: bytes that have arrived (a read takes at most the 1024 it asks for and leaves the rest), an
  interruption, an error; at the end of the list the peer has closed the connection. Whether \<open>new\<close> succeeds and the
  environment variable \<open>CszWebCache\<close> are parameters too. \<open>ReadBuf\<close> may run for ever: it takes fuel, one unit per
  iteration.
\<close>

section \<open>UrlEscape\<close>

definition is_alnum :: "char \<Rightarrow> bool" where
  "is_alnum c \<longleftrightarrow> (let n = (of_char c :: nat) in 48 \<le> n \<and> n \<le> 57 \<or> 65 \<le> n \<and> n \<le> 90 \<or> 97 \<le> n \<and> n \<le> 122)"

text \<open>The lower-case hexadecimal digit of \<open>printf\<close>.\<close>

definition hex_digit :: "nat \<Rightarrow> char" where
  "hex_digit d = char_of (if d < 10 then 48 + d else 87 + d)"

definition plain_char :: "char \<Rightarrow> bool" where
  "plain_char c \<longleftrightarrow> is_alnum c \<or> c \<in> {CHR ''.'', CHR ''-'', CHR ''_'', CHR ''~''}"

fun UrlEscape :: "string \<Rightarrow> string" where
  "UrlEscape [] = []"
| "UrlEscape (c # s) =
     (if plain_char c then [c] else [CHR ''%'', hex_digit (of_char c div 16), hex_digit (of_char c mod 16)]) @ UrlEscape s"

section \<open>HttpRequest\<close>

definition CR :: char where "CR = CHR 0x0D"
definition LF :: char where "LF = CHR 0x0A"

record http_request =
  hr_head_end :: string
  hr_data :: "string list"

definition HttpRequest :: http_request where
  "HttpRequest = \<lparr>hr_head_end = [CR, LF, CR, LF], hr_data = [[]]\<rparr>"

definition SetFirstLine :: "string \<Rightarrow> http_request \<Rightarrow> http_request res" where
  "SetFirstLine T_request_head r =
     (if hr_data r = [] then Inl Exit else Inr (r\<lparr>hr_data := (hr_data r) [0 := T_request_head @ [CR, LF]]\<rparr>))"

definition SetHeader :: "string \<Rightarrow> string \<Rightarrow> http_request \<Rightarrow> http_request" where
  "SetHeader T_name T_val r = r\<lparr>hr_data := hr_data r @ [T_name @ '': '' @ T_val @ [CR, LF]]\<rparr>"

text \<open>The entries of the array that are bound, and whether all lines fitted.\<close>

definition BindMsg :: "http_request \<Rightarrow> nat \<Rightarrow> bool \<times> string list" where
  "BindMsg r T_iovec_len =
     (let iovec_index = min T_iovec_len (length (hr_data r))
      in if iovec_index < T_iovec_len then (True, take iovec_index (hr_data r) @ [hr_head_end r])
         else (False, take iovec_index (hr_data r)))"

definition request_size :: "http_request \<Rightarrow> nat" where
  "request_size r = length (hr_data r)"

section \<open>CacheRegio\<close>

datatype reading = Got string | Intr | Failed

text \<open>The buffer: its size, \<open>read_cnt\<close>, and the bytes from \<open>read_ptr\<close> on.\<close>

record cache =
  ca_size :: nat
  ca_cnt :: int
  ca_ptr :: string

definition CACHESIZE :: nat where
  "CACHESIZE = 1024"

definition CacheRegio :: "(nat \<Rightarrow> bool) \<Rightarrow> string option \<Rightarrow> cache res" where
  "CacheRegio can_new cache_size =
     (let len = (case cache_size of None \<Rightarrow> CACHESIZE
        | Some s \<Rightarrow> (case stoul s of Inl _ \<Rightarrow> CACHESIZE | Inr n \<Rightarrow> n))
      in if can_new len then Inr \<lparr>ca_size = len, ca_cnt = 0, ca_ptr = []\<rparr> else Inl Exit)"

text \<open>The loop of \<open>AddCache\<close> on an empty buffer; more bytes than the buffer holds are written past its end.\<close>

fun fill_cache :: "reading list \<Rightarrow> cache \<Rightarrow> (int \<times> cache \<times> reading list) res" where
  "fill_cache [] c = Inr (0, c\<lparr>ca_cnt := 0\<rparr>, [])"
| "fill_cache (Intr # rs) c = fill_cache rs c"
| "fill_cache (Failed # rs) c = Inr (- 1, c\<lparr>ca_cnt := - 1\<rparr>, rs)"
| "fill_cache (Got bs # rs) c =
     (let got = take CACHESIZE bs
      in if ca_size c < length got then Inl Undef
         else if got = [] then Inr (0, c\<lparr>ca_cnt := 0\<rparr>, rs)
         else Inr (int (length got), c\<lparr>ca_cnt := int (length got), ca_ptr := got\<rparr>,
                   if length bs \<le> CACHESIZE then rs else Got (drop CACHESIZE bs) # rs))"

definition AddCache :: "reading list \<Rightarrow> cache \<Rightarrow> (int \<times> cache \<times> reading list) res" where
  "AddCache rs c = (if 0 < ca_cnt c then Inr (ca_cnt c, c, rs) else fill_cache rs c)"

fun read_line :: "nat \<Rightarrow> reading list \<Rightarrow> cache \<Rightarrow> (string \<times> cache \<times> reading list) res" where
  "read_line 0 rs c = Inr ([], c, rs)"
| "read_line (Suc n) rs c =
     rbind (AddCache rs c) (\<lambda>(k, c, rs).
       if k \<le> 0 then Inr ([], c\<lparr>ca_cnt := k\<rparr>, rs)
       else (case ca_ptr c of [] \<Rightarrow> Inl Undef
         | x # p \<Rightarrow>
             let c = c\<lparr>ca_cnt := k - 1, ca_ptr := p\<rparr>
             in if x = LF then Inr ([], c, rs)
                else rbind (read_line n rs c) (\<lambda>(line, c, rs). Inr (x # line, c, rs))))"

definition ReadLine :: "reading list \<Rightarrow> cache \<Rightarrow> (string \<times> cache \<times> reading list) res" where
  "ReadLine = read_line CACHESIZE"

text \<open>\<open>append\<close> with a negative length is \<open>std::length_error\<close>, which nobody catches.\<close>

fun ReadBuf :: "nat \<Rightarrow> int \<Rightarrow> reading list \<Rightarrow> cache \<Rightarrow> (string \<times> cache \<times> reading list) res" where
  "ReadBuf 0 T_save_num rs c = Inl Fuel"
| "ReadBuf (Suc n) T_save_num rs c =
     (if T_save_num \<le> 0 then Inr ([], c, rs)
      else let curr_num = (if ca_cnt c < T_save_num then ca_cnt c else T_save_num)
           in if curr_num < 0 then Inl Exit
              else if length (ca_ptr c) < nat curr_num then Inl Undef
              else let ret_str = take (nat curr_num) (ca_ptr c);
                       c = c\<lparr>ca_cnt := ca_cnt c - curr_num, ca_ptr := drop (nat curr_num) (ca_ptr c)\<rparr>
                   in rbind (if ca_cnt c \<le> 0 then rbind (AddCache rs c) (\<lambda>(_, c, rs). Inr (c, rs)) else Inr (c, rs))
                        (\<lambda>(c, rs). rbind (ReadBuf n (T_save_num - curr_num) rs c) (\<lambda>(s, c, rs). Inr (ret_str @ s, c, rs))))"

definition Cache_Clear :: "cache \<Rightarrow> cache" where
  "Cache_Clear c = c\<lparr>ca_cnt := 0, ca_ptr := []\<rparr>"

section \<open>HttpResponse\<close>

record http_response =
  rs_status_line :: string
  rs_body :: string
  rs_header_data :: "(string, string) table"

definition HttpResponse :: http_response where
  "HttpResponse = \<lparr>rs_status_line = [], rs_body = [], rs_header_data = []\<rparr>"

definition CatchStatusLine :: "string \<Rightarrow> http_response \<Rightarrow> http_response" where
  "CatchStatusLine T_line r = r\<lparr>rs_status_line := T_line\<rparr>"

text \<open>Without a colon the position is \<open>npos\<close>, and \<open>npos + 2\<close> is 1.\<close>

definition CatchHeader :: "string \<Rightarrow> http_response \<Rightarrow> http_response res" where
  "CatchHeader T_data r =
     (let (key, flag) = (case find_ch CHR '':'' T_data of Some n \<Rightarrow> (take n T_data, n + 2) | None \<Rightarrow> (T_data, 1))
      in if length T_data < flag then Inl Exit
         else Inr (r\<lparr>rs_header_data := templace key (drop flag T_data) (rs_header_data r)\<rparr>))"

fun status_num :: "int \<Rightarrow> string \<Rightarrow> int option" where
  "status_num status [] = None"
| "status_num status (c # s) =
     (if is_digit c then status_num (i32 (status * 10 + int (digit_val c))) s else Some status)"

fun status_of :: "string \<Rightarrow> int" where
  "status_of [] = - 1"
| "status_of (c # s) =
     (if c = CHR '' '' then (case status_num 0 s of Some n \<Rightarrow> n | None \<Rightarrow> - 1) else status_of s)"

definition GetStatus :: "http_response \<Rightarrow> int" where
  "GetStatus r = status_of (rs_status_line r)"

definition SearchHeader :: "string \<Rightarrow> http_response \<Rightarrow> string" where
  "SearchHeader T_header_name r = (case tfind (rs_header_data r) T_header_name of None \<Rightarrow> [] | Some v \<Rightarrow> v)"

text \<open>\<open>std::stoi\<close>: \<open>None\<close> is an exception.\<close>

definition stoi32 :: "string \<Rightarrow> int option" where
  "stoi32 s =
     (let (neg, u) = split_sign (dropWhile is_space s); ds = takeWhile is_digit u;
          v = (if neg then - int (digits_val ds) else int (digits_val ds))
      in if ds = [] \<or> v < - 2147483648 \<or> 2147483648 \<le> v then None else Some v)"

definition SaveBody :: "nat \<Rightarrow> reading list \<Rightarrow> cache \<Rightarrow> http_response \<Rightarrow> (http_response \<times> cache \<times> reading list) res" where
  "SaveBody fuel rs c r =
     (if tfind (rs_header_data r) ''Content-Type'' = None then Inr (r, c, rs)
      else (case tfind (rs_header_data r) ''Content-Length'' of None \<Rightarrow> Inr (r, c, rs)
        | Some v \<Rightarrow>
            (case stoi32 v of None \<Rightarrow> Inl Exit
             | Some num \<Rightarrow> rbind (ReadBuf fuel num rs c) (\<lambda>(body, c, rs). Inr (r\<lparr>rs_body := body\<rparr>, c, rs)))))"

text \<open>The loop over the headers, one unit of fuel per line.\<close>

fun header_loop :: "nat \<Rightarrow> reading list \<Rightarrow> cache \<Rightarrow> http_response \<Rightarrow> (http_response \<times> cache \<times> reading list) res" where
  "header_loop 0 rs c r = Inl Fuel"
| "header_loop (Suc n) rs c r =
     rbind (ReadLine rs c) (\<lambda>(line, c, rs).
       if line = [] then Inr (r, c, rs)
       else if line = [CR] then SaveBody n rs c r
       else rbind (CatchHeader line r) (header_loop n rs c))"

definition Capturer :: "nat \<Rightarrow> reading list \<Rightarrow> cache \<Rightarrow> http_response \<Rightarrow> (bool \<times> http_response \<times> cache \<times> reading list) res" where
  "Capturer fuel rs c r =
     rbind (ReadLine rs c) (\<lambda>(line, c, rs).
       if line = [] then Inr (False, r, c, rs)
       else let r = CatchStatusLine line r
            in if GetStatus r \<noteq> 200 then Inr (False, r, c, rs)
               else rbind (header_loop fuel rs c r) (\<lambda>(r, c, rs). Inr (True, r, c, rs)))"

definition Response_Clear :: "http_response \<Rightarrow> http_response" where
  "Response_Clear r = r\<lparr>rs_status_line := [], rs_header_data := [], rs_body := []\<rparr>"

section \<open>Lemmas: the escaped string\<close>

text \<open>What a server reads: percent decoding.\<close>

definition hex_val :: "char \<Rightarrow> nat option" where
  "hex_val c = (let n = (of_char c :: nat) in
     if 48 \<le> n \<and> n \<le> 57 then Some (n - 48) else if 97 \<le> n \<and> n \<le> 102 then Some (n - 87)
     else if 65 \<le> n \<and> n \<le> 70 then Some (n - 55) else None)"

fun url_decode :: "string \<Rightarrow> string option" where
  "url_decode [] = Some []"
| "url_decode (c # s) =
     (if c \<noteq> CHR ''%'' then map_option ((#) c) (url_decode s)
      else (case s of a # b # s' \<Rightarrow>
              (case (hex_val a, hex_val b) of (Some x, Some y) \<Rightarrow> map_option ((#) (char_of (16 * x + y))) (url_decode s')
               | _ \<Rightarrow> None)
            | _ \<Rightarrow> None))"

lemma char_code: "(of_char c :: nat) < 256"
  using of_char_mod_256 [of c, where 'a = nat] by (metis mod_less_divisor zero_less_numeral)

lemma hex_digit_val: "d < 16 \<Longrightarrow> hex_val (hex_digit d) = Some d"
  by (auto simp: hex_val_def hex_digit_def Let_def of_char_of)

lemma hex_digit_plain: "d < 16 \<Longrightarrow> plain_char (hex_digit d)"
  by (auto simp: plain_char_def is_alnum_def hex_digit_def Let_def of_char_of)

lemma percent_not_plain: "\<not> plain_char CHR ''%''"
  by (simp add: plain_char_def is_alnum_def)

lemma url_decode_UrlEscape: "url_decode (UrlEscape s) = Some s"
proof (induction s)
  case (Cons c s)
  show ?case
  proof (cases "plain_char c")
    case True
    then have "c \<noteq> CHR ''%''" using percent_not_plain by metis
    then show ?thesis using True Cons by simp
  next
    case False
    have "16 * (of_char c div 16) + of_char c mod 16 = (of_char c :: nat)" by simp
    then have "(char_of (16 * (of_char c div 16) + of_char c mod 16 :: nat) :: char) = c" by (simp only: char_of_char)
    moreover have "of_char c div 16 < (16 :: nat)" using char_code [of c] by (simp add: div_less_iff_less_mult)
    ultimately show ?thesis using False Cons by (simp add: hex_digit_val)
  qed
qed simp

lemma UrlEscape_safe: "c \<in> set (UrlEscape s) \<Longrightarrow> plain_char c \<or> c = CHR ''%''"
proof (induction s)
  case (Cons d s)
  have "of_char d div 16 < (16 :: nat)" using char_code [of d] by (simp add: div_less_iff_less_mult)
  then show ?case using Cons hex_digit_plain by (auto split: if_splits)
qed simp

section \<open>Lemmas: the bytes of a connection, however they arrive\<close>

text \<open>Nothing fails before the peer closes; \<open>arriving\<close> is what it sends.\<close>

definition delivers :: "reading list \<Rightarrow> bool" where
  "delivers rs \<longleftrightarrow> list_all (\<lambda>r. case r of Got s \<Rightarrow> s \<noteq> [] | Intr \<Rightarrow> True | Failed \<Rightarrow> False) rs"

fun arriving :: "reading list \<Rightarrow> string" where
  "arriving [] = []"
| "arriving (r # rs) = (case r of Got s \<Rightarrow> s | _ \<Rightarrow> []) @ arriving rs"

definition ready :: "cache \<Rightarrow> bool" where
  "ready c \<longleftrightarrow> CACHESIZE \<le> ca_size c \<and> ca_cnt c = int (length (ca_ptr c))"

definition stream :: "cache \<Rightarrow> reading list \<Rightarrow> string" where
  "stream c rs = ca_ptr c @ arriving rs"

text \<open>A state of the connection in which \<open>s\<close> is still to be read; its buffer is empty only at the end.\<close>

definition pending :: "cache \<Rightarrow> reading list \<Rightarrow> string \<Rightarrow> bool" where
  "pending c rs s \<longleftrightarrow> ready c \<and> delivers rs \<and> stream c rs = s"

lemma fill_cache_holds:
  assumes "delivers rs" and "ready c" and "ca_ptr c = []"
  shows "\<exists>c' rs'. fill_cache rs c = Inr (ca_cnt c', c', rs') \<and> pending c' rs' (arriving rs) \<and> (ca_ptr c' = [] \<longleftrightarrow> arriving rs = [])"
  using assms
proof (induction rs c rule: fill_cache.induct)
  case (4 bs rs c)
  have "bs = take CACHESIZE bs @ drop CACHESIZE bs" by simp
  then show ?case
    using 4 by (auto simp: delivers_def pending_def ready_def stream_def Let_def CACHESIZE_def)
qed (auto simp: delivers_def pending_def ready_def stream_def)

lemma AddCache_holds:
  assumes "pending c rs s"
  shows "\<exists>c' rs'. AddCache rs c = Inr (ca_cnt c', c', rs') \<and> pending c' rs' s \<and> (ca_ptr c' = [] \<longleftrightarrow> s = [])"
proof (cases "ca_ptr c = []")
  case True
  then show ?thesis using fill_cache_holds [of rs c] assms by (auto simp: AddCache_def pending_def ready_def stream_def)
next
  case False
  then show ?thesis using assms by (auto simp: AddCache_def pending_def ready_def stream_def)
qed

lemma read_line_holds:
  assumes "pending c rs (line @ LF # rest)" and "LF \<notin> set line" and "length line < n"
  shows "\<exists>c' rs'. read_line n rs c = Inr (line, c', rs') \<and> pending c' rs' rest"
  using assms
proof (induction line arbitrary: n c rs)
  case Nil
  obtain m where n: "n = Suc m" using Nil by (cases n) auto
  obtain c' rs' where a: "AddCache rs c = Inr (ca_cnt c', c', rs')" "pending c' rs' (LF # rest)" "ca_ptr c' \<noteq> []"
    using AddCache_holds [OF Nil(1)] by auto
  obtain p where p: "ca_ptr c' = LF # p" "p @ arriving rs' = rest"
    using a(2,3) by (cases "ca_ptr c'") (auto simp: pending_def stream_def)
  have "pending (c'\<lparr>ca_cnt := ca_cnt c' - 1, ca_ptr := p\<rparr>) rs' rest"
    using a(2) p by (auto simp: pending_def ready_def stream_def)
  then show ?case using a p by (auto simp: n Let_def pending_def ready_def)
next
  case (Cons x line)
  obtain m where n: "n = Suc m" "length line < m" using Cons.prems by (cases n) auto
  obtain c' rs' where a: "AddCache rs c = Inr (ca_cnt c', c', rs')" "pending c' rs' (x # line @ LF # rest)" "ca_ptr c' \<noteq> []"
    using AddCache_holds [OF Cons.prems(1)] by auto
  obtain p where p: "ca_ptr c' = x # p" "p @ arriving rs' = line @ LF # rest"
    using a(2,3) by (cases "ca_ptr c'") (auto simp: pending_def stream_def)
  have h: "pending (c'\<lparr>ca_cnt := ca_cnt c' - 1, ca_ptr := p\<rparr>) rs' (line @ LF # rest)"
    using a(2) p by (auto simp: pending_def ready_def stream_def)
  have "x \<noteq> LF" "LF \<notin> set line" using Cons.prems(2) by auto
  then show ?case using Cons.IH [OF h _ n(2)] a p by (auto simp: n Let_def pending_def ready_def)
qed

text \<open>One iteration of \<open>ReadBuf\<close>; \<open>fed\<close> says that the buffer is empty only when nothing is left to read.\<close>

definition fed :: "cache \<Rightarrow> string \<Rightarrow> bool" where
  "fed c s \<longleftrightarrow> (ca_ptr c = [] \<longrightarrow> s = [])"

lemma ReadBuf_step:
  assumes "pending c rs s" and "0 < m"
  obtains k c' rs' where "k = min m (length (ca_ptr c))" "k \<le> length s" "pending c' rs' (drop k s)" "fed c' (drop k s)"
    "ReadBuf (Suc n) (int m) rs c = rbind (ReadBuf n (int (m - k)) rs' c') (\<lambda>(r, c, rs). Inr (take k s @ r, c, rs))"
proof -
  define k where "k = min m (length (ca_ptr c))"
  let ?c = "c\<lparr>ca_cnt := ca_cnt c - int k, ca_ptr := drop k (ca_ptr c)\<rparr>"
  have r: "ca_cnt c = int (length (ca_ptr c))" using assms(1) by (simp add: pending_def ready_def)
  have s: "s = ca_ptr c @ arriving rs" using assms(1) by (simp add: pending_def stream_def)
  have k: "k \<le> length (ca_ptr c)" "k \<le> length s" "take k s = take k (ca_ptr c)" "int m - int k = int (m - k)"
    "(if ca_cnt c < int m then ca_cnt c else int m) = int k"
    by (auto simp: k_def s r of_nat_diff)
  have h: "pending ?c rs (drop k s)"
    using assms(1) k(1) by (auto simp: pending_def ready_def stream_def s of_nat_diff)
  obtain c' rs' where a: "(if ca_cnt ?c \<le> 0 then rbind (AddCache rs ?c) (\<lambda>(_, c, rs). Inr (c, rs)) else Inr (?c, rs)) = Inr (c', rs')"
    "pending c' rs' (drop k s)" "fed c' (drop k s)"
  proof (cases "ca_cnt ?c \<le> 0")
    case True
    then show ?thesis using AddCache_holds [OF h] that by (fastforce simp: fed_def)
  next
    case False
    then have "fed ?c (drop k s)" using r k(1) by (auto simp: fed_def)
    then show ?thesis using h False that by simp
  qed
  have "ReadBuf (Suc n) (int m) rs c =
      rbind (if ca_cnt ?c \<le> 0 then rbind (AddCache rs ?c) (\<lambda>(_, c, rs). Inr (c, rs)) else Inr (?c, rs))
        (\<lambda>(c, rs). rbind (ReadBuf n (int (m - k)) rs c) (\<lambda>(r, c, rs). Inr (take k s @ r, c, rs)))"
    using assms(2) k(1,3) unfolding ReadBuf.simps k(5) Let_def k(4) by simp
  then have "ReadBuf (Suc n) (int m) rs c = rbind (ReadBuf n (int (m - k)) rs' c') (\<lambda>(r, c, rs). Inr (take k s @ r, c, rs))"
    unfolding a(1) by simp
  then show ?thesis using that [of k c' rs'] k_def k(2) a(2,3) by blast
qed

lemma ReadBuf_fed:
  assumes "pending c rs s" and "m \<le> length s" and "m = 0 \<or> fed c s" and "m < fuel"
  shows "\<exists>c' rs'. ReadBuf fuel (int m) rs c = Inr (take m s, c', rs') \<and> pending c' rs' (drop m s)"
  using assms
proof (induction fuel arbitrary: m c rs s)
  case (Suc n)
  show ?case
  proof (cases "m = 0")
    case False
    then have "0 < m" by simp
    with Suc.prems(1) obtain k c' rs' where k: "k = min m (length (ca_ptr c))" "k \<le> length s" "pending c' rs' (drop k s)" "fed c' (drop k s)"
      "ReadBuf (Suc n) (int m) rs c = rbind (ReadBuf n (int (m - k)) rs' c') (\<lambda>(r, c, rs). Inr (take k s @ r, c, rs))"
      by (rule ReadBuf_step)
    have "0 < k" using False Suc.prems(2,3) by (auto simp: k(1) fed_def)
    then have "m - k < n" using Suc.prems(4) \<open>0 < m\<close> by linarith
    then have "\<exists>c'' rs''. ReadBuf n (int (m - k)) rs' c' = Inr (take (m - k) (drop k s), c'', rs'') \<and> pending c'' rs'' (drop (m - k) (drop k s))"
      using Suc.prems(2) k(4) by (intro Suc.IH [OF k(3)]) auto
    moreover have "take k s @ take (m - k) (drop k s) = take m s" "drop (m - k) (drop k s) = drop m s"
      using k(1) by (simp_all add: take_add [symmetric])
    ultimately show ?thesis using k(5) by auto
  qed (use Suc.prems in simp)
qed simp

lemma ReadBuf_holds:
  assumes "pending c rs s" and "m \<le> length s" and "m + 1 < fuel"
  shows "\<exists>c' rs'. ReadBuf fuel (int m) rs c = Inr (take m s, c', rs') \<and> pending c' rs' (drop m s)"
proof (cases "m = 0 \<or> fed c s")
  case True
  then show ?thesis using ReadBuf_fed [OF assms(1,2)] assms(3) by simp
next
  case False
  then have m: "0 < m" and e: "ca_ptr c = []" by (auto simp: fed_def)
  obtain n where n: "fuel = Suc n" using assms(3) by (cases fuel) auto
  obtain k c' rs' where k: "k = min m (length (ca_ptr c))" "k \<le> length s" "pending c' rs' (drop k s)" "fed c' (drop k s)"
    "ReadBuf (Suc n) (int m) rs c = rbind (ReadBuf n (int (m - k)) rs' c') (\<lambda>(r, c, rs). Inr (take k s @ r, c, rs))"
    by (rule ReadBuf_step [OF assms(1) m])
  have "k = 0" using e k(1) by simp
  then show ?thesis using ReadBuf_fed [of c' rs' s m n] k(3-5) assms(2,3) n by auto
qed

text \<open>When the connection is closed before the body is complete, no fuel is enough.\<close>

lemma ReadBuf_stuck:
  assumes "pending c rs s" and "length s < m"
  shows "ReadBuf fuel (int m) rs c = Inl Fuel"
  using assms
proof (induction fuel arbitrary: m c rs s)
  case (Suc n)
  have "0 < m" using Suc.prems(2) by simp
  with Suc.prems(1) obtain k c' rs' where k: "k = min m (length (ca_ptr c))" "k \<le> length s" "pending c' rs' (drop k s)" "fed c' (drop k s)"
    "ReadBuf (Suc n) (int m) rs c = rbind (ReadBuf n (int (m - k)) rs' c') (\<lambda>(r, c, rs). Inr (take k s @ r, c, rs))"
    by (rule ReadBuf_step)
  have "length (drop k s) < m - k" using Suc.prems(2) k(2) by simp
  then show ?case unfolding k(5) Suc.IH [OF k(3) \<open>length (drop k s) < m - k\<close>] by simp
qed simp

section \<open>Lemmas: a response\<close>

definition http_text :: "string \<Rightarrow> (string \<times> string) list \<Rightarrow> string \<Rightarrow> string" where
  "http_text status hs body =
     status @ [CR, LF] @ concat (map (\<lambda>(k, v). k @ '': '' @ v @ [CR, LF]) hs) @ [CR, LF] @ body"

definition header_ok :: "string \<times> string \<Rightarrow> bool" where
  "header_ok h \<longleftrightarrow> CHR '':'' \<notin> set (fst h) \<and> LF \<notin> set (fst h) \<and> LF \<notin> set (snd h) \<and> length (fst h) + length (snd h) < 1021"

text \<open>The table of the headers: the values keep their carriage return, the first of two equal names stays.\<close>

definition header_table :: "(string \<times> string) list \<Rightarrow> (string, string) table \<Rightarrow> (string, string) table" where
  "header_table hs t = fold (\<lambda>(k, v). templace k (v @ [CR])) hs t"

lemma line_ends [simp]: "CR \<noteq> LF" "LF \<noteq> CR" "LF \<noteq> CHR '':''" "LF \<noteq> CHR '' ''" "\<not> is_digit CR" "CR \<noteq> CHR '':''"
  by (simp_all add: CR_def LF_def is_digit_def)

lemma header_table_find:
  "tfind (header_table hs t) k = (case tfind t k of Some v \<Rightarrow> Some v | None \<Rightarrow> map_option (\<lambda>v. v @ [CR]) (map_of hs k))"
proof (induction hs arbitrary: t)
  case (Cons h hs)
  have "header_table (h # hs) t = header_table hs (templace (fst h) (snd h @ [CR]) t)"
    by (simp add: header_table_def split_beta)
  then show ?case using Cons by (cases h) (auto simp: tbl.find_emplace split: option.splits)
qed (simp add: header_table_def split: option.split)

lemma stoi32_dec: "n < 2147483648 \<Longrightarrow> stoi32 (dec n @ [CR]) = Some (int n)"
proof -
  assume n: "n < 2147483648"
  obtain d ds where d: "dec n = d # ds" "is_digit d" by (rule dec_Cons)
  have t: "takeWhile is_digit (dec n @ [CR]) = dec n"
    using takeWhile_digits [of n] dec_digits by (subst takeWhile_append2) auto
  have s: "split_sign (dropWhile is_space (dec n @ [CR])) = (False, dec n @ [CR])"
    using digit_props [OF d(2)] by (simp add: d(1) split_sign_def)
  have "dec n \<noteq> []" "digits_val (dec n) = n" using dec_spec [of n] by blast+
  then show ?thesis using n by (simp add: stoi32_def s t)
qed

lemma ReadLine_holds:
  assumes "pending c rs (line @ LF # rest)" and "LF \<notin> set line" and "length line < 1024"
  shows "\<exists>c' rs'. ReadLine rs c = Inr (line, c', rs') \<and> pending c' rs' rest"
  using read_line_holds [OF assms(1,2), of 1024] assms(3) by (simp add: ReadLine_def CACHESIZE_def)

lemma CatchHeader_line:
  assumes "header_ok (k, v)"
  shows "CatchHeader (k @ '': '' @ v @ [CR]) r = Inr (r\<lparr>rs_header_data := templace k (v @ [CR]) (rs_header_data r)\<rparr>)"
proof -
  have "find_ch CHR '':'' (k @ CHR '':'' # CHR '' '' # v @ [CR]) = Some (length k)"
    by (rule find_ch_append) (use assms in \<open>simp add: header_ok_def\<close>)
  then show ?thesis by (simp add: CatchHeader_def)
qed

lemma header_loop_holds:
  assumes "pending c rs (concat (map (\<lambda>(k, v). k @ '': '' @ v @ [CR, LF]) hs) @ [CR, LF] @ rest)" and "list_all header_ok hs"
  shows "\<exists>c' rs'. pending c' rs' rest \<and> (\<forall>fuel. header_loop fuel rs c r = (if fuel \<le> length hs then Inl Fuel
    else SaveBody (fuel - length hs - 1) rs' c' (r\<lparr>rs_header_data := header_table hs (rs_header_data r)\<rparr>)))"
  using assms
proof (induction hs arbitrary: c rs r)
  case Nil
  have "pending c rs ([CR] @ LF # rest)" using Nil.prems(1) by simp
  from ReadLine_holds [OF this] obtain c' rs' where l: "ReadLine rs c = Inr ([CR], c', rs')" "pending c' rs' rest" by auto
  have "header_loop fuel rs c r = (if fuel \<le> 0 then Inl Fuel else SaveBody (fuel - 1) rs' c' r)" for fuel
    by (cases fuel) (simp_all add: l(1))
  then show ?case using l(2) by (auto simp: header_table_def)
next
  case (Cons h hs)
  obtain k v where h: "h = (k, v)" by (cases h)
  have ok: "header_ok (k, v)" "list_all header_ok hs" using Cons.prems(2) h by simp_all
  let ?line = "k @ '': '' @ v @ [CR]"
  have "pending c rs (?line @ LF # concat (map (\<lambda>(k, v). k @ '': '' @ v @ [CR, LF]) hs) @ [CR, LF] @ rest)"
    using Cons.prems(1) h by simp
  then obtain c' rs' where l: "ReadLine rs c = Inr (?line, c', rs')"
    "pending c' rs' (concat (map (\<lambda>(k, v). k @ '': '' @ v @ [CR, LF]) hs) @ [CR, LF] @ rest)"
    using ReadLine_holds ok(1) by (fastforce simp: header_ok_def)
  let ?r = "r\<lparr>rs_header_data := templace k (v @ [CR]) (rs_header_data r)\<rparr>"
  obtain c'' rs'' where ih: "pending c'' rs'' rest" "\<And>fuel. header_loop fuel rs' c' ?r = (if fuel \<le> length hs then Inl Fuel
      else SaveBody (fuel - length hs - 1) rs'' c'' (?r\<lparr>rs_header_data := header_table hs (rs_header_data ?r)\<rparr>))"
    using Cons.IH [OF l(2) ok(2), of ?r] by blast
  have "header_loop (Suc fuel) rs c r = header_loop fuel rs' c' ?r" for fuel
    using CatchHeader_line [OF ok(1), of r] by (simp add: l(1))
  then have "header_loop fuel rs c r = (if fuel \<le> length (h # hs) then Inl Fuel
      else SaveBody (fuel - length (h # hs) - 1) rs'' c'' (r\<lparr>rs_header_data := header_table (h # hs) (rs_header_data r)\<rparr>))" for fuel
    using ih(2) by (cases fuel) (simp_all add: header_table_def h)
  then show ?case using ih(1) by blast
qed

text \<open>A response to its body, however it arrives.\<close>

lemma Capturer_headers:
  assumes "ready c" and "ca_ptr c = []" and "delivers rs" and "arriving rs = http_text status hs rest"
    and "LF \<notin> set status" and "length status < 1023" and "status_of (status @ [CR]) = 200" and "list_all header_ok hs"
  shows "\<exists>c' rs'. pending c' rs' rest \<and> (\<forall>fuel. Capturer fuel rs c HttpResponse = (if fuel \<le> length hs then Inl Fuel
    else rbind (SaveBody (fuel - length hs - 1) rs' c'
           \<lparr>rs_status_line = status @ [CR], rs_body = [], rs_header_data = header_table hs []\<rparr>)
         (\<lambda>(r, c, rs). Inr (True, r, c, rs))))"
proof -
  let ?r = "CatchStatusLine (status @ [CR]) HttpResponse"
  have "pending c rs ((status @ [CR]) @ LF # concat (map (\<lambda>(k, v). k @ '': '' @ v @ [CR, LF]) hs) @ [CR, LF] @ rest)"
    using assms(1-4) by (simp add: pending_def stream_def http_text_def)
  from ReadLine_holds [OF this] assms(5,6) obtain c1 rs1 where l: "ReadLine rs c = Inr (status @ [CR], c1, rs1)"
    "pending c1 rs1 (concat (map (\<lambda>(k, v). k @ '': '' @ v @ [CR, LF]) hs) @ [CR, LF] @ rest)"
    by auto
  obtain c' rs' where h: "pending c' rs' rest" "\<And>fuel. header_loop fuel rs1 c1 ?r = (if fuel \<le> length hs then Inl Fuel
      else SaveBody (fuel - length hs - 1) rs' c' (?r\<lparr>rs_header_data := header_table hs (rs_header_data ?r)\<rparr>))"
    using header_loop_holds [OF l(2) assms(8), of ?r] by blast
  have "Capturer fuel rs c HttpResponse = rbind (header_loop fuel rs1 c1 ?r) (\<lambda>(r, c, rs). Inr (True, r, c, rs))" for fuel
    using l(1) assms(7) by (simp add: Capturer_def GetStatus_def CatchStatusLine_def)
  then show ?thesis using h by (auto simp: CatchStatusLine_def HttpResponse_def)
qed

lemma SaveBody_length:
  assumes "map_of hs ''Content-Type'' \<noteq> None" and "map_of hs ''Content-Length'' = Some (dec n)" and "n < 2147483648"
    and "rs_header_data r = header_table hs []"
  shows "SaveBody fuel rs c r = rbind (ReadBuf fuel (int n) rs c) (\<lambda>(body, c, rs). Inr (r\<lparr>rs_body := body\<rparr>, c, rs))"
  using assms stoi32_dec [OF assms(3)] by (auto simp: SaveBody_def header_table_find)

lemma Capturer_reads:
  assumes "ready c" and "ca_ptr c = []" and "delivers rs" and "arriving rs = http_text status hs (body @ rest)"
    and "LF \<notin> set status" and "length status < 1023" and "status_of (status @ [CR]) = 200" and "list_all header_ok hs"
    and "map_of hs ''Content-Type'' \<noteq> None" and "map_of hs ''Content-Length'' = Some (dec (length body))"
    and "length body < 2147483648" and "length hs + length body + 2 < fuel"
  shows "\<exists>c' rs'. Capturer fuel rs c HttpResponse = Inr (True, \<lparr>rs_status_line = status @ [CR], rs_body = body,
      rs_header_data = header_table hs []\<rparr>, c', rs') \<and> stream c' rs' = rest \<and> ready c'"
proof -
  let ?r = "\<lparr>rs_status_line = status @ [CR], rs_body = [], rs_header_data = header_table hs []\<rparr>"
  obtain c1 rs1 where h: "pending c1 rs1 (body @ rest)" "\<And>fuel. Capturer fuel rs c HttpResponse = (if fuel \<le> length hs then Inl Fuel
      else rbind (SaveBody (fuel - length hs - 1) rs1 c1 ?r) (\<lambda>(r, c, rs). Inr (True, r, c, rs)))"
    using Capturer_headers [OF assms(1-8)] by blast
  have f: "length body + 1 < fuel - length hs - 1" using assms(12) by linarith
  obtain c2 rs2 where b: "ReadBuf (fuel - length hs - 1) (int (length body)) rs1 c1 = Inr (body, c2, rs2)" "pending c2 rs2 rest"
    using ReadBuf_holds [OF h(1), of "length body" "fuel - length hs - 1"] f by auto
  have "SaveBody (fuel - length hs - 1) rs1 c1 ?r = Inr (?r\<lparr>rs_body := body\<rparr>, c2, rs2)"
    using SaveBody_length [OF assms(9-11), of ?r] b(1) by simp
  then show ?thesis using h(2) [of fuel] b(2) assms(12) by (simp add: pending_def)
qed

lemma Response_Clear_eq: "Response_Clear r = HttpResponse"
  by (simp add: Response_Clear_def HttpResponse_def)

lemma ready_Clear: "ready c \<Longrightarrow> ready (Cache_Clear c)" "ca_ptr (Cache_Clear c) = []"
  by (simp_all add: ready_def Cache_Clear_def)

section \<open>Properties\<close>

text \<open>A server that decodes what \<open>UrlEscape\<close> made reads the string back, and nothing in it can be taken for a
  delimiter of the URL: it holds letters, digits, the four marks and percent signs only.\<close>

theorem UrlEscape_roundtrip:
  "url_decode (UrlEscape s) = Some s \<and> list_all (\<lambda>c. plain_char c \<or> c = CHR ''%'') (UrlEscape s)"
  using url_decode_UrlEscape UrlEscape_safe by (auto simp: list_all_iff)

text \<open>A complete response is read the same however the network cuts it into pieces: \<open>Capturer\<close> returns its status
  line, its headers and exactly its body, and what follows the body is still to be read.\<close>

theorem Capturer_any_chunks:
  assumes "ready c" and "ca_ptr c = []" and "delivers rs" and "arriving rs = http_text status hs (body @ rest)"
    and "LF \<notin> set status" and "length status < 1023" and "status_of (status @ [CR]) = 200" and "list_all header_ok hs"
    and "map_of hs ''Content-Type'' \<noteq> None" and "map_of hs ''Content-Length'' = Some (dec (length body))"
    and "length body < 2147483648" and "length hs + length body + 2 < fuel"
  shows "\<exists>c' rs'. Capturer fuel rs c HttpResponse = Inr (True, \<lparr>rs_status_line = status @ [CR], rs_body = body,
      rs_header_data = header_table hs []\<rparr>, c', rs') \<and> stream c' rs' = rest"
  using Capturer_reads [OF assms] by blast

definition sample_reads :: "reading list" where
  "sample_reads = [Got ''HTTP/1.1 20'', Intr, Got (''0 OK'' @ [CR]), Got (LF # ''Content-Type: text''), Got ([CR, LF] @ ''Content-''),
     Got (''Length: 4'' @ [CR, LF, CR]), Got (LF # ''d''), Got ''5:p'', Got ''x'']"

theorem Capturer_any_chunks_witness:
  "\<exists>c' rs'. Capturer 20 sample_reads \<lparr>ca_size = 1024, ca_cnt = 0, ca_ptr = []\<rparr> HttpResponse =
    Inr (True, \<lparr>rs_status_line = ''HTTP/1.1 200 OK'' @ [CR], rs_body = ''d5:p'',
      rs_header_data = header_table [(''Content-Type'', ''text''), (''Content-Length'', ''4'')] []\<rparr>, c', rs') \<and> stream c' rs' = ''x''"
proof (rule Capturer_any_chunks)
  show "arriving sample_reads = http_text ''HTTP/1.1 200 OK'' [(''Content-Type'', ''text''), (''Content-Length'', ''4'')] (''d5:p'' @ ''x'')"
    by (simp add: sample_reads_def http_text_def)
  show "delivers sample_reads" by (simp add: sample_reads_def delivers_def)
  show "map_of [(''Content-Type'', ''text''), (''Content-Length'', ''4'')] ''Content-Length'' = Some (dec (length ''d5:p''))"
    by (simp add: dec.simps char_of_def bit_0)
qed (simp_all add: ready_def CACHESIZE_def LF_def CR_def header_ok_def is_digit_def digit_val_def i32_def)



end
