(* ===== verification/Tracker.thy ===== *)
theory Tracker
  imports Select_Switch Web
begin

text \<open>
  \<open>Tracker\<close>: the announcement to the trackers of the torrent and the loop that waits for their answers; and the
  first half of \<open>main\<close>, which reads the torrent file and sets everything up. What the network does is a parameter:
  \<open>network\<close> says which names resolve, which sockets are handed out, whether the connection can be started, the
  error \<open>getsockopt\<close> reports and what \<open>read\<close> returns; \<open>selected\<close> is what successive calls of \<open>select\<close> report.
  \<open>writev\<close> takes all it is given, as the source assumes.
\<close>

section \<open>The announcement\<close>

record tracker =
  tk_info_hash :: string
  tk_parameter_msg :: string
  tk_am_id :: string
  tk_info :: "tracker_info list"
  tk_request :: http_request
  tk_response :: http_response
  tk_cache :: cache

definition InitReq :: "http_request \<Rightarrow> http_request" where
  "InitReq r = SetHeader ''Accept'' ''text/html'' (SetHeader ''User-Agent'' ''Super Max'' (SetHeader ''Connection'' ''close'' r))"

text \<open>The id is made of the time and a random number.\<close>

definition Tracker :: "nat \<Rightarrow> nat \<Rightarrow> cache \<Rightarrow> tracker" where
  "Tracker now rand_num c =
     \<lparr>tk_info_hash = [], tk_parameter_msg = [], tk_am_id = UrlEscape (dec now @ dec (rand_num mod 100000000 + 1000000000)),
      tk_info = [], tk_request = InitReq HttpRequest, tk_response = HttpResponse, tk_cache = c\<rparr>"

definition TK_RetSocket :: "tracker \<Rightarrow> int list" where
  "TK_RetSocket tk = filter (\<lambda>fd. 0 \<le> fd) (map ti_fd (tk_info tk))"

definition SetTrackInfo :: "tracker_info \<Rightarrow> tracker \<Rightarrow> tracker" where
  "SetTrackInfo T_data tk = tk\<lparr>tk_info := tk_info tk @ [T_data]\<rparr>"

definition SetInfoHash :: "string \<Rightarrow> tracker \<Rightarrow> tracker" where
  "SetInfoHash T_data tk = tk\<lparr>tk_info_hash := T_data\<rparr>"

definition TK_SetParameter :: "string \<Rightarrow> tracker \<Rightarrow> tracker" where
  "TK_SetParameter T_data tk = tk\<lparr>tk_parameter_msg := tk_parameter_msg tk @ ''&'' @ T_data\<rparr>"

definition UpdateReq :: "torrent \<Rightarrow> bitfield \<Rightarrow> tracker \<Rightarrow> tracker" where
  "UpdateReq t bf tk =
     (let tk = tk\<lparr>tk_parameter_msg := []\<rparr>;
          tk = TK_SetParameter ''port=54321'' tk;
          tk = TK_SetParameter ''compact=1'' tk;
          tk = TK_SetParameter (''uploaded='' @ dec (nat (DownLoad t bf))) tk;
          tk = TK_SetParameter (''downloaded='' @ dec (nat (DownLoad t bf))) tk;
          tk = TK_SetParameter (''left='' @ dec (nat (LeftSize t bf))) tk;
          tk = TK_SetParameter ''event=started'' tk
      in TK_SetParameter ''numwant=50'' tk)"

text \<open>What is written to the socket, if the lines fit the array.\<close>

definition Delivery :: "string \<Rightarrow> tracker \<Rightarrow> (string option \<times> tracker) res" where
  "Delivery T_uri tk =
     (let request_line = ''GET '' @ T_uri @ ''?'' @ ''info_hash='' @ tk_info_hash tk @ ''&peer_id='' @ tk_am_id tk
            @ tk_parameter_msg tk @ '' HTTP/1.1''
      in rbind (SetFirstLine request_line (tk_request tk)) (\<lambda>request.
           let msg_num = (if 16 \<le> request_size request then 16 else request_size request + 1);
               (bound, data_array) = BindMsg request msg_num
           in Inr (if bound then Some (concat data_array) else None, tk\<lparr>tk_request := request\<rparr>)))"

definition TK_Capturer :: "nat \<Rightarrow> reading list \<Rightarrow> tracker \<Rightarrow> tracker res" where
  "TK_Capturer fuel rs tk =
     rbind (Capturer fuel rs (tk_cache tk) (Response_Clear (tk_response tk))) (\<lambda>(_, response, c, _).
       Inr (tk\<lparr>tk_response := response, tk_cache := Cache_Clear c\<rparr>))"

section \<open>Waiting for the answers\<close>

record network =
  nt_resolves :: "tracker_info \<Rightarrow> bool"
  nt_socket :: "tracker_info \<Rightarrow> int"
  nt_connects :: "tracker_info \<Rightarrow> bool"
  nt_error :: "int \<Rightarrow> bool"
  nt_reads :: "int \<Rightarrow> reading list"

definition connect_one :: "network \<Rightarrow> tracker_info \<Rightarrow> tracker_info" where
  "connect_one nt val =
     (if ti_tcp val
      then (if \<not> nt_resolves nt val then val
            else if \<not> nt_connects nt val then val
            else val\<lparr>ti_fd := nt_socket nt val\<rparr>)
      else (if \<not> nt_resolves nt val then val else val\<lparr>ti_fd := nt_socket nt val\<rparr>))"

definition TK_Connect :: "network \<Rightarrow> tracker \<Rightarrow> tracker" where
  "TK_Connect nt tk = tk\<lparr>tk_info := map (connect_one nt) (tk_info tk)\<rparr>"

text \<open>The variables of \<open>GetPeerList\<close>, with what was written to and which sockets were closed.\<close>

record poll =
  pl_tracker :: tracker
  pl_rset :: "int list"
  pl_wset :: "int list"
  pl_quit :: int
  pl_ret :: "string list"
  pl_sent :: "(int \<times> string option) list"
  pl_closed :: "int list"

definition drop_socket :: "tracker_info \<Rightarrow> poll \<Rightarrow> tracker_info \<times> poll" where
  "drop_socket val st = (val\<lparr>ti_fd := - 1\<rparr>, st\<lparr>pl_quit := pl_quit st - 1, pl_closed := pl_closed st @ [ti_fd val]\<rparr>)"

text \<open>A socket that can be written to: whether the body of the loop goes on to the test for reading.\<close>

definition poll_write :: "network \<Rightarrow> tracker_info \<Rightarrow> poll \<Rightarrow> (bool \<times> tracker_info \<times> poll) res" where
  "poll_write nt val st =
     (let st = st\<lparr>pl_wset := removeAll (ti_fd val) (pl_wset st)\<rparr>
      in if nt_error nt (ti_fd val) then (let (val, st) = drop_socket val st in Inr (False, val, st))
         else if ti_tcp val
         then rbind (Delivery (ti_uri val) (pl_tracker st)) (\<lambda>(msg, tk).
                Inr (True, val, st\<lparr>pl_tracker := tk, pl_sent := pl_sent st @ [(ti_fd val, msg)], pl_rset := ti_fd val # pl_rset st\<rparr>))
         else (let (val, st) = drop_socket val st in Inr (False, val, st)))"

definition poll_read :: "nat \<Rightarrow> network \<Rightarrow> tracker_info \<Rightarrow> poll \<Rightarrow> (tracker_info \<times> poll) res" where
  "poll_read fuel nt val st =
     (let st = st\<lparr>pl_rset := removeAll (ti_fd val) (pl_rset st)\<rparr>
      in if ti_tcp val
         then rbind (TK_Capturer fuel (nt_reads nt (ti_fd val)) (pl_tracker st)) (\<lambda>tk.
                Inr (drop_socket val (st\<lparr>pl_tracker := tk, pl_ret := pl_ret st @ [rs_body (tk_response tk)]\<rparr>)))
         else Inr (drop_socket val st))"

definition poll_one :: "nat \<Rightarrow> network \<Rightarrow> int list \<Rightarrow> int list \<Rightarrow> tracker_info \<Rightarrow> poll \<Rightarrow> (tracker_info \<times> poll) res" where
  "poll_one fuel nt wset rset val st =
     (if ti_fd val < 0 then Inr (val, st)
      else rbind (if ti_fd val \<in> set wset then poll_write nt val st else Inr (True, val, st)) (\<lambda>(go, val, st).
             if go \<and> ti_fd val \<in> set rset then poll_read fuel nt val st else Inr (val, st)))"

fun poll_round :: "nat \<Rightarrow> network \<Rightarrow> int list \<Rightarrow> int list \<Rightarrow> tracker_info list \<Rightarrow> poll \<Rightarrow> (tracker_info list \<times> poll) res" where
  "poll_round fuel nt wset rset [] st = Inr ([], st)"
| "poll_round fuel nt wset rset (val # info) st =
     rbind (poll_one fuel nt wset rset val st) (\<lambda>(val, st).
     rbind (poll_round fuel nt wset rset info st) (\<lambda>(info, st). Inr (val # info, st)))"

datatype selected = SelectFailed | TimedOut | Ready "int list" "int list"

text \<open>\<open>select\<close> reports sockets of the sets it is given; when the list ends it does not return.\<close>

fun poll_loop :: "nat \<Rightarrow> network \<Rightarrow> selected list \<Rightarrow> tracker_info list \<Rightarrow> poll \<Rightarrow> (tracker_info list \<times> poll) res" where
  "poll_loop fuel nt [] info st = (if pl_quit st \<le> 0 then Inr (info, st) else Inl Fuel)"
| "poll_loop fuel nt (s # ss) info st =
     (if pl_quit st \<le> 0 then Inr (info, st)
      else case s of SelectFailed \<Rightarrow> Inr (info, st) | TimedOut \<Rightarrow> Inr (info, st)
        | Ready w r \<Rightarrow>
            rbind (poll_round fuel nt (filter (\<lambda>fd. fd \<in> set (pl_wset st)) w) (filter (\<lambda>fd. fd \<in> set (pl_rset st)) r) info st)
              (\<lambda>(info, st). poll_loop fuel nt ss info st))"

text \<open>\<open>wset_save\<close> is not cleared before the sockets are added: \<open>junk\<close> is what it held.\<close>

definition poll_start :: "int list \<Rightarrow> tracker \<Rightarrow> poll" where
  "poll_start junk tk =
     \<lparr>pl_tracker = tk, pl_rset = [], pl_wset = TK_RetSocket tk @ junk, pl_quit = int (length (TK_RetSocket tk)),
      pl_ret = [], pl_sent = [], pl_closed = []\<rparr>"

definition GetPeerList :: "nat \<Rightarrow> network \<Rightarrow> torrent \<Rightarrow> bitfield \<Rightarrow> int list \<Rightarrow> selected list \<Rightarrow> tracker
    \<Rightarrow> (string list \<times> tracker \<times> poll) res" where
  "GetPeerList fuel nt t bf junk ss tk =
     (let tk = UpdateReq t bf (TK_Connect nt tk)
      in rbind (poll_loop fuel nt ss (tk_info tk) (poll_start junk tk)) (\<lambda>(info, st).
           Inr (pl_ret st, (pl_tracker st)\<lparr>tk_info := info\<rparr>, st)))"

section \<open>The start of the program\<close>

text \<open>The hash of the dictionary behind the first \<open>info\<close> of the file; \<open>None\<close> is \<open>return 0\<close>.\<close>

definition info_hash_of :: "string \<Rightarrow> byte list option res" where
  "info_hash_of data =
     (case find_sub ''info'' data of None \<Rightarrow> Inl Exit
      | Some info_flag \<Rightarrow>
          rbind (GetDictLength (drop (info_flag + 4) data) (int (length data) - int info_flag - 4)) (\<lambda>info_num.
            if info_num \<le> 0 then Inr None
            else rbind (mem_read (bytes_of (drop (info_flag + 4) data)) (nat info_num)) (\<lambda>info.
                 rbind (Sha1 info) (\<lambda>info_buf. Inr (Some info_buf)))))"

definition chars_of :: "byte list \<Rightarrow> string" where
  "chars_of bs = map (\<lambda>b. char_of (unat b)) bs"

record start_state =
  su_tracker :: tracker
  su_hand_shake :: "byte list"
  su_torrent :: torrent

text \<open>Up to the trackers of the torrent: the hash, the handshake, the torrent.\<close>

definition main_load :: "nat \<Rightarrow> string \<Rightarrow> tracker \<Rightarrow> start_state option res" where
  "main_load fuel data tracker =
     rbind (info_hash_of data) (\<lambda>h.
       case h of None \<Rightarrow> Inr None
       | Some info_buf \<Rightarrow>
           let tracker = SetInfoHash (UrlEscape (chars_of info_buf)) tracker in
           rbind (HandShake_SetParameter None (Some info_buf) (Some (bytes_of (tk_am_id tracker) @ [0])) HandShake) (\<lambda>(_, hand_shake).
           rbind (BDict_Decode fuel data) (\<lambda>(match, _).
           rbind (ReadData [] match new_torrent) (\<lambda>t.
           rbind (GetTrackInfo t []) (\<lambda>info.
             Inr (Some \<lparr>su_tracker = fold SetTrackInfo info tracker, su_hand_shake = hand_shake, su_torrent = t\<rparr>))))))"

text \<open>The local files and the memory.\<close>

definition main_prepare :: "files \<Rightarrow> start_state \<Rightarrow> client \<Rightarrow> client res" where
  "main_prepare rd su cl =
     (let t = su_torrent su in
      rbind (GetIndexBitTotal t) (\<lambda>bits. rbind (GetIndexTotal t) (\<lambda>total.
      rbind (LBF_SetParameter rd t (replicate (nat bits) 0) (i32 total) cl) (\<lambda>cl.
      rbind (BM_Init (GetIndexEnd t) (GetIndexEndLength t) (GetIndexNormalLength t) (cl_memory cl)) (\<lambda>bm.
        Inr (cl\<lparr>cl_memory := bm\<rparr>))))))"

section \<open>Lemmas: what a tracker reads\<close>

fun split_on :: "char \<Rightarrow> string \<Rightarrow> string list" where
  "split_on c [] = [[]]"
| "split_on c (x # xs) = (if x = c then [] # split_on c xs else (case split_on c xs of [] \<Rightarrow> [[x]] | y # ys \<Rightarrow> (x # y) # ys))"

lemma split_on_append: "c \<notin> set p \<Longrightarrow> split_on c (p @ c # s) = p # split_on c s"
  by (induction p) auto

lemma split_on_last: "c \<notin> set p \<Longrightarrow> split_on c p = [p]"
  by (induction p) auto

text \<open>A server: the parameters behind the first question mark of the request line, with decoded values.\<close>

definition param_of :: "string \<Rightarrow> (string \<times> string) option" where
  "param_of p = map_option (Pair (takeWhile (\<lambda>c. c \<noteq> CHR ''='') p)) (url_decode (drop 1 (dropWhile (\<lambda>c. c \<noteq> CHR ''='') p)))"

definition query_of :: "string \<Rightarrow> (string \<times> string) list option" where
  "query_of msg =
     (case find_ch CHR ''?'' msg of None \<Rightarrow> None
      | Some q \<Rightarrow> those (map param_of (split_on CHR ''&'' (takeWhile (\<lambda>c. c \<noteq> CHR '' '') (drop (q + 1) msg)))))"

definition query_text :: "(string \<times> string) list \<Rightarrow> string" where
  "query_text ps = concat (map (\<lambda>(k, v). CHR ''&'' # k @ ''='' @ UrlEscape v) ps)"

definition word_chars :: "string \<Rightarrow> bool" where
  "word_chars k \<longleftrightarrow> list_all plain_char k"

lemma not_plain: "\<not> plain_char CHR ''&''" "\<not> plain_char CHR '' ''" "\<not> plain_char CHR ''=''" "\<not> plain_char CHR ''?''"
  by (simp_all add: plain_char_def is_alnum_def)

lemma plain_free:
  "word_chars k \<Longrightarrow> CHR ''&'' \<notin> set k" "word_chars k \<Longrightarrow> CHR '' '' \<notin> set k" "word_chars k \<Longrightarrow> CHR ''='' \<notin> set k"
  "CHR ''&'' \<notin> set (UrlEscape s)" "CHR '' '' \<notin> set (UrlEscape s)"
  using not_plain UrlEscape_safe [of _ s] by (fastforce simp: word_chars_def list_all_iff)+

lemma param_of_text: "word_chars k \<Longrightarrow> param_of (k @ CHR ''='' # UrlEscape v) = Some (k, v)"
proof -
  assume "word_chars k"
  then have k: "\<forall>c \<in> set k. c \<noteq> CHR ''=''" using plain_free(3) [of k] by auto
  have "takeWhile (\<lambda>c. c \<noteq> CHR ''='') (k @ CHR ''='' # UrlEscape v) = k"
    "dropWhile (\<lambda>c. c \<noteq> CHR ''='') (k @ CHR ''='' # UrlEscape v) = CHR ''='' # UrlEscape v"
    using k by (simp_all add: takeWhile_append2 dropWhile_append2)
  then show ?thesis by (simp add: param_of_def url_decode_UrlEscape)
qed

lemma query_params:
  assumes "list_all (\<lambda>(k, v). word_chars k) ((k, v) # ps)"
  shows "those (map param_of (split_on CHR ''&'' (k @ CHR ''='' # UrlEscape v @ query_text ps))) = Some ((k, v) # ps)"
  using assms
proof (induction ps arbitrary: k v)
  case Nil
  then have "CHR ''&'' \<notin> set (k @ CHR ''='' # UrlEscape v)" using plain_free(1) [of k] plain_free(4) [of v] by simp
  then show ?case using Nil by (simp add: query_text_def split_on_last param_of_text)
next
  case (Cons p ps)
  obtain k' v' where p: "p = (k', v')" by (cases p)
  have "CHR ''&'' \<notin> set (k @ CHR ''='' # UrlEscape v)" using Cons.prems plain_free(1) [of k] plain_free(4) [of v] by simp
  from split_on_append [OF this, of "k' @ CHR ''='' # UrlEscape v' @ query_text ps"]
  show ?case using Cons.IH [of k' v'] Cons.prems by (simp add: p query_text_def param_of_text)
qed

lemma UrlEscape_plain: "list_all plain_char s \<Longrightarrow> UrlEscape s = s"
  by (induction s) auto

lemma dec_plain: "list_all plain_char (dec n)"
proof -
  have "list_all plain_char ''0123456789''" by (simp add: plain_char_def is_alnum_def)
  then have "plain_char c" if "is_digit c" for c using that unfolding is_digit_def list_all_iff by blast
  then show ?thesis unfolding list_all_iff using dec_digits by blast
qed

text \<open>The parameters of an announcement.\<close>

definition announced :: "string \<Rightarrow> string \<Rightarrow> torrent \<Rightarrow> bitfield \<Rightarrow> (string \<times> string) list" where
  "announced h pid t bf =
     [(''info_hash'', h), (''peer_id'', pid), (''port'', ''54321''), (''compact'', ''1''),
      (''uploaded'', dec (nat (DownLoad t bf))), (''downloaded'', dec (nat (DownLoad t bf))), (''left'', dec (nat (LeftSize t bf))),
      (''event'', ''started''), (''numwant'', ''50'')]"

lemma plain_values: "UrlEscape ''54321'' = ''54321''" "UrlEscape ''1'' = ''1''" "UrlEscape ''started'' = ''started''"
    "UrlEscape ''50'' = ''50''" "UrlEscape (dec n) = dec n"
  using UrlEscape_plain dec_plain by (simp_all add: plain_char_def is_alnum_def)

lemma Delivery_text:
  assumes "tk_info_hash tk = UrlEscape h" and "tk_am_id tk = UrlEscape pid" and "hr_data (tk_request tk) = l0 # ls"
    and "length ls < 15"
  shows "\<exists>tk'. Delivery uri (UpdateReq t bf tk) = Inr (Some (''GET '' @ uri @ ''?'' @ tl (query_text (announced h pid t bf))
      @ '' HTTP/1.1'' @ [CR, LF] @ concat ls @ hr_head_end (tk_request tk)), tk')
    \<and> tk_request tk' = (tk_request tk)\<lparr>hr_data := (''GET '' @ uri @ ''?'' @ tl (query_text (announced h pid t bf))
        @ '' HTTP/1.1'' @ [CR, LF]) # ls\<rparr>"
  using assms
  by (simp add: Delivery_def UpdateReq_def TK_SetParameter_def SetFirstLine_def BindMsg_def request_size_def
      query_text_def announced_def plain_values Let_def del: UrlEscape.simps)

lemma query_no_space: "CHR '' '' \<notin> set (tl (query_text (announced h pid t bf)))"
proof -
  have "CHR '' '' \<notin> set (query_text qs)" if "list_all (\<lambda>(k, v). word_chars k) qs" for qs
    using that plain_free(2,5) by (induction qs) (auto simp: query_text_def)
  then have "CHR '' '' \<notin> set (query_text (announced h pid t bf))" by (simp add: announced_def word_chars_def plain_char_def is_alnum_def)
  then show ?thesis by (metis list.set_sel(2) tl_Nil)
qed

lemma query_of_request:
  assumes "CHR ''?'' \<notin> set uri"
  shows "query_of (''GET '' @ uri @ ''?'' @ tl (query_text (announced h pid t bf)) @ '' HTTP/1.1'' @ r) = Some (announced h pid t bf)"
proof -
  let ?ps = "announced h pid t bf" and ?q = "tl (query_text (announced h pid t bf))"
  obtain ps where ps: "?ps = (''info_hash'', h) # ps" by (simp add: announced_def)
  have w: "list_all (\<lambda>(k, v). word_chars k) ?ps" by (simp add: announced_def word_chars_def plain_char_def is_alnum_def)
  have q: "?q = ''info_hash'' @ CHR ''='' # UrlEscape h @ query_text ps" by (simp add: ps query_text_def)
  have f: "find_ch CHR ''?'' ((''GET '' @ uri) @ CHR ''?'' # ?q @ '' HTTP/1.1'' @ r) = Some (length (''GET '' @ uri))"
    by (rule find_ch_append) (use assms in simp)
  have "CHR '' '' \<notin> set ?q" by (rule query_no_space)
  then have "takeWhile (\<lambda>c. c \<noteq> CHR '' '') (?q @ '' HTTP/1.1'' @ r) = ?q" by (subst takeWhile_append2) auto
  then have "query_of ((''GET '' @ uri) @ CHR ''?'' # ?q @ '' HTTP/1.1'' @ r) = those (map param_of (split_on CHR ''&'' ?q))"
    unfolding query_of_def f by simp
  also have "\<dots> = Some ?ps" using query_params [of "''info_hash''" h ps] w unfolding q unfolding ps .
  finally show ?thesis by simp
qed

section \<open>Lemmas: the sockets of the trackers\<close>

definition open_fds :: "tracker_info list \<Rightarrow> int list" where
  "open_fds info = filter (\<lambda>fd. 0 \<le> fd) (map ti_fd info)"

text \<open>Closed and open sockets together stay the same, and \<open>quit_num\<close> counts the open ones.\<close>

definition accounts :: "tracker_info list \<Rightarrow> poll \<Rightarrow> tracker_info list \<Rightarrow> poll \<Rightarrow> bool" where
  "accounts info st info' st' \<longleftrightarrow>
     mset (pl_closed st') + mset (open_fds info') = mset (pl_closed st) + mset (open_fds info)
     \<and> pl_quit st' - int (length (open_fds info')) = pl_quit st - int (length (open_fds info))
     \<and> length (pl_ret st') + length (open_fds info') \<le> length (pl_ret st) + length (open_fds info)"

lemma accounts_trans: "accounts a s b s' \<Longrightarrow> accounts b s' c s'' \<Longrightarrow> accounts a s c s''"
  by (simp add: accounts_def)

lemma sum_exchange:
  fixes a :: "'a multiset"
  assumes "b + v' = a + v" and "c + w' = b + w"
  shows "c + (v' + w') = a + (v + w)"
proof -
  have "c + (v' + w') = (c + w') + v'" by (simp add: ac_simps)
  also have "\<dots> = (b + v') + w" unfolding assms(2) by (simp add: ac_simps)
  also have "\<dots> = a + (v + w)" unfolding assms(1) by (simp add: ac_simps)
  finally show ?thesis .
qed

lemma accounts_append:
  assumes "accounts [v] s [v'] s'" and "accounts vs s' vs' s''"
  shows "accounts (v # vs) s (v' # vs') s''"
proof -
  have o: "open_fds (w # ws) = open_fds [w] @ open_fds ws" for w ws by (simp add: open_fds_def)
  have c: "mset (pl_closed s') + mset (open_fds [v']) = mset (pl_closed s) + mset (open_fds [v])"
    "mset (pl_closed s'') + mset (open_fds vs') = mset (pl_closed s') + mset (open_fds vs)"
    using assms by (simp_all add: accounts_def)
  have "mset (pl_closed s'') + mset (open_fds (v' # vs')) = mset (pl_closed s) + mset (open_fds (v # vs))"
    unfolding o [of v vs] o [of v' vs'] mset_append by (rule sum_exchange [OF c])
  then show ?thesis using assms unfolding accounts_def o [of v vs] o [of v' vs'] by simp
qed

lemma poll_one_accounts:
  assumes "poll_one fuel nt w r val st = Inr (val', st')"
  shows "accounts [val] st [val'] st'"
proof -
  have wr: "accounts [val] st [v] s \<and> (go \<longrightarrow> v = val)"
    if "poll_write nt val st = Inr (go, v, s)" "0 \<le> ti_fd val" for go v s
    using that by (auto simp: poll_write_def accounts_def drop_socket_def open_fds_def Let_def rbind_Inr_iff split: if_splits)
  have rd: "accounts [val] s [v'] s'" if "poll_read fuel nt val s = Inr (v', s')" "0 \<le> ti_fd val" for s v' s'
    using that by (auto simp: poll_read_def accounts_def drop_socket_def open_fds_def Let_def rbind_Inr_iff split: if_splits)
  show ?thesis
  proof (cases "ti_fd val < 0")
    case True
    then show ?thesis using assms by (simp add: poll_one_def accounts_def)
  next
    case False
    then obtain go v s where g: "(if ti_fd val \<in> set w then poll_write nt val st else Inr (True, val, st)) = Inr (go, v, s)"
      "(if go \<and> ti_fd v \<in> set r then poll_read fuel nt v s else Inr (v, s)) = Inr (val', st')"
      using assms by (auto simp: poll_one_def rbind_Inr_iff)
    have f: "0 \<le> ti_fd val" using False by simp
    have a: "accounts [val] st [v] s \<and> (go \<longrightarrow> v = val)"
      using g(1) wr [OF _ f] by (auto simp: accounts_def split: if_splits)
    show ?thesis
    proof (cases "go \<and> ti_fd v \<in> set r")
      case True
      then show ?thesis using g(2) a rd [OF _ f, of s val' st'] accounts_trans by auto
    qed (use g(2) a in auto)
  qed
qed

lemma poll_round_accounts:
  "poll_round fuel nt w r info st = Inr (info', st') \<Longrightarrow> accounts info st info' st'"
proof (induction info arbitrary: st info')
  case (Cons val info)
  then obtain val1 st1 info1 where s: "poll_one fuel nt w r val st = Inr (val1, st1)"
    "poll_round fuel nt w r info st1 = Inr (info1, st')" "info' = val1 # info1"
    by (auto simp: rbind_Inr_iff)
  show ?case unfolding s(3) by (rule accounts_append [OF poll_one_accounts [OF s(1)] Cons.IH [OF s(2)]])
qed (simp add: accounts_def)

lemma poll_loop_accounts:
  "poll_loop fuel nt ss info st = Inr (info', st') \<Longrightarrow> accounts info st info' st'
    \<and> (pl_quit st' \<le> 0 \<or> SelectFailed \<in> set ss \<or> TimedOut \<in> set ss)"
proof (induction ss arbitrary: info st)
  case (Cons s ss)
  show ?case
  proof (cases "pl_quit st \<le> 0 \<or> s = SelectFailed \<or> s = TimedOut")
    case True
    then show ?thesis using Cons.prems by (auto simp: accounts_def split: selected.splits if_splits)
  next
    case False
    then obtain w r where s: "s = Ready w r" by (cases s) auto
    obtain info1 st1 where r: "poll_round fuel nt (filter (\<lambda>fd. fd \<in> set (pl_wset st)) w) (filter (\<lambda>fd. fd \<in> set (pl_rset st)) r) info st
        = Inr (info1, st1)" "poll_loop fuel nt ss info1 st1 = Inr (info', st')"
      using Cons.prems False by (auto simp: s rbind_Inr_iff)
    show ?thesis using Cons.IH [OF r(2)] accounts_trans [OF poll_round_accounts [OF r(1)]] by auto
  qed
qed (auto simp: accounts_def split: if_splits)

section \<open>Lemmas: the torrent file\<close>

lemma dec_length: "10 ^ k \<le> n \<Longrightarrow> n < 10 ^ Suc k \<Longrightarrow> length (dec n) = Suc k"
proof (induction k arbitrary: n)
  case 0
  then show ?case by (subst dec.simps) simp
next
  case (Suc k)
  have "10 ^ k \<le> n div 10" "n div 10 < 10 ^ Suc k" using Suc.prems by (simp_all add: less_eq_div_iff_mult_less_eq div_less_iff_less_mult mult.commute)
  moreover have "10 \<le> n" by (rule le_trans [OF _ Suc.prems(1)]) simp
  ultimately show ?case using Suc.IH by (subst dec.simps) simp
qed

lemma Tracker_id:
  assumes "length (dec now) = 10"
  obtains pid where "tk_am_id (Tracker now rand_num c) = UrlEscape pid" "pid = dec now @ dec (rand_num mod 100000000 + 1000000000)"
    "UrlEscape pid = pid" "length pid = 20" "list_all is_digit pid"
proof -
  let ?n = "rand_num mod 100000000 + 1000000000"
  have "rand_num mod 100000000 < 100000000" by (rule mod_less_divisor) simp
  then have "length (dec ?n) = 10" using dec_length [of 9 ?n] by simp
  moreover have "UrlEscape (dec now @ dec ?n) = dec now @ dec ?n" by (rule UrlEscape_plain) (simp add: dec_plain)
  moreover have "list_all is_digit (dec now @ dec ?n)" using dec_spec by simp
  ultimately show ?thesis using assms that by (simp add: Tracker_def)
qed

lemma bytes_append [simp]: "bytes_of (a @ b) = bytes_of a @ bytes_of b"
  by (simp add: bytes_of_def)

lemma info_hash_of_eq:
  assumes "data = pre @ ''info'' @ bencode (BDict kvs) @ rest" and "find_sub ''info'' data = Some (length pre)"
    and "short_bdata (BDict kvs)" and "length (bencode (BDict kvs)) + 128 < 4294967296"
  shows "info_hash_of data = Inr (Some (fips_sha1 (bytes_of (bencode (BDict kvs)))))"
proof -
  let ?e = "bencode (BDict kvs)"
  have d: "drop (length pre + 4) data = ?e @ rest" "int (length data) - int (length pre) - 4 = int (length ?e) + int (length rest)"
    by (simp_all add: assms(1))
  have g: "GetDictLength (?e @ rest) (int (length ?e) + int (length rest)) = Inr (int (length ?e))"
    by (rule dict_length_bencode [OF assms(3)]) simp
  have "0 < length ?e" by simp
  moreover have "mem_read (bytes_of (?e @ rest)) (length ?e) = Inr (bytes_of ?e)"
    by (simp add: mem_read_def bytes_of_def del: bencode.simps)
  moreover have "Sha1 (bytes_of ?e) = Inr (fips_sha1 (bytes_of ?e))"
    by (rule sha1_eq) (use assms(4) in \<open>simp add: bytes_of_def del: bencode.simps\<close>)
  ultimately show ?thesis using g by (simp add: info_hash_of_def assms(2) d del: bencode.simps)
qed

lemma digit_byte: "is_digit c \<Longrightarrow> (of_char c :: byte) \<noteq> 0"
proof -
  have "list_all (\<lambda>c. (of_char c :: byte) \<noteq> 0) ''0123456789''" by simp
  then show "is_digit c \<Longrightarrow> (of_char c :: byte) \<noteq> 0" unfolding is_digit_def list_all_iff by blast
qed

lemma handshake_id:
  assumes "length h = 20" and "\<not> first_zero h" and "length pid = 20" and "list_all is_digit pid"
  shows "HandShake_SetParameter None (Some h) (Some (bytes_of pid @ [0])) HandShake
    = Inr (True, 19 # protocol_name @ replicate 8 0 @ h @ bytes_of pid)"
proof -
  have n: "length (bytes_of pid) = 20" using assms(3) by (simp add: bytes_of_def)
  obtain c s where p: "pid = c # s" using assms(3) by (cases pid) auto
  have z: "\<not> first_zero (bytes_of pid)" using assms(4) digit_byte [of c] by (simp add: p first_zero_def bytes_of_def)
  have "mem_read (bytes_of pid @ [0]) 20 = mem_read (bytes_of pid) 20" "first_zero (bytes_of pid @ [0]) = first_zero (bytes_of pid)"
    using n p by (simp_all add: mem_read_def first_zero_def bytes_of_def)
  then have "HandShake_SetParameter None (Some h) (Some (bytes_of pid @ [0])) HandShake
      = HandShake_SetParameter None (Some h) (Some (bytes_of pid)) HandShake"
    by (simp add: HandShake_SetParameter_def put_field_def cong: if_cong)
  then show ?thesis using handshake_shape [OF assms(1,2) n z] by simp
qed

text \<open>A single-file torrent file, its entries in the order of their keys.\<close>

definition torrent_info :: "nat \<Rightarrow> string \<Rightarrow> nat \<Rightarrow> string \<Rightarrow> bdata" where
  "torrent_info n nm pl ps = BDict [(''length'', BInt n), (''name'', BStr nm), (''piece length'', BInt pl), (''pieces'', BStr ps)]"

definition torrent_bdata :: "string \<Rightarrow> bdata \<Rightarrow> bdata" where
  "torrent_bdata a info = BDict [(''announce'', BStr a), (''info'', info)]"

lemma torrent_text:
  "bencode (torrent_bdata a info) = (CHR ''d'' # bstr ''announce'' @ bstr a @ dec 4 @ '':'') @ ''info'' @ bencode info @ ''e''"
  by (simp add: torrent_bdata_def bstr_def eval_nat_numeral)

section \<open>Properties\<close>

text \<open>C19: a tracker that splits the request line of an announcement at question mark, ampersands and equals signs and decodes
  the values reads exactly the parameters of the protocol: the 20 bytes of the info hash, the id, the port, what has been
  downloaded and what is left; the headers follow.\<close>

theorem Delivery_announces:
  assumes "tk_info_hash tk = UrlEscape h" and "tk_am_id tk = UrlEscape pid" and "hr_data (tk_request tk) = l0 # ls"
    and "length ls < 15" and "CHR ''?'' \<notin> set uri"
  shows "\<exists>msg tk'. Delivery uri (UpdateReq t bf tk) = Inr (Some msg, tk') \<and> query_of msg = Some (announced h pid t bf)
    \<and> (\<exists>q. msg = ''GET '' @ uri @ ''?'' @ q @ '' HTTP/1.1'' @ [CR, LF] @ concat ls @ hr_head_end (tk_request tk)
        \<and> CHR '' '' \<notin> set q \<and> hr_data (tk_request tk') = (''GET '' @ uri @ ''?'' @ q @ '' HTTP/1.1'' @ [CR, LF]) # ls)"
  using Delivery_text [OF assms(1-4), of uri t bf] query_of_request [OF assms(5), of h pid t bf] query_no_space [of h pid t bf]
  by auto


definition sample_tracker :: tracker where
  "sample_tracker = (Tracker 1700000000 42 \<lparr>ca_size = 1024, ca_cnt = 0, ca_ptr = []\<rparr>)
     \<lparr>tk_info := [\<lparr>ti_tcp = True, ti_fd = - 3, ti_host = ''h'', ti_serv = ''80'', ti_uri = ''/announce''\<rparr>]\<rparr>"

definition sample_network :: network where
  "sample_network = \<lparr>nt_resolves = (\<lambda>_. True), nt_socket = (\<lambda>_. 7), nt_connects = (\<lambda>_. True), nt_error = (\<lambda>fd. fd = 7), nt_reads = (\<lambda>_. [])\<rparr>"

theorem Delivery_announces_witness:
  "\<exists>msg tk'. Delivery ''/announce'' (UpdateReq new_torrent BitField (SetInfoHash (UrlEscape ''hash'') sample_tracker)) = Inr (Some msg, tk')
    \<and> query_of msg = Some (announced ''hash'' (dec 1700000000 @ dec 1000000042) new_torrent BitField)"
proof -
  have "hr_data (tk_request (SetInfoHash (UrlEscape ''hash'') sample_tracker)) = [] # tl (hr_data (InitReq HttpRequest))"
    by (simp add: SetInfoHash_def sample_tracker_def Tracker_def InitReq_def SetHeader_def HttpRequest_def)
  from Delivery_announces [OF _ _ this, of "''hash''" "dec 1700000000 @ dec 1000000042" "''/announce''" new_torrent BitField] show ?thesis
    by (auto simp: SetInfoHash_def sample_tracker_def Tracker_def InitReq_def SetHeader_def HttpRequest_def simp del: UrlEscape.simps)
qed




end
