(* ===== verification/Sock_Recv.thy ===== *)
theory Sock_Recv
  imports Select_Switch
begin

text \<open>
  \<open>RecvTime_us\<close> (\<open>src/Sock/CszRecvTime_us.cpp\<close>), which reads the messages of the peers: non-blocking reads with a
  pause of 300 ms after one that finds nothing. What successive calls of \<open>recv\<close> find is a parameter: the bytes of
  a segment (none: the peer has closed), nothing yet, an error; after the list nothing arrives any more. A call takes
  at most what it asks for and leaves the rest. \<open>SelectSwitch\<close> uses it through \<open>recv_body\<close>, to which it is
  proved equivalent. The buffer is not null.
\<close>

datatype arrival = Segment "byte list" | Nothing | Broken

definition TIMEOUT300MS :: int where
  "TIMEOUT300MS = 300000"

text \<open>One \<open>recv\<close>: its result, whether \<open>errno\<close> is \<open>EAGAIN\<close>, the bytes, what is left.\<close>

fun recv_now :: "arrival list \<Rightarrow> int \<Rightarrow> int \<times> bool \<times> byte list \<times> arrival list" where
  "recv_now [] T_len = (- 1, True, [], [])"
| "recv_now (Nothing # as) T_len = (- 1, True, [], as)"
| "recv_now (Broken # as) T_len = (- 1, False, [], as)"
| "recv_now (Segment bs # as) T_len =
     (let got = take (nat T_len) bs
      in (int (length got), False, got, if length bs \<le> nat T_len then as else Segment (drop (nat T_len) bs) # as))"

text \<open>The loop: what is still to be read, the last result, the bytes so far.\<close>

fun recv_loop :: "nat \<Rightarrow> int \<Rightarrow> int \<Rightarrow> byte list \<Rightarrow> arrival list \<Rightarrow> int \<times> int \<times> byte list \<times> arrival list" where
  "recv_loop 0 T_len code buf as = (T_len, code, buf, as)"
| "recv_loop (Suc n) T_len code buf as =
     (if T_len \<le> 0 then (T_len, code, buf, as)
      else case recv_now as T_len of (code, again, got, as) \<Rightarrow>
        if code < 0 then (if again then recv_loop n T_len code buf as else (T_len, code, buf, as))
        else if code = 0 then (T_len, code, buf, as)
        else recv_loop n (T_len - code) code (buf @ got) as)"

definition RecvTime_us :: "int \<Rightarrow> int \<Rightarrow> arrival list \<Rightarrow> int \<times> byte list \<times> arrival list" where
  "RecvTime_us T_len T_time as =
     (if T_time \<le> 0 \<or> T_len \<le> 0 then (- 1, [], as)
      else case recv_loop (nat (T_time div TIMEOUT300MS)) T_len 0 [] as of (T_len, code, buf, as) \<Rightarrow>
        if 0 = T_len then (int (length buf), buf, as)
        else if code \<noteq> 0 \<and> 0 < T_len
        then (case recv_now as T_len of (code, again, got, as) \<Rightarrow>
                if code < 0 then (int (length buf), buf, as) else (int (length buf) + code, buf @ got, as))
        else (int (length buf), buf, as))"

section \<open>Lemmas\<close>

text \<open>
  The specification: what \<open>k\<close> reads without a limit on the length find, up to the end of the connection. (The source tries
  once more after an error.)
\<close>

fun arrived :: "nat \<Rightarrow> arrival list \<Rightarrow> byte list" where
  "arrived 0 as = []"
| "arrived (Suc k) [] = []"
| "arrived (Suc k) (Nothing # as) = arrived k as"
| "arrived (Suc k) (Broken # as) = (if k = 0 then [] else arrived 1 as)"
| "arrived (Suc k) (Segment bs # as) = (if bs = [] then [] else bs @ arrived k as)"

text \<open>The read after the loop.\<close>

definition last_read :: "int \<times> int \<times> byte list \<times> arrival list \<Rightarrow> byte list" where
  "last_read r = (case r of (T_len, code, buf, as) \<Rightarrow>
     buf @ (if T_len \<noteq> 0 \<and> code \<noteq> 0 \<and> 0 < T_len then fst (snd (snd (recv_now as T_len))) else []))"

lemma recv_now_arrived: "fst (snd (snd (recv_now as T_len))) = take (nat T_len) (arrived 1 as)"
  by (cases "(as, T_len)" rule: recv_now.cases) (auto simp: Let_def)

lemma recv_now_code:
  "0 < T_len \<Longrightarrow> fst (recv_now as T_len) < 0 \<Longrightarrow> fst (snd (snd (recv_now as T_len))) = []"
  "0 < T_len \<Longrightarrow> 0 \<le> fst (recv_now as T_len) \<Longrightarrow> fst (recv_now as T_len) = int (length (fst (snd (snd (recv_now as T_len)))))"
  by (cases "(as, T_len)" rule: recv_now.cases; auto simp: Let_def)+

lemma recv_loop_silent:
  "recv_loop n T_len code buf [] = (T_len, if 0 < n \<and> 0 < T_len then - 1 else code, buf, [])"
  by (induction n arbitrary: code) auto

lemma recv_loop_arrived:
  assumes "0 < T_len" and "0 < n \<or> code \<noteq> 0"
  shows "last_read (recv_loop n T_len code buf as) = buf @ take (nat T_len) (arrived (Suc n) as)"
  using assms
proof (induction n arbitrary: T_len code buf as)
  case 0
  then show ?case using recv_now_arrived [of as T_len] by (simp add: last_read_def)
next
  case (Suc n)
  show ?case
  proof (cases as)
    case Nil
    then show ?thesis using Suc.prems by (simp add: recv_loop_silent last_read_def)
  next
    case (Cons a as')
    show ?thesis
    proof (cases a)
      case (Segment bs)
      let ?got = "take (nat T_len) bs"
      show ?thesis
      proof (cases "bs = []")
        case True
        then show ?thesis using Suc.prems Cons Segment by (simp add: last_read_def)
      next
        case False
        then have g: "0 < length ?got" using Suc.prems by simp
        show ?thesis
        proof (cases "nat T_len \<le> length bs")
          case True
          then have l: "int (length ?got) = T_len" using Suc.prems by simp
          have r: "recv_loop n 0 c b s = (0, c, b, s)" for c b s by (cases n) simp_all
          show ?thesis using Suc.prems Cons Segment False True l by (simp add: r last_read_def Let_def)
        next
          case shorter: False
          then have l: "int (length ?got) = int (length bs)" "?got = bs" "0 < T_len - int (length bs)" using Suc.prems by auto
          have n: "nat (T_len - int (length bs)) = nat T_len - length bs" by simp
          have "recv_loop (Suc n) T_len code buf as = recv_loop n (T_len - int (length bs)) (int (length bs)) (buf @ bs) as'"
            using Suc.prems Cons Segment False shorter l by (simp add: Let_def)
          also have "last_read \<dots> = (buf @ bs) @ take (nat (T_len - int (length bs))) (arrived (Suc n) as')"
            using False by (intro Suc.IH l(3)) simp
          finally show ?thesis using Cons Segment False shorter by (simp add: n)
        qed
      qed
    next
      case Nothing
      have "recv_loop (Suc n) T_len code buf as = recv_loop n T_len (- 1) buf as'" using Suc.prems Cons Nothing by simp
      also have "last_read \<dots> = buf @ take (nat T_len) (arrived (Suc n) as')" by (intro Suc.IH Suc.prems(1)) simp
      finally show ?thesis using Cons Nothing by simp
    next
      case Broken
      then show ?thesis using Suc.prems Cons recv_now_arrived [of as' T_len] by (simp add: last_read_def)
    qed
  qed
qed

lemma RecvTime_us_arrived:
  assumes "0 < T_len" and "TIMEOUT300MS \<le> T_time"
  shows "\<exists>as'. RecvTime_us T_len T_time as
    = (let bs = take (nat T_len) (arrived (Suc (nat (T_time div TIMEOUT300MS))) as) in (int (length bs), bs, as'))"
proof -
  let ?n = "nat (T_time div TIMEOUT300MS)"
  have "1 \<le> T_time div TIMEOUT300MS" using assms(2) by (simp add: TIMEOUT300MS_def)
  then have n: "0 < ?n" by simp
  obtain l c b s where r: "recv_loop ?n T_len 0 [] as = (l, c, b, s)" by (metis prod_cases4)
  have a: "last_read (l, c, b, s) = take (nat T_len) (arrived (Suc ?n) as)"
    using recv_loop_arrived [OF assms(1), of ?n 0 "[]" as] n by (simp add: r)
  have t: "0 < T_time" using assms(2) by (simp add: TIMEOUT300MS_def)
  obtain c' ag got s' where w: "recv_now s l = (c', ag, got, s')" by (metis prod_cases4)
  show ?thesis
  proof (cases "l \<noteq> 0 \<and> c \<noteq> 0 \<and> 0 < l")
    case True
    then have "c' < 0 \<longrightarrow> got = []" "0 \<le> c' \<longrightarrow> c' = int (length got)"
      using recv_now_code [of l s] w by auto
    moreover have "b @ got = take (nat T_len) (arrived (Suc ?n) as)" using a True w by (simp add: last_read_def)
    ultimately show ?thesis using True assms(1) t r w
      by (cases "c' < 0") (auto simp: RecvTime_us_def Let_def simp flip: length_append of_nat_add)
  next
    case False
    then have "b = take (nat T_len) (arrived (Suc ?n) as)" using a by (auto simp: last_read_def)
    then show ?thesis using False assms(1) t r by (auto simp: RecvTime_us_def Let_def)
  qed
qed

lemma arrived_segments:
  assumes "list_all (\<lambda>bs. bs \<noteq> []) bss"
  shows "arrived k (map Segment bss) = concat (take k bss)"
  using assms
proof (induction k arbitrary: bss)
  case (Suc k)
  then show ?case by (cases bss) auto
qed simp

section \<open>Properties\<close>

text \<open>C28: reading a message into its buffer with \<open>RecvTime_us\<close> and comparing the result with the length, as the dispatch
  does, is \<open>recv_body\<close> of what arrives within one read more than the time has pauses of 300 ms.\<close>

theorem RecvTime_us_recv_body:
  assumes "0 < T_len" and "TIMEOUT300MS \<le> T_time"
  shows "(let (n, buf, _) = RecvTime_us T_len T_time as in if T_len \<noteq> n then None else Some buf)
    = recv_body T_len (arrived (Suc (nat (T_time div TIMEOUT300MS))) as)"
proof -
  let ?d = "arrived (Suc (nat (T_time div TIMEOUT300MS))) as"
  obtain as' where r: "RecvTime_us T_len T_time as = (int (length (take (nat T_len) ?d)), take (nat T_len) ?d, as')"
    using RecvTime_us_arrived [OF assms, of as] by (auto simp: Let_def)
  have "T_len = int (length (take (nat T_len) ?d)) \<longleftrightarrow> T_len \<le> int (length ?d)" using assms(1) by auto
  then show ?thesis using assms(1) unfolding r by (simp add: recv_body_def)
qed

theorem RecvTime_us_recv_body_witness:
  "(let (n, buf, _) = RecvTime_us 3 1000000 [Segment [1], Nothing, Segment [2, 3, 4]] in if 3 \<noteq> n then None else Some buf) = Some [1, 2, 3]"
  using RecvTime_us_recv_body [of 3 1000000 "[Segment [1], Nothing, Segment [2, 3, 4]]"]
  by (simp add: TIMEOUT300MS_def recv_body_def numeral_3_eq_3)

text \<open>A message that arrives in more segments than that is refused although all its bytes are there: every segment takes
  one of the tries, so that of a message in five segments the dispatch, which allows 1000 ms, reads four.\<close>

theorem RecvTime_us_many_segments:
  assumes "list_all (\<lambda>bs. bs \<noteq> []) bss" and "T_len = int (length (concat bss))" and "0 < T_len" and "TIMEOUT300MS \<le> T_time"
    and "T_time div TIMEOUT300MS + 1 < int (length bss)"
  shows "fst (RecvTime_us T_len T_time (map Segment bss)) < T_len"
proof -
  let ?k = "Suc (nat (T_time div TIMEOUT300MS))"
  have k: "?k < length bss" using assms(4,5) by (simp add: TIMEOUT300MS_def)
  have "drop ?k bss \<noteq> []" using k by simp
  then obtain b r where b: "drop ?k bss = b # r" by (cases "drop ?k bss") auto
  then have "b \<in> set bss" by (metis in_set_dropD list.set_intros(1))
  then have "0 < length b" using assms(1) by (auto simp: list_all_iff)
  moreover have "concat bss = concat (take ?k bss) @ b @ concat r" by (metis append_take_drop_id b concat.simps(2) concat_append)
  ultimately have "length (concat (take ?k bss)) < length (concat bss)" by simp
  moreover obtain as' where "RecvTime_us T_len T_time (map Segment bss)
      = (int (length (take (nat T_len) (concat (take ?k bss)))), take (nat T_len) (concat (take ?k bss)), as')"
    using RecvTime_us_arrived [OF assms(3,4), of "map Segment bss"] arrived_segments [OF assms(1), of ?k] by (auto simp: Let_def)
  ultimately show ?thesis using assms(2) by simp
qed

theorem RecvTime_us_many_segments_witness:
  "fst (RecvTime_us (int (length (concat [[1], [2], [3], [4], [5 :: byte]]))) 1000000 (map Segment [[1], [2], [3], [4], [5]])) < 5"
  using RecvTime_us_many_segments [of "[[1], [2], [3], [4], [5]]" 5 1000000] by (simp add: TIMEOUT300MS_def)

end
