(* ===== verification/Task_Queue.thy ===== *)
theory Task_Queue
  imports Prelude
begin

text \<open>
  The task queue and the pool of workers the received messages are handed to (\<open>Thread/\<close>). Everything
  \<open>TaskQueue\<close> does runs under its mutex, so that an operation is one step; one that has to wait on a
  condition variable is \<open>None\<close>. The order of the queue is kept by \<open>std::push_heap\<close> and
  \<open>std::pop_heap\<close>, arguments here: what is promised of them is the locale \<open>heap_algorithms\<close>, and
  the algorithms of libstdc++ are an instance. Last comes the pool as a step relation, in which any
  worker, the thread that pushes and the one that stops may move next.
\<close>

section \<open>TaskQueue\<close>

record 'j task_data =
  ta_priority :: int
  ta_job :: 'j

record 'j task_queue =
  tq_stop :: bool
  tq_tasks :: "'j task_data list"

definition TaskQueue :: "'j task_queue" where
  "TaskQueue = \<lparr>tq_stop = False, tq_tasks = []\<rparr>"

definition TQComp :: "'j task_data \<Rightarrow> 'j task_data \<Rightarrow> bool" where
  "TQComp T_lhs T_rhs = (ta_priority T_lhs < ta_priority T_rhs)"

type_synonym 'j heap_op = "'j task_data list \<Rightarrow> 'j task_data list"

definition TQ_Push :: "'j heap_op \<Rightarrow> nat \<Rightarrow> 'j option \<Rightarrow> 'j task_queue \<Rightarrow> 'j task_queue option" where
  "TQ_Push push_heap TASKNUM T_task q =
     (case T_task of None \<Rightarrow> Some q
      | Some job \<Rightarrow>
          if \<not> tq_stop q \<and> length (tq_tasks q) = TASKNUM then None
          else if tq_stop q then Some q
          else Some (q\<lparr>tq_tasks := push_heap (tq_tasks q @ [\<lparr>ta_priority = 0, ta_job = job\<rparr>])\<rparr>))"

text \<open>The result \<open>false\<close> is the inner \<open>None\<close>. \<open>Run\<close>, the caller, passes no null pointer.\<close>

definition TQ_Pop :: "'j heap_op \<Rightarrow> 'j task_queue \<Rightarrow> ('j option \<times> 'j task_queue) option" where
  "TQ_Pop pop_heap q =
     (if \<not> tq_stop q \<and> tq_tasks q = [] then None
      else if tq_stop q then Some (None, q)
      else let tasks = pop_heap (tq_tasks q)
           in Some (Some (ta_job (last tasks)), q\<lparr>tq_tasks := butlast tasks\<rparr>))"

text \<open>\<open>Stop\<close> sets the flag under the mutex and clears the queue after it has given the mutex back.\<close>

definition TQ_SetStop :: "'j task_queue \<Rightarrow> 'j task_queue" where
  "TQ_SetStop q = q\<lparr>tq_stop := True\<rparr>"

definition TQ_ClearTasks :: "'j task_queue \<Rightarrow> 'j task_queue" where
  "TQ_ClearTasks q = q\<lparr>tq_tasks := []\<rparr>"

section \<open>BthreadPool\<close>

datatype 'j worker = Idle | Running 'j | Ended

record 'j pool =
  po_workers :: "'j worker list"
  po_queue :: "'j task_queue"

definition BP_Init :: "nat \<Rightarrow> 'j pool" where
  "BP_Init T_num = \<lparr>po_workers = replicate T_num Idle, po_queue = TaskQueue\<rparr>"

definition BP_Push :: "'j heap_op \<Rightarrow> nat \<Rightarrow> 'j \<Rightarrow> 'j pool \<Rightarrow> 'j pool option" where
  "BP_Push push_heap TASKNUM job p =
     map_option (\<lambda>q. p\<lparr>po_queue := q\<rparr>) (TQ_Push push_heap TASKNUM (Some job) (po_queue p))"

text \<open>The loop of worker \<open>i\<close>: a call of \<open>Pop\<close>, then the task; \<open>None\<close> is a worker that waits or has ended.\<close>

definition Run :: "'j heap_op \<Rightarrow> nat \<Rightarrow> 'j pool \<Rightarrow> 'j pool option" where
  "Run pop_heap i p =
     (case po_workers p ! i of
        Idle \<Rightarrow> (case TQ_Pop pop_heap (po_queue p) of
                   None \<Rightarrow> None
                 | Some (None, q) \<Rightarrow> Some (p\<lparr>po_workers := (po_workers p)[i := Ended], po_queue := q\<rparr>)
                 | Some (Some job, q) \<Rightarrow> Some (p\<lparr>po_workers := (po_workers p)[i := Running job], po_queue := q\<rparr>))
      | Running job \<Rightarrow> Some (p\<lparr>po_workers := (po_workers p)[i := Idle]\<rparr>)
      | Ended \<Rightarrow> None)"

text \<open>The joins of \<open>Stop\<close> wait until every worker has ended.\<close>

definition BP_Join :: "'j pool \<Rightarrow> 'j pool option" where
  "BP_Join p = (if \<forall>w \<in> set (po_workers p). (case w of Ended \<Rightarrow> True | _ \<Rightarrow> False)
                then Some (p\<lparr>po_workers := []\<rparr>) else None)"

section \<open>The pool as a step relation\<close>

datatype 'j happening = Accepted 'j | Refused 'j | Taken 'j | Quiet | Stopped | Dropped "'j list"

fun took :: "'j worker \<Rightarrow> 'j worker \<Rightarrow> 'j happening" where
  "took Idle (Running job) = Taken job"
| "took _ _ = Quiet"

inductive pool_step :: "'j heap_op \<Rightarrow> 'j heap_op \<Rightarrow> nat \<Rightarrow> 'j pool \<Rightarrow> 'j happening \<Rightarrow> 'j pool \<Rightarrow> bool"
  for push_heap pop_heap TASKNUM where
  push: "BP_Push push_heap TASKNUM job p = Some p' \<Longrightarrow>
         pool_step push_heap pop_heap TASKNUM p (if tq_stop (po_queue p) then Refused job else Accepted job) p'"
| run: "i < length (po_workers p) \<Longrightarrow> Run pop_heap i p = Some p' \<Longrightarrow>
        pool_step push_heap pop_heap TASKNUM p (took (po_workers p ! i) (po_workers p' ! i)) p'"
| stop: "pool_step push_heap pop_heap TASKNUM p Stopped (p\<lparr>po_queue := TQ_SetStop (po_queue p)\<rparr>)"
| clear: "tq_stop (po_queue p) \<Longrightarrow>
          pool_step push_heap pop_heap TASKNUM p (Dropped (map ta_job (tq_tasks (po_queue p))))
            (p\<lparr>po_queue := TQ_ClearTasks (po_queue p)\<rparr>)"

inductive pool_run :: "'j heap_op \<Rightarrow> 'j heap_op \<Rightarrow> nat \<Rightarrow> nat \<Rightarrow> 'j happening list \<Rightarrow> 'j pool \<Rightarrow> bool"
  for push_heap pop_heap TASKNUM T_num where
  start: "pool_run push_heap pop_heap TASKNUM T_num [] (BP_Init T_num)"
| more: "pool_run push_heap pop_heap TASKNUM T_num tr p \<Longrightarrow> pool_step push_heap pop_heap TASKNUM p e p' \<Longrightarrow>
         pool_run push_heap pop_heap TASKNUM T_num (tr @ [e]) p'"

fun accepted :: "'j happening list \<Rightarrow> 'j list" where
  "accepted [] = []"
| "accepted (Accepted job # tr) = job # accepted tr"
| "accepted (_ # tr) = accepted tr"

fun taken :: "'j happening list \<Rightarrow> 'j list" where
  "taken [] = []"
| "taken (Taken job # tr) = job # taken tr"
| "taken (_ # tr) = taken tr"

fun dropped_jobs :: "'j happening list \<Rightarrow> 'j list" where
  "dropped_jobs [] = []"
| "dropped_jobs (Dropped jobs # tr) = jobs @ dropped_jobs tr"
| "dropped_jobs (_ # tr) = dropped_jobs tr"

section \<open>Lemmas: the heap algorithms\<close>

text \<open>What a step does to the queue: the jobs are accounted for, the bound is kept, the flag stays.\<close>

definition queue_moves :: "nat \<Rightarrow> 'j happening \<Rightarrow> 'j task_queue \<Rightarrow> 'j task_queue \<Rightarrow> bool" where
  "queue_moves TASKNUM e q q' \<longleftrightarrow>
     mset (accepted [e]) + mset (map ta_job (tq_tasks q))
       = mset (taken [e]) + mset (map ta_job (tq_tasks q')) + mset (dropped_jobs [e])
     \<and> (length (tq_tasks q) \<le> TASKNUM \<longrightarrow> length (tq_tasks q') \<le> TASKNUM)
     \<and> (dropped_jobs [e] \<noteq> [] \<or> tq_stop q \<longrightarrow> tq_stop q')"

lemma happened_append:
  "accepted (tr @ tr') = accepted tr @ accepted tr'"
  "taken (tr @ tr') = taken tr @ taken tr'"
  "dropped_jobs (tr @ tr') = dropped_jobs tr @ dropped_jobs tr'"
proof (induction tr)
  case (Cons e tr)
  case 1 show ?case using Cons.IH(1) by (cases e) simp_all
  case 2 show ?case using Cons.IH(2) by (cases e) simp_all
  case 3 show ?case using Cons.IH(3) by (cases e) simp_all
qed simp_all

text \<open>
  The C++ standard: both permute their range; \<open>pop_heap\<close> moves the first element to the end. With one
  priority for all, every order is a heap.
\<close>

locale heap_algorithms =
  fixes push_heap :: "'j heap_op" and pop_heap :: "'j heap_op"
  assumes mset_push_heap: "mset (push_heap ts) = mset ts"
    and mset_pop_heap: "mset (pop_heap ts) = mset ts"
    and last_pop_heap: "ts \<noteq> [] \<Longrightarrow> last (pop_heap ts) = hd ts"
begin

lemma length_push: "length (push_heap ts) = length ts"
  by (metis mset_push_heap size_mset)

lemma push_jobs: "mset (map ta_job (push_heap ts)) = mset (map ta_job ts)"
  by (simp add: mset_push_heap)

lemma pop_parts: "ts \<noteq> [] \<Longrightarrow> pop_heap ts = butlast (pop_heap ts) @ [hd ts]"
  by (metis append_butlast_last_id last_pop_heap mset_pop_heap mset_zero_iff)

lemma pop_jobs:
  assumes "ts \<noteq> []"
  shows "mset (map ta_job ts) = add_mset (ta_job (last (pop_heap ts))) (mset (map ta_job (butlast (pop_heap ts))))"
proof -
  have "mset (map ta_job ts) = mset (map ta_job (pop_heap ts))" by (simp add: mset_pop_heap)
  also have "\<dots> = mset (map ta_job (butlast (pop_heap ts) @ [hd ts]))" by (simp only: pop_parts [OF assms, symmetric])
  finally show ?thesis using assms by (simp add: last_pop_heap)
qed

lemma length_pop: "ts \<noteq> [] \<Longrightarrow> length (butlast (pop_heap ts)) < length ts"
  by (metis length_butlast diff_less length_greater_0_conv mset_pop_heap size_mset zero_less_one)

lemma push_moves:
  assumes "TQ_Push push_heap TASKNUM (Some job) q = Some q'"
  shows "queue_moves TASKNUM (if tq_stop q then Refused job else Accepted job) q q'"
  using assms by (auto simp: TQ_Push_def queue_moves_def mset_push_heap length_push split: if_splits)

lemma pop_moves:
  assumes "TQ_Pop pop_heap q = Some (r, q')"
  shows "queue_moves TASKNUM (case r of None \<Rightarrow> Quiet | Some job \<Rightarrow> Taken job) q q'"
  using assms pop_jobs length_pop [of "tq_tasks q"] by (auto simp: TQ_Pop_def queue_moves_def Let_def split: if_splits)

lemma run_moves:
  assumes "Run pop_heap i p = Some p'" and "i < length (po_workers p)"
  shows "queue_moves TASKNUM (took (po_workers p ! i) (po_workers p' ! i)) (po_queue p) (po_queue p')"
  using assms pop_moves [of "po_queue p" _ _ TASKNUM]
  by (fastforce simp: Run_def queue_moves_def [of _ Quiet q q for q] split: worker.splits option.splits prod.splits)

lemma step_moves:
  assumes "pool_step push_heap pop_heap TASKNUM p e p'"
  shows "queue_moves TASKNUM e (po_queue p) (po_queue p')"
  using assms
proof (cases rule: pool_step.cases)
  case (push job)
  then show ?thesis using push_moves [of TASKNUM job "po_queue p"] by (auto simp: BP_Push_def)
next
  case (run i)
  then show ?thesis using run_moves by simp
qed (simp_all add: queue_moves_def TQ_SetStop_def TQ_ClearTasks_def)

lemma run_accounts:
  assumes "pool_run push_heap pop_heap TASKNUM T_num tr p"
  shows "mset (accepted tr) = mset (taken tr) + mset (map ta_job (tq_tasks (po_queue p))) + mset (dropped_jobs tr)"
    and "length (tq_tasks (po_queue p)) \<le> TASKNUM"
    and "dropped_jobs tr \<noteq> [] \<Longrightarrow> tq_stop (po_queue p)"
  using assms
proof (induction rule: pool_run.induct)
  case start
  case 1 show ?case by (simp add: BP_Init_def TaskQueue_def)
  case 2 show ?case by (simp add: BP_Init_def TaskQueue_def)
  case 3 then show ?case by simp
next
  case (more tr p e p')
  note m = step_moves [OF more.hyps(2), unfolded queue_moves_def]
  case 1 show ?case using m more.IH(1) by (simp add: happened_append ac_simps)
  case 2 show ?case using m more.IH(2) by blast
  case 3 then show ?case using m more.IH(3) by (auto simp: happened_append)
qed

end

section \<open>The algorithms of libstdc++\<close>

definition exchange :: "nat \<Rightarrow> nat \<Rightarrow> 'a list \<Rightarrow> 'a list" where
  "exchange i j xs = xs[i := xs ! j, j := xs ! i]"

text \<open>Towards the root while the parent is smaller.\<close>

fun sift_up :: "nat \<Rightarrow> 'j heap_op" where
  "sift_up i ts =
     (if i = 0 then ts
      else let parent = (i - 1) div 2
           in if TQComp (ts ! parent) (ts ! i) then sift_up parent (exchange parent i ts) else ts)"

declare sift_up.simps [simp del]

text \<open>Down to a leaf of the first \<open>n\<close>, along the greater children, the right one of two equal ones.\<close>

function sift_leaf :: "nat \<Rightarrow> nat \<Rightarrow> 'j task_data list \<Rightarrow> nat \<times> 'j task_data list" where
  "sift_leaf n i ts =
     (if 2 * i + 2 < n
      then let child = (if TQComp (ts ! (2 * i + 2)) (ts ! (2 * i + 1)) then 2 * i + 1 else 2 * i + 2)
           in sift_leaf n child (exchange i child ts)
      else if 2 * i + 2 = n then (2 * i + 1, exchange i (2 * i + 1) ts)
      else (i, ts))"
  by pat_completeness auto

termination
  by (relation "measure (\<lambda>(n, i, ts). n - i)") (auto simp: Let_def split: if_splits)

declare sift_leaf.simps [simp del]

definition std_push_heap :: "'j heap_op" where
  "std_push_heap ts = (if ts = [] then ts else sift_up (length ts - 1) ts)"

definition std_pop_heap :: "'j heap_op" where
  "std_pop_heap ts =
     (if length ts < 2 then ts
      else let n = length ts - 1; (hole, ts) = sift_leaf n 0 (exchange 0 n ts) in sift_up hole ts)"

text \<open>What an algorithm may do to its first \<open>n\<close> elements.\<close>

definition permutes_first :: "nat \<Rightarrow> 'a list \<Rightarrow> 'a list \<Rightarrow> bool" where
  "permutes_first n xs ys \<longleftrightarrow> mset ys = mset xs \<and> drop n ys = drop n xs"

lemma permutes_first_refl: "permutes_first n xs xs"
  by (simp add: permutes_first_def)

lemma permutes_first_trans: "permutes_first n xs ys \<Longrightarrow> permutes_first n ys zs \<Longrightarrow> permutes_first n xs zs"
  by (simp add: permutes_first_def)

lemma exchange_first: "i < n \<Longrightarrow> j < n \<Longrightarrow> n \<le> length xs \<Longrightarrow> permutes_first n xs (exchange i j xs)"
  by (auto simp: permutes_first_def exchange_def mset_swap)

lemma length_permuted: "permutes_first n xs ys \<Longrightarrow> length ys = length xs"
  unfolding permutes_first_def by (metis size_mset)

lemma sift_up_first: "i < n \<Longrightarrow> n \<le> length ts \<Longrightarrow> permutes_first n ts (sift_up i ts)"
proof (induction i ts rule: sift_up.induct)
  case (1 i ts)
  let ?p = "(i - 1) div 2"
  have p: "?p < n" "permutes_first n ts (exchange ?p i ts)" using 1(2,3) exchange_first [of ?p n i ts] by auto
  then have "n \<le> length (exchange ?p i ts)" using 1(3) length_permuted by metis
  then have "permutes_first n ts (sift_up ?p (exchange ?p i ts))" if "i \<noteq> 0" "TQComp (ts ! ?p) (ts ! i)"
    using 1(1) [OF that(1) refl that(2) p(1)] permutes_first_trans [OF p(2)] by simp
  then show ?case unfolding sift_up.simps [of i ts] by (simp add: Let_def permutes_first_refl)
qed

lemma sift_leaf_first:
  "i < n \<Longrightarrow> n \<le> length ts \<Longrightarrow> sift_leaf n i ts = (hole, us) \<Longrightarrow> permutes_first n ts us \<and> hole < n"
proof (induction n i ts rule: sift_leaf.induct)
  case (1 n i ts)
  define child where "child = (if TQComp (ts ! (2 * i + 2)) (ts ! (2 * i + 1)) then 2 * i + 1 else 2 * i + 2)"
  show ?case
  proof (cases "2 * i + 2 < n")
    case True
    have c: "child < n" using True by (simp add: child_def)
    then have e: "permutes_first n ts (exchange i child ts)" using 1(2,3) exchange_first by auto
    have "permutes_first n (exchange i child ts) us \<and> hole < n"
    proof (rule 1(1) [OF True child_def c])
      show "n \<le> length (exchange i child ts)" using 1(3) length_permuted [OF e] by simp
      show "sift_leaf n child (exchange i child ts) = (hole, us)"
        using 1(4) True unfolding sift_leaf.simps [of n i ts] by (simp add: Let_def child_def)
    qed
    then show ?thesis using permutes_first_trans [OF e] by blast
  next
    case False
    then show ?thesis using 1(2-4) exchange_first [of i n "2 * i + 1" ts] permutes_first_refl
      unfolding sift_leaf.simps [of n i ts] by (auto split: if_splits)
  qed
qed

lemma std_pop_heap_first:
  assumes "2 \<le> length ts"
  shows "permutes_first (length ts - 1) (exchange 0 (length ts - 1) ts) (std_pop_heap ts)"
proof -
  let ?n = "length ts - 1"
  obtain hole us where s: "sift_leaf ?n 0 (exchange 0 ?n ts) = (hole, us)" by fastforce
  have l: "length (exchange 0 ?n ts) = length ts" by (simp add: exchange_def)
  then have u: "permutes_first ?n (exchange 0 ?n ts) us \<and> hole < ?n" using sift_leaf_first [OF _ _ s] assms by simp
  then have "permutes_first ?n us (sift_up hole us)" using sift_up_first length_permuted l by (metis diff_le_self)
  then show ?thesis using u permutes_first_trans assms s by (auto simp: std_pop_heap_def Let_def)
qed

interpretation libstdcxx: heap_algorithms std_push_heap std_pop_heap
proof
  fix ts :: "'j task_data list"
  show "mset (std_push_heap ts) = mset ts"
    using sift_up_first [of "length ts - 1" "length ts" ts] by (simp add: std_push_heap_def permutes_first_def)
  have x: "mset (exchange 0 (length ts - 1) ts) = mset ts" if "2 \<le> length ts"
    using that by (simp only: exchange_def) (rule mset_swap, auto)
  show "mset (std_pop_heap ts) = mset ts"
    using std_pop_heap_first [of ts] x by (cases "2 \<le> length ts") (simp_all add: permutes_first_def std_pop_heap_def)
  assume "ts \<noteq> []"
  show "last (std_pop_heap ts) = hd ts"
  proof (cases "2 \<le> length ts")
    case True
    have "drop (length ts - 1) (std_pop_heap ts) = drop (length ts - 1) (exchange 0 (length ts - 1) ts)"
      using std_pop_heap_first [OF True] by (simp add: permutes_first_def)
    also have "\<dots> = [hd ts]"
      using \<open>ts \<noteq> []\<close> by (simp add: exchange_def drop_update_swap hd_conv_nth Cons_nth_drop_Suc [symmetric])
    finally show ?thesis by (metis append_take_drop_id last_snoc)
  next
    case False
    then show ?thesis using \<open>ts \<noteq> []\<close> by (cases ts) (simp_all add: std_pop_heap_def Suc_le_eq)
  qed
qed

section \<open>Lemmas: stopping\<close>

text \<open>The pool while the scheduler lets the workers of a list move; who cannot move is passed over.\<close>

fun scheduled :: "'j heap_op \<Rightarrow> nat list \<Rightarrow> 'j pool \<Rightarrow> 'j pool" where
  "scheduled pop_heap [] p = p"
| "scheduled pop_heap (i # is) p = scheduled pop_heap is (case Run pop_heap i p of None \<Rightarrow> p | Some p' \<Rightarrow> p')"

text \<open>How many moves a worker has left once the queue is stopped.\<close>

fun moves_left :: "'j worker \<Rightarrow> nat" where
  "moves_left Ended = 0"
| "moves_left Idle = 1"
| "moves_left (Running job) = 2"

lemma stopped_move:
  assumes "tq_stop (po_queue p)" and "i < length (po_workers p)"
    and "p' = (case Run pop_heap i p of None \<Rightarrow> p | Some p' \<Rightarrow> p')"
  shows "tq_stop (po_queue p')" "length (po_workers p') = length (po_workers p)"
    "j < length (po_workers p) \<Longrightarrow> moves_left (po_workers p' ! j) = moves_left (po_workers p ! j) - (if i = j then 1 else 0)"
  using assms by (auto simp: Run_def TQ_Pop_def nth_list_update split: worker.splits)

lemma stopped_moves:
  assumes "tq_stop (po_queue p)" and "\<forall>i \<in> set is. i < length (po_workers p)"
  shows "length (po_workers (scheduled pop_heap is p)) = length (po_workers p)
    \<and> (\<forall>j < length (po_workers p).
         moves_left (po_workers (scheduled pop_heap is p) ! j) = moves_left (po_workers p ! j) - count_list is j)"
  using assms
proof (induction "is" arbitrary: p)
  case (Cons i "is")
  define p' where "p' = (case Run pop_heap i p of None \<Rightarrow> p | Some p' \<Rightarrow> p')"
  have i: "i < length (po_workers p)" using Cons.prems by simp
  note m = stopped_move [OF Cons.prems(1) i p'_def]
  have "scheduled pop_heap (i # is) p = scheduled pop_heap is p'" by (simp add: p'_def)
  then show ?case using Cons.IH [of p'] m Cons.prems(2) by simp
qed simp

lemma no_moves_left: "moves_left w = 0 \<longleftrightarrow> w = Ended"
  by (cases w) simp_all

section \<open>Properties\<close>

text \<open>C14: in every run of the pool, whatever the scheduler does, each task that was pushed before the stop has been taken by exactly one
  worker, waits in the queue, or was dropped by the stop, and nothing else is ever taken; at most \<open>TASKNUM\<close> tasks wait, and
  tasks are dropped by a stop only. It rests on the promises of the C++ standard for the heap algorithms alone.\<close>

theorem tasks_accounted:
  assumes "heap_algorithms push_heap pop_heap" and "pool_run push_heap pop_heap TASKNUM T_num tr p"
  shows "mset (accepted tr) = mset (taken tr) + mset (map ta_job (tq_tasks (po_queue p))) + mset (dropped_jobs tr)
    \<and> length (tq_tasks (po_queue p)) \<le> TASKNUM \<and> (tq_stop (po_queue p) \<or> dropped_jobs tr = [])"
  using heap_algorithms.run_accounts [OF assms] by blast

lemma sample_run:
  "pool_run std_push_heap std_pop_heap 150 1 [Accepted ''choke'', Accepted ''have'', Taken ''choke'']
     \<lparr>po_workers = [Running ''choke''], po_queue = \<lparr>tq_stop = False, tq_tasks = [\<lparr>ta_priority = 0, ta_job = ''have''\<rparr>]\<rparr>\<rparr>"
proof -
  let ?q = "\<lambda>js. \<lparr>tq_stop = False, tq_tasks = map (\<lambda>j. \<lparr>ta_priority = 0, ta_job = j\<rparr>) js\<rparr>"
  let ?p = "\<lambda>w js. \<lparr>po_workers = [w], po_queue = ?q js\<rparr>"
  note m = pool_run.more [where push_heap = std_push_heap and pop_heap = std_pop_heap and TASKNUM = 150 and T_num = 1]
  note s = std_push_heap_def std_pop_heap_def sift_up.simps sift_leaf.simps TQComp_def exchange_def Let_def
  have r: "pool_run std_push_heap std_pop_heap 150 1 [] (?p Idle [])"
    using pool_run.start [of std_push_heap std_pop_heap 150 1] by (simp add: BP_Init_def TaskQueue_def)
  have s1: "pool_step std_push_heap std_pop_heap 150 (?p Idle []) (Accepted ''choke'') (?p Idle [''choke''])"
    using pool_step.push [of std_push_heap 150 "''choke''" "?p Idle []"] by (simp add: BP_Push_def TQ_Push_def s)
  have s2: "pool_step std_push_heap std_pop_heap 150 (?p Idle [''choke'']) (Accepted ''have'') (?p Idle [''choke'', ''have''])"
    using pool_step.push [of std_push_heap 150 "''have''" "?p Idle [''choke'']"] by (simp add: BP_Push_def TQ_Push_def s)
  have s3: "pool_step std_push_heap std_pop_heap 150 (?p Idle [''choke'', ''have'']) (Taken ''choke'') (?p (Running ''choke'') [''have''])"
    using pool_step.run [of 0 "?p Idle [''choke'', ''have'']" std_pop_heap "?p (Running ''choke'') [''have'']"]
    by (simp add: Run_def TQ_Pop_def s)
  show ?thesis using m [OF m [OF m [OF r s1] s2] s3] by simp
qed

theorem tasks_accounted_witness:
  "mset [''choke'', ''have''] = mset [''choke''] + mset [''have''] + mset []"
  using tasks_accounted [OF libstdcxx.heap_algorithms_axioms sample_run] by simp

text \<open>C29: stopping ends: once the flag is set, every schedule that lets each worker move twice more leads to a pool whose
  joins return, and no worker waits in between, whatever is still in the queue.\<close>

theorem stop_joins:
  assumes "tq_stop (po_queue p)" and "\<forall>i \<in> set is. i < length (po_workers p)"
    and "\<forall>i < length (po_workers p). 2 \<le> count_list is i"
  shows "\<exists>p'. BP_Join (scheduled pop_heap is p) = Some p' \<and> po_workers p' = []"
proof -
  have "po_workers (scheduled pop_heap is p) ! j = Ended" if "j < length (po_workers (scheduled pop_heap is p))" for j
  proof -
    have "moves_left (po_workers p ! j) \<le> 2" by (cases "po_workers p ! j") simp_all
    then show ?thesis using stopped_moves [OF assms(1,2)] assms(3) that by (metis no_moves_left diff_is_0_eq le_trans)
  qed
  then show ?thesis by (auto simp: BP_Join_def in_set_conv_nth)
qed

theorem stop_joins_witness:
  "\<exists>p'. BP_Join (scheduled std_pop_heap [0, 1, 1, 0]
     \<lparr>po_workers = [Running ''piece'', Idle], po_queue = \<lparr>tq_stop = True, tq_tasks = [\<lparr>ta_priority = 0, ta_job = ''have''\<rparr>]\<rparr>\<rparr>)
       = Some p' \<and> po_workers p' = []"
  by (rule stop_joins) (simp_all add: less_Suc_eq)

text \<open>A heap whose keys are all equal is not a queue: with the algorithms of libstdc++ four waiting messages come out in the order
  first, third, second, fourth, so that a choke may be acted on before the unchoke its peer sent first.\<close>

fun pops :: "nat \<Rightarrow> 'j task_queue \<Rightarrow> 'j list" where
  "pops 0 q = []"
| "pops (Suc n) q = (case TQ_Pop std_pop_heap q of Some (Some job, q) \<Rightarrow> job # pops n q | _ \<Rightarrow> [])"

fun pushes :: "'j list \<Rightarrow> 'j task_queue \<Rightarrow> 'j task_queue option" where
  "pushes [] q = Some q"
| "pushes (job # jobs) q = (case TQ_Push std_push_heap 150 (Some job) q of None \<Rightarrow> None | Some q \<Rightarrow> pushes jobs q)"

theorem TaskQueue_reorders:
  "map_option (pops 4) (pushes [a, b, c, d] TaskQueue) = Some [a, c, b, d]"
  by (simp add: TaskQueue_def TQ_Push_def TQ_Pop_def std_push_heap_def std_pop_heap_def sift_up.simps sift_leaf.simps
      TQComp_def exchange_def Let_def eval_nat_numeral)

end
