(* ===== verification/Connect.thy ===== *)
theory Connect
  imports Local_Bits
begin

text \<open>
  How \<open>PeerManager\<close> gets its peers: \<open>LoadPeerList\<close> opens a non-blocking connection to every address of the
  trackers' answers, \<open>_Connected\<close> waits for them with epoll and starts a thread with \<open>_Verification\<close> for
  each. \<open>bthread_start_urgent\<close> runs the new thread before the caller: the handshake of a socket is one step of
  the loop here. What the kernel does is the record \<open>connecting\<close>, its reports are a list of \<open>waited\<close>.
\<close>

section \<open>The sockets\<close>

record connecting =
  co_socket :: "nat \<Rightarrow> int"
  co_refused :: "int \<Rightarrow> bool"
  co_epoll :: bool
  co_adds :: "int \<Rightarrow> bool"
  co_error :: "int \<Rightarrow> bool"
  co_alloc :: "int \<Rightarrow> bool"
  co_thread :: "int \<Rightarrow> bool"
  co_answer :: "int \<Rightarrow> byte list option"

text \<open>The connections of one answer; \<open>n\<close> counts the calls of \<open>CreateSocket\<close>, which ends the process when it fails.\<close>

fun connect_peers :: "connecting \<Rightarrow> nat \<Rightarrow> (string \<times> string) list \<Rightarrow> client \<Rightarrow> (int list \<times> client) res" where
  "connect_peers co n [] cl = Inr ([], cl)"
| "connect_peers co n (addr # addrs) cl =
     (let socket = co_socket co n
      in if socket = - 1 then Inl Exit
         else if co_refused co socket then connect_peers co (Suc n) addrs (close_fd socket cl)
         else rbind (connect_peers co (Suc n) addrs cl) (\<lambda>(ret, cl). Inr (socket # ret, cl)))"

section \<open>Waiting for the connections\<close>

datatype waited = WaitFailed | Waited "int list"

record conn =
  cn_client :: client
  cn_epoll :: "int list"
  cn_quit :: int
  cn_success :: "int list"

definition epoll_del :: "int \<Rightarrow> conn \<Rightarrow> conn" where
  "epoll_del fd st = st\<lparr>cn_epoll := removeAll fd (cn_epoll st)\<rparr>"

text \<open>One event. Without a \<open>Parameter\<close> the socket stays registered.\<close>

definition conn_event :: "byte list \<Rightarrow> connecting \<Rightarrow> int \<Rightarrow> conn \<Rightarrow> conn res" where
  "conn_event hs_data co fd st =
     (if co_error co fd then Inr (epoll_del fd (st\<lparr>cn_client := close_fd fd (cn_client st)\<rparr>))
      else let st = st\<lparr>cn_client := send_to fd hs_data (cn_client st)\<rparr>
           in if \<not> co_alloc co fd then Inr st
              else if \<not> co_thread co fd then Inr (epoll_del fd st)
              else rbind (Verification hs_data fd (co_answer co fd) (cn_client st)) (\<lambda>cl.
                     Inr (epoll_del fd (st\<lparr>cn_client := cl, cn_success := cn_success st @ [fd]\<rparr>))))"

fun conn_events :: "byte list \<Rightarrow> connecting \<Rightarrow> int list \<Rightarrow> conn \<Rightarrow> conn res" where
  "conn_events hs_data co [] st = Inr st"
| "conn_events hs_data co (fd # events) st = rbind (conn_event hs_data co fd st) (conn_events hs_data co events)"

definition MAX_EVENTS :: nat where
  "MAX_EVENTS = 25"

text \<open>\<open>epoll_wait\<close> reports registered sockets, each once; none is the time out. Its failure ends the process.\<close>

definition reported :: "int list \<Rightarrow> conn \<Rightarrow> int list" where
  "reported fds st = take MAX_EVENTS (remdups (filter (\<lambda>fd. fd \<in> set (cn_epoll st)) fds))"

fun conn_loop :: "byte list \<Rightarrow> connecting \<Rightarrow> waited list \<Rightarrow> conn \<Rightarrow> conn res" where
  "conn_loop hs_data co [] st = (if cn_quit st \<le> 0 then Inr st else Inl Fuel)"
| "conn_loop hs_data co (w # ws) st =
     (if cn_quit st \<le> 0 then Inr st
      else case w of WaitFailed \<Rightarrow> Inl Exit
        | Waited fds \<Rightarrow>
            let events = reported fds st
            in if events = [] then Inr st
               else rbind (conn_events hs_data co events (st\<lparr>cn_quit := cn_quit st - int (length events)\<rparr>))
                      (conn_loop hs_data co ws))"

definition Connected :: "byte list \<Rightarrow> connecting \<Rightarrow> waited list \<Rightarrow> int list \<Rightarrow> client \<Rightarrow> client res" where
  "Connected hs_data co ws T_ret cl =
     (if T_ret = [] then Inr cl
      else if \<not> co_epoll co then Inr cl
      else let added = filter (\<lambda>val. 0 \<le> val \<and> co_adds co val) T_ret
           in rbind (conn_loop hs_data co ws \<lparr>cn_client = cl, cn_epoll = added, cn_quit = int (length added), cn_success = []\<rparr>) (\<lambda>st.
                Inr (fold close_fd (filter (\<lambda>val. val \<notin> set (cn_success st)) T_ret) (cn_client st))))"

text \<open>The answers, each with what the kernel does for its addresses.\<close>

fun PM_LoadPeerList :: "byte list \<Rightarrow> (string \<times> connecting \<times> waited list) list \<Rightarrow> client \<Rightarrow> client res" where
  "PM_LoadPeerList hs_data [] cl = Inr cl"
| "PM_LoadPeerList hs_data ((val, co, ws) # T_socket_list) cl =
     rbind (LoadPeerList val) (\<lambda>addrs.
     rbind (connect_peers co 0 addrs cl) (\<lambda>(ret, cl).
     rbind (Connected hs_data co ws ret cl) (PM_LoadPeerList hs_data T_socket_list)))"

section \<open>Lemmas\<close>

text \<open>An answer \<open>_Verification\<close> accepts.\<close>

definition greets :: "byte list \<Rightarrow> connecting \<Rightarrow> int \<Rightarrow> bool" where
  "greets hs co s \<longleftrightarrow> \<not> co_error co s \<and>
     (\<exists>p. co_answer co s = Some p \<and> length p = 68 \<and> HandShake_Varification (Some p) hs = Inr True)"

lemma coherent_logs: "coherent (send_to s bs cl) = coherent cl" "coherent (close_fd s cl) = coherent cl"
  unfolding send_to_def close_fd_def by (rule coherent_frame; simp)+

lemma send_to_kept [simp]:
  "coherent (send_to s bs cl) = coherent cl" "peers (send_to s bs cl) = peers cl"
  "cl_closed (send_to s bs cl) = cl_closed cl" "cl_peers (send_to s bs cl) = cl_peers cl"
  by (simp_all add: coherent_logs)

lemma close_fd_kept [simp]:
  "coherent (close_fd s cl) = coherent cl" "peers (close_fd s cl) = peers cl"
  "cl_closed (close_fd s cl) = cl_closed cl @ [s]" "cl_peers (close_fd s cl) = cl_peers cl"
  by (simp_all add: coherent_logs)

lemma fold_close_fd:
  "cl_closed (fold close_fd ss cl) = cl_closed cl @ ss" "coherent (fold close_fd ss cl) = coherent cl"
  "peers (fold close_fd ss cl) = peers cl"
  by (induction ss arbitrary: cl) simp_all

lemma AddSocket_closed [simp]: "cl_closed (PM_AddSocket s cl) = cl_closed cl"
  by (auto simp: PM_AddSocket_def Let_def split: option.split)

lemma Verification_effect:
  assumes "coherent cl" and "peers cl s = None" and "0 \<le> s" and "pm_cur_id (cl_peers cl) < 2147483647"
    and "Verification hs s (co_answer co s) cl = Inr cl'" and "\<not> co_error co s"
  shows "coherent cl'"
    and "greets hs co s \<Longrightarrow> cl_closed cl' = cl_closed cl \<and> dom (peers cl') = insert s (dom (peers cl))
      \<and> pm_cur_id (cl_peers cl') = pm_cur_id (cl_peers cl) + 1"
    and "\<not> greets hs co s \<Longrightarrow> cl_closed cl' = cl_closed cl @ [s] \<and> dom (peers cl') = dom (peers cl)
      \<and> pm_cur_id (cl_peers cl') = pm_cur_id (cl_peers cl)"
proof -
  let ?cl = "send_to s (bf_data (cl_bits cl)) cl"
  have a: "coherent (PM_AddSocket s ?cl)" "pm_cur_id (cl_peers (PM_AddSocket s ?cl)) = pm_cur_id (cl_peers cl) + 1"
    "peers (PM_AddSocket s ?cl) = (peers cl)(s \<mapsto> PeerEntry\<lparr>pe_id := pm_cur_id (cl_peers cl)\<rparr>)"
    using coherent_AddSocket [of ?cl s] assms(1-4) by simp_all
  have "(greets hs co s \<and> cl' = PM_AddSocket s ?cl) \<or> (\<not> greets hs co s \<and> cl' = close_fd s cl)"
    using assms(3,5,6) by (auto simp: Verification_def greets_def rbind_Inr_iff split: option.splits if_splits)
  then show "coherent cl'"
    and "greets hs co s \<Longrightarrow> cl_closed cl' = cl_closed cl \<and> dom (peers cl') = insert s (dom (peers cl))
      \<and> pm_cur_id (cl_peers cl') = pm_cur_id (cl_peers cl) + 1"
    and "\<not> greets hs co s \<Longrightarrow> cl_closed cl' = cl_closed cl @ [s] \<and> dom (peers cl') = dom (peers cl)
      \<and> pm_cur_id (cl_peers cl') = pm_cur_id (cl_peers cl)"
    using a assms(1) by auto
qed

definition sorted_out :: "int list \<Rightarrow> int list \<Rightarrow> int list \<Rightarrow> int list \<Rightarrow> int list \<Rightarrow> bool" where
  "sorted_out T_ret joined failed rejected watched \<longleftrightarrow>
     distinct (joined @ failed @ rejected @ watched) \<and> set (joined @ failed @ rejected @ watched) \<subseteq> set T_ret"

lemma sorted_out_move:
  assumes "sorted_out ts j f r w" and "s \<in> set w"
  shows "sorted_out ts (s # j) f r (removeAll s w)" "sorted_out ts j (s # f) r (removeAll s w)"
    "sorted_out ts j f (s # r) (removeAll s w)" "sorted_out ts j f r (removeAll s w)"
    "s \<notin> set j \<union> set f \<union> set r" "s \<in> set ts"
  using assms by (auto simp: sorted_out_def distinct_removeAll)

text \<open>
  What has become of the sockets: those that are peers now, those closed for an error, those whose handshake
  failed, and those epoll still watches.
\<close>

definition settled :: "byte list \<Rightarrow> connecting \<Rightarrow> int list \<Rightarrow> client \<Rightarrow> conn \<Rightarrow> int list \<Rightarrow> int list \<Rightarrow> int list \<Rightarrow> bool" where
  "settled hs co T_ret cl0 st joined failed rejected \<longleftrightarrow>
     coherent (cn_client st)
     \<and> sorted_out T_ret joined failed rejected (cn_epoll st)
     \<and> set (cn_success st) = set joined \<union> set rejected
     \<and> mset (cl_closed (cn_client st)) = mset (cl_closed cl0) + mset failed + mset rejected
     \<and> dom (peers (cn_client st)) = dom (peers cl0) \<union> set joined
     \<and> pm_cur_id (cl_peers (cn_client st)) = pm_cur_id (cl_peers cl0) + int (length joined)
     \<and> (\<forall>s \<in> set joined. greets hs co s) \<and> (\<forall>s \<in> set failed. co_error co s) \<and> (\<forall>s \<in> set rejected. \<not> greets hs co s)
     \<and> (\<forall>s \<in> set T_ret. co_adds co s \<longrightarrow> co_error co s \<longrightarrow> s \<in> set failed \<union> set (cn_epoll st))"

text \<open>The sockets \<open>_Connected\<close> may be given: new ones, and not too many.\<close>

definition fresh_sockets :: "int list \<Rightarrow> client \<Rightarrow> bool" where
  "fresh_sockets T_ret cl \<longleftrightarrow> distinct T_ret \<and> (\<forall>s \<in> set T_ret. 0 \<le> s \<and> peers cl s = None)
     \<and> pm_cur_id (cl_peers cl) + int (length T_ret) < 2147483648"

lemma settled_room:
  assumes "fresh_sockets T_ret cl0" and "settled hs co T_ret cl0 st joined failed rejected" and "fd \<in> set (cn_epoll st)"
  shows "pm_cur_id (cl_peers (cn_client st)) < 2147483647" "peers (cn_client st) fd = None" "0 \<le> fd"
proof -
  have o: "sorted_out T_ret joined failed rejected (cn_epoll st)" using assms(2) by (simp add: settled_def)
  note m = sorted_out_move(5,6) [OF o assms(3)]
  have "set (fd # joined) \<subseteq> set T_ret" "distinct (fd # joined)" using o m by (auto simp: sorted_out_def)
  then have "length (fd # joined) \<le> length T_ret" by (metis card_mono distinct_card List.finite_set card_length le_trans)
  then show "pm_cur_id (cl_peers (cn_client st)) < 2147483647" using assms(1,2) by (simp add: settled_def fresh_sockets_def)
  have p: "dom (peers (cn_client st)) = dom (peers cl0) \<union> set joined" using assms(2) by (simp add: settled_def)
  have "fd \<notin> dom (peers (cn_client st))" unfolding p using assms(1) m by (auto simp: fresh_sockets_def)
  then show "peers (cn_client st) fd = None" by (simp add: domIff)
  show "0 \<le> fd" using assms(1) m by (simp add: fresh_sockets_def)
qed

lemma conn_event_settled:
  assumes "fresh_sockets T_ret cl0" and "settled hs co T_ret cl0 st joined failed rejected" and "fd \<in> set (cn_epoll st)"
    and "conn_event hs co fd st = Inr st'"
  shows "\<exists>joined failed rejected. settled hs co T_ret cl0 st' joined failed rejected"
proof -
  note r = settled_room [OF assms(1-3)]
  note s = assms(2) [unfolded settled_def]
  note o = sorted_out_move(1-4) [OF _ assms(3), of T_ret joined failed rejected]
  show ?thesis
  proof (cases "co_error co fd")
    case True
    then have st': "st' = epoll_del fd (st\<lparr>cn_client := close_fd fd (cn_client st)\<rparr>)"
      using assms(4) by (simp add: conn_event_def)
    have "settled hs co T_ret cl0 st' joined (fd # failed) rejected"
      using s o(2) True by (simp add: settled_def st' epoll_del_def) blast
    then show ?thesis by blast
  next
    case ok: False
    let ?cl = "send_to fd hs (cn_client st)"
    show ?thesis
    proof (cases "co_alloc co fd \<and> co_thread co fd")
      case False
      then have "st' = st\<lparr>cn_client := ?cl\<rparr> \<or> st' = epoll_del fd (st\<lparr>cn_client := ?cl\<rparr>)"
        using assms(4) ok by (auto simp: conn_event_def Let_def split: if_splits)
      then have "settled hs co T_ret cl0 st' joined failed rejected"
        using s o(4) ok by (elim disjE) (simp add: settled_def epoll_del_def, simp add: settled_def epoll_del_def, blast)
      then show ?thesis by blast
    next
      case True
      then obtain cl where v: "Verification hs fd (co_answer co fd) ?cl = Inr cl"
        and st': "st' = epoll_del fd (st\<lparr>cn_client := cl, cn_success := cn_success st @ [fd]\<rparr>)"
        using assms(4) ok by (auto simp: conn_event_def Let_def rbind_Inr_iff)
      note ve = Verification_effect [of ?cl fd hs co cl, OF _ _ r(3) _ v ok]
      have c: "coherent ?cl" "peers ?cl fd = None" "pm_cur_id (cl_peers ?cl) < 2147483647" using s r by simp_all
      have "settled hs co T_ret cl0 st' (fd # joined) failed rejected" if "greets hs co fd"
        using ve(1,2) [OF c] s o(1) that ok by (simp add: settled_def st' epoll_del_def) blast
      moreover have "settled hs co T_ret cl0 st' joined failed (fd # rejected)" if "\<not> greets hs co fd"
        using ve(1,3) [OF c] s o(3) that ok by (simp add: settled_def st' epoll_del_def) blast
      ultimately show ?thesis by blast
    qed
  qed
qed

lemma conn_event_watched:
  "conn_event hs co fd st = Inr st' \<Longrightarrow> set (cn_epoll st) - {fd} \<subseteq> set (cn_epoll st')"
  "conn_event hs co fd st = Inr st' \<Longrightarrow> co_alloc co fd \<Longrightarrow> cn_epoll st' = removeAll fd (cn_epoll st)"
  by (auto simp: conn_event_def epoll_del_def Let_def rbind_Inr_iff split: if_splits)

lemma conn_events_settled:
  assumes "fresh_sockets T_ret cl0" and "settled hs co T_ret cl0 st joined failed rejected" and "distinct events"
    and "set events \<subseteq> set (cn_epoll st)" and "conn_events hs co events st = Inr st'"
  shows "\<exists>joined failed rejected. settled hs co T_ret cl0 st' joined failed rejected"
  using assms(2-)
proof (induction events arbitrary: st joined failed rejected)
  case (Cons fd events)
  obtain st1 where e: "conn_event hs co fd st = Inr st1" "conn_events hs co events st1 = Inr st'"
    using Cons.prems(4) by (auto simp: rbind_Inr_iff)
  obtain j f r where s: "settled hs co T_ret cl0 st1 j f r"
    using conn_event_settled [OF assms(1) Cons.prems(1) _ e(1)] Cons.prems(3) by auto
  have "set events \<subseteq> set (cn_epoll st1)" using conn_event_watched(1) [OF e(1)] Cons.prems(2,3) by auto
  then show ?case using Cons.IH [OF s _ _ e(2)] Cons.prems(2) by simp
qed auto

lemma reported_ok: "distinct (reported fds st)" "set (reported fds st) \<subseteq> set (cn_epoll st)"
  using set_take_subset [of MAX_EVENTS "remdups (filter (\<lambda>fd. fd \<in> set (cn_epoll st)) fds)"]
  by (auto simp: reported_def)

lemma settled_quit: "settled hs co T_ret cl0 (st\<lparr>cn_quit := q\<rparr>) j f r = settled hs co T_ret cl0 st j f r"
  by (simp add: settled_def)

lemma conn_loop_settled:
  assumes "fresh_sockets T_ret cl0" and "settled hs co T_ret cl0 st joined failed rejected" and "conn_loop hs co ws st = Inr st'"
  shows "\<exists>joined failed rejected. settled hs co T_ret cl0 st' joined failed rejected"
  using assms(2-)
proof (induction ws arbitrary: st joined failed rejected)
  case (Cons w ws)
  show ?case
  proof (cases "st' = st")
    case False
    then obtain fds st1 where e: "conn_events hs co (reported fds st) (st\<lparr>cn_quit := cn_quit st - int (length (reported fds st))\<rparr>) = Inr st1"
      "conn_loop hs co ws st1 = Inr st'"
      using Cons.prems(2) by (auto simp: rbind_Inr_iff Let_def split: if_splits waited.splits)
    obtain j f r where "settled hs co T_ret cl0 st1 j f r"
      using conn_events_settled [OF assms(1) _ reported_ok(1) _ e(1), of joined failed rejected] Cons.prems(1) reported_ok(2) [of fds st]
      by (auto simp: settled_quit)
    then show ?thesis using Cons.IH e(2) by blast
  qed (use Cons.prems in blast)
qed (auto split: if_splits)

lemma settled_start:
  assumes "coherent cl" and "fresh_sockets T_ret cl"
  shows "settled hs co T_ret cl \<lparr>cn_client = cl, cn_epoll = filter (\<lambda>val. 0 \<le> val \<and> co_adds co val) T_ret, cn_quit = q, cn_success = []\<rparr> [] [] []"
  using assms by (simp add: settled_def sorted_out_def fresh_sockets_def)

lemma rest_closed:
  assumes "distinct ts" and "distinct (j @ r)" and "set (j @ r) \<subseteq> set ts"
  shows "mset (filter (\<lambda>s. s \<notin> set j \<union> set r) ts) + mset r = mset ts - mset j"
proof -
  have "mset (filter (\<lambda>s. s \<in> set (j @ r)) ts) = mset (j @ r)"
    using assms by (intro iffD1 [OF set_eq_iff_mset_eq_distinct]) auto
  moreover have "mset ts = mset (filter (\<lambda>s. s \<in> set (j @ r)) ts) + mset (filter (\<lambda>s. s \<notin> set (j @ r)) ts)"
    unfolding mset_filter by (rule multiset_partition)
  ultimately have "mset ts = mset j + mset r + mset (filter (\<lambda>s. s \<notin> set j \<union> set r) ts)"
    by (simp only: set_append mset_append)
  then show ?thesis by (metis add.assoc add.commute add_diff_cancel_left')
qed

lemma settled_end:
  assumes "fresh_sockets T_ret cl0" and "settled hs co T_ret cl0 st joined failed rejected"
    and "cl' = fold close_fd (filter (\<lambda>val. val \<notin> set (cn_success st)) T_ret) (cn_client st)"
  shows "coherent cl' \<and> dom (peers cl') = dom (peers cl0) \<union> set joined
    \<and> mset (cl_closed cl') = mset (cl_closed cl0) + (mset T_ret - mset joined) + mset failed"
proof -
  note s = assms(2) [unfolded settled_def]
  have "distinct (joined @ rejected)" "set (joined @ rejected) \<subseteq> set T_ret" using s by (auto simp: sorted_out_def)
  from rest_closed [OF _ this] have "mset (filter (\<lambda>val. val \<notin> set (cn_success st)) T_ret) + mset rejected = mset T_ret - mset joined"
    using assms(1) s by (simp add: fresh_sockets_def)
  then have "mset (cl_closed cl') = mset (cl_closed cl0) + mset failed + (mset T_ret - mset joined)"
    using s unfolding assms(3) fold_close_fd(1) by (simp add: ac_simps)
  then show ?thesis using s by (simp add: assms(3) fold_close_fd ac_simps)
qed

text \<open>A round in which every socket is reported.\<close>

lemma conn_event_returns: "\<exists>st'. conn_event hs co fd st = Inr st'"
  by (auto simp: conn_event_def Let_def Verification_def HandShake_Varification_def split: option.split)

lemma conn_events_return:
  assumes "\<forall>fd \<in> set events. co_alloc co fd"
  shows "\<exists>st'. conn_events hs co events st = Inr st' \<and> cn_epoll st' = filter (\<lambda>fd. fd \<notin> set events) (cn_epoll st) \<and> cn_quit st' = cn_quit st"
  using assms
proof (induction events arbitrary: st)
  case (Cons fd events)
  obtain st1 where e: "conn_event hs co fd st = Inr st1" using conn_event_returns by blast
  have "cn_epoll st1 = removeAll fd (cn_epoll st)" using conn_event_watched(2) [OF e] Cons.prems by simp
  moreover have "cn_quit st1 = cn_quit st"
    using e by (auto simp: conn_event_def epoll_del_def Let_def rbind_Inr_iff split: if_splits)
  moreover obtain st2 where "conn_events hs co events st1 = Inr st2 \<and> cn_epoll st2 = filter (\<lambda>fd. fd \<notin> set events) (cn_epoll st1)
      \<and> cn_quit st2 = cn_quit st1"
    using Cons by fastforce
  ultimately show ?case using e by (auto simp: removeAll_filter_not_eq intro!: filter_cong)
qed simp

lemma all_reported:
  assumes "distinct (cn_epoll st)" and "length (cn_epoll st) \<le> MAX_EVENTS"
  shows "reported (cn_epoll st) st = cn_epoll st"
  using assms by (simp add: reported_def distinct_remdups_id)

lemma Connected_settles:
  assumes "coherent cl" and "fresh_sockets T_ret cl" and "co_epoll co" and "Connected hs co ws T_ret cl = Inr cl'"
  shows "\<exists>joined failed. coherent cl' \<and> dom (peers cl') = dom (peers cl) \<union> set joined
    \<and> mset (cl_closed cl') = mset (cl_closed cl) + (mset T_ret - mset joined) + mset failed
    \<and> distinct failed \<and> set joined \<subseteq> {s \<in> set T_ret. greets hs co s} \<and> set failed \<subseteq> {s \<in> set T_ret. co_error co s}"
proof (cases "T_ret = []")
  case True
  then show ?thesis using assms by (intro exI [of _ "[]"]) (simp add: Connected_def)
next
  case False
  then obtain st where st: "conn_loop hs co ws \<lparr>cn_client = cl, cn_epoll = filter (\<lambda>val. 0 \<le> val \<and> co_adds co val) T_ret,
      cn_quit = int (length (filter (\<lambda>val. 0 \<le> val \<and> co_adds co val) T_ret)), cn_success = []\<rparr> = Inr st"
    "cl' = fold close_fd (filter (\<lambda>val. val \<notin> set (cn_success st)) T_ret) (cn_client st)"
    using assms(3,4) by (auto simp: Connected_def rbind_Inr_iff Let_def)
  obtain j f r where s: "settled hs co T_ret cl st j f r"
    using conn_loop_settled [OF assms(2) settled_start [OF assms(1,2)] st(1)] by blast
  have "distinct f" "set j \<subseteq> {s \<in> set T_ret. greets hs co s}" "set f \<subseteq> {s \<in> set T_ret. co_error co s}"
    using s by (auto simp: settled_def sorted_out_def)
  then show ?thesis using settled_end [OF assms(2) s st(2)] by blast
qed

section \<open>Properties\<close>


definition sample_connecting :: connecting where
  "sample_connecting = \<lparr>co_socket = (\<lambda>n. 10 + int n), co_refused = (\<lambda>_. False), co_epoll = True, co_adds = (\<lambda>_. True),
     co_error = (\<lambda>fd. fd = 11), co_alloc = (\<lambda>_. True), co_thread = (\<lambda>_. True), co_answer = (\<lambda>_. Some (replicate 68 19))\<rparr>"

lemma sample_fresh: "coherent (new_client 0)" "fresh_sockets [10, 11] (new_client 0)"
  by (simp_all add: coherent_new) (simp add: fresh_sockets_def peers_def new_client_def PeerManager_def)

lemma sample_connected:
  "\<exists>cl'. Connected (replicate 68 19) sample_connecting [Waited [10, 11]] [10, 11] (new_client 0) = Inr cl'"
  by (simp add: Connected_def sample_connecting_def reported_def MAX_EVENTS_def conn_event_def epoll_del_def Verification_def
      HandShake_Varification_def first_zero_replicate Let_def)


text \<open>A peer that refuses the connection costs two calls of \<open>close\<close>: the loop closes its socket, and so does the clearing up
  behind the loop, by which time the number may belong to another connection.\<close>

theorem Connected_closes_twice:
  assumes "coherent cl" and "fresh_sockets T_ret cl" and "co_epoll co" and "length T_ret \<le> MAX_EVENTS"
    and "\<forall>s \<in> set T_ret. co_adds co s \<and> co_alloc co s" and "s \<in> set T_ret" and "co_error co s"
  shows "\<exists>cl'. Connected hs co [Waited T_ret] T_ret cl = Inr cl' \<and> count (mset (cl_closed cl')) s = count (mset (cl_closed cl)) s + 2"
proof -
  have added: "filter (\<lambda>val. 0 \<le> val \<and> co_adds co val) T_ret = T_ret"
    using assms(2,5) by (simp add: fresh_sockets_def)
  let ?st = "\<lambda>q. \<lparr>cn_client = cl, cn_epoll = T_ret, cn_quit = q, cn_success = []\<rparr>"
  have start: "settled hs co T_ret cl (?st 0) [] [] []" using settled_start [OF assms(1,2), of hs co 0] by (simp only: added)
  obtain st where st: "conn_events hs co T_ret (?st 0) = Inr st" "cn_epoll st = []" "cn_quit st = 0"
    using conn_events_return [of T_ret co hs "?st 0"] assms(5) by auto
  obtain j f r where s: "settled hs co T_ret cl st j f r"
    using conn_events_settled [OF assms(2) start _ _ st(1)] assms(2) by (auto simp: fresh_sockets_def)
  have "reported T_ret (?st (int (length T_ret))) = T_ret"
    using all_reported [of "?st (int (length T_ret))"] assms(2,4) by (simp add: fresh_sockets_def)
  then have "conn_loop hs co [Waited T_ret] (?st (int (length T_ret))) = Inr st"
    using assms(6) st by auto
  then have c: "Connected hs co [Waited T_ret] T_ret cl = Inr (fold close_fd (filter (\<lambda>val. val \<notin> set (cn_success st)) T_ret) (cn_client st))"
    using assms(3,6) by (auto simp: Connected_def added)
  have n: "s \<in> set f" "distinct f" "s \<notin> set j" "distinct T_ret"
    using s st(2) assms(2,5-7) by (auto simp: settled_def sorted_out_def greets_def fresh_sockets_def)
  have z: "count (mset j) s = 0" using n(3) by (simp add: count_mset_0_iff)
  have o: "count (mset T_ret) s = 1" "count (mset f) s = 1"
    using n assms(6) by (simp_all add: distinct_count_atmost_1)
  have "count (mset T_ret - mset j) s = 1" by (simp only: count_diff z o diff_zero)
  then show ?thesis using c settled_end [OF assms(2) s refl] o(2) by simp
qed

theorem Connected_closes_twice_witness:
  "\<exists>cl'. Connected (replicate 68 19) sample_connecting [Waited [10, 11]] [10, 11] (new_client 0) = Inr cl'
    \<and> count (mset (cl_closed cl')) 11 = count (mset (cl_closed (new_client 0))) 11 + 2"
  by (rule Connected_closes_twice [OF sample_fresh]) (simp_all add: sample_connecting_def MAX_EVENTS_def)

end
