(* ===== verification/Client_Run.thy ===== *)
theory Client_Run
  imports Connect Select_Switch
begin

text \<open>
  The running client: the loop of \<open>SelectSwitch::operator()\<close> around the dispatch, and with it the workers that
  take the handlers' tasks in any order, the two timers and the arrival of new peers, as one step relation.
  The theorems carry the agreement of the flags from single operations to this program, and show where it is
  lost: a slice that is handled after its connection was closed.
\<close>

section \<open>The loop of the dispatch\<close>

datatype polled = EpollFailed | PollFailed | Events "(int \<times> frame_in option) list"

text \<open>
  One turn: whether the loop goes on, the tasks for the pool and the client. At most 50 of the listed sockets
  are reported; none is the time out.
\<close>

definition switch_once :: "env \<Rightarrow> polled \<Rightarrow> client \<Rightarrow> bool \<times> (int \<times> task) list \<times> client" where
  "switch_once ev p cl =
     (let peer_list = PM_RetSocketList cl
      in if peer_list = [] then (False, [], cl)
         else case p of EpollFailed \<Rightarrow> (False, [], cl) | PollFailed \<Rightarrow> (False, [], cl)
           | Events evs \<Rightarrow>
               let events = take 50 (filter (\<lambda>e. fst e \<in> set peer_list) evs)
               in if events = [] then (\<not> length peer_list < 35, [], cl)
                  else let (ts, cl) = select_round ev events cl in (True, ts, cl))"

section \<open>The client as a step relation\<close>

text \<open>
  A task that carries a slice is served while its connection is in the table and every message can be sent.
\<close>

definition served :: "env \<Rightarrow> int \<Rightarrow> task \<Rightarrow> client \<Rightarrow> bool" where
  "served ev s t cl = (case t of TPiece _ \<Rightarrow> peers cl s \<noteq> None \<and> all_sent ev | _ \<Rightarrow> True)"

type_synonym running = "client \<times> (int \<times> task) list"

inductive run_step :: "world \<Rightarrow> running \<Rightarrow> running \<Rightarrow> bool" for w where
  dispatch: "switch_once ev p cl = (go, ts, cl') \<Longrightarrow> clock_ok ev \<Longrightarrow> run_step w (cl, tasks) (cl', tasks @ ts)"
| work: "\<lbrakk>i < length tasks; tasks ! i = (s, t); clock_ok ev; served ev s t cl; run_task w ev s fs t cl = Inr cl'\<rbrakk>
    \<Longrightarrow> run_step w (cl, tasks) (cl', take i tasks @ drop (Suc i) tasks)"
| optimistic: "run_step w (cl, tasks) (Optimistic ev cl, tasks)"
| speed: "run_step w (cl, tasks) (PM_CalculateSpeed cl, tasks)"
| new_peers: "\<lbrakk>PM_RetSocketSize cl < 50; LoadPeerList answer = Inr addrs; connect_peers co 0 addrs cl = Inr (ret, cl1); fresh_sockets ret cl1;
    Connected hs co ws ret cl1 = Inr cl'\<rbrakk> \<Longrightarrow> run_step w (cl, tasks) (cl', tasks)"

text \<open>
  \<open>main\<close> loads the first list of peers before its loop and asks for more when fewer than 50 are connected; that it stops
  asking once all pieces are there is no condition of the step. The end of \<open>main\<close>, when the pool has stopped:
\<close>

definition main_end :: "client \<times> torrent \<Rightarrow> client \<times> torrent" where
  "main_end = (\<lambda>(cl, t).
     let cl = cl\<lparr>cl_memory := BM_Clear (cl_memory cl)\<rparr>;
         cl = cl\<lparr>cl_need := NP_Clear (cl_need cl)\<rparr>;
         cl = cl\<lparr>cl_speed := DS_Clear (cl_speed cl)\<rparr>
     in (LBF_Clear (PM_Clear cl), Torrent_Clear t))"

section \<open>Lemmas: the handlers\<close>

text \<open>The copies of the flags agree and the same peers are connected.\<close>

definition keeps :: "client \<Rightarrow> client \<Rightarrow> bool" where
  "keeps cl cl' \<longleftrightarrow> coherent cl' \<and> dom (peers cl') = dom (peers cl)"

lemma keeps_refl: "coherent cl \<Longrightarrow> keeps cl cl"
  by (simp add: keeps_def)

lemma keeps_trans: "keeps cl cl' \<Longrightarrow> keeps cl' cl'' \<Longrightarrow> keeps cl cl''"
  by (simp add: keeps_def)

lemma keeps_coherent: "keeps cl cl' \<Longrightarrow> coherent cl'"
  by (simp add: keeps_def)

lemma follows_keeps: "follows cl cl' \<Longrightarrow> keeps cl cl'"
  by (simp add: follows_def keeps_def)

lemma keeps_peer: "keeps cl cl' \<Longrightarrow> peers cl' s \<noteq> None \<longleftrightarrow> peers cl s \<noteq> None"
  unfolding keeps_def dom_def by blast

lemma keeps_expire: "coherent cl \<Longrightarrow> keeps cl (UpdateExpire ev s cl)"
  by (rule follows_keeps [OF follows_expire])

lemma keeps_flag_all: "coherent cl \<Longrightarrow> keeps cl (flag_all x s cl)"
  by (auto simp: keeps_def coherent_flag_all peers_flag_all split: if_splits)

lemma keeps_send: "keeps cl cl' \<Longrightarrow> keeps cl (send_to s m cl')"
  by (simp add: keeps_def)

lemma keeps_need:
  "keeps cl cl' \<Longrightarrow> np_id_lock np = np_id_lock (cl_need cl') \<Longrightarrow> np_id_queue np = np_id_queue (cl_need cl') \<Longrightarrow> keeps cl (cl'\<lparr>cl_need := np\<rparr>)"
  by (simp add: keeps_def coherent_need)

lemma keeps_AmInterested: "coherent cl \<Longrightarrow> keeps cl (PM_AmInterested s cl)"
  by (auto simp: am_ops keeps_refl intro: keeps_send keeps_flag_all split: option.splits)

lemma keeps_SendReq:
  assumes "coherent cl" and "clock_ok ev"
  shows "keeps cl (SendReq ev cl)"
proof -
  obtain i fds np where p: "PopNeed (ev_now ev) (GameEnd (cl_bits cl)) (cl_need cl) = ((i, fds), np)" by (metis surj_pair)
  have f: "np_id_lock np = np_id_lock (cl_need cl)" "np_id_queue np = np_id_queue (cl_need cl)"
    using PopNeed_frame [of "ev_now ev" "GameEnd (cl_bits cl)" "cl_need cl"] by (simp_all add: p)
  have c: "coherent (cl\<lparr>cl_need := np\<rparr>)" using coherent_need [OF assms(1) f] .
  have "dom (peers (SendReq ev cl)) = dom (peers cl)"
    unfolding SendReq_fold [OF p] using send_req_fold [OF c assms(2), of "ReqCleBase_SetParameter i 0 SLICESIZE Request" fds]
    by (auto split: if_splits)
  then show ?thesis using coherent_SendReq [OF assms] by (simp add: keeps_def)
qed

lemma keeps_pr:
  assumes "coherent cl"
  shows "keeps cl (PM_PrChoke s cl)" "keeps cl (PM_PrInterested s cl)" "keeps cl (PM_PrUnInterested s cl)"
    "clock_ok ev \<Longrightarrow> keeps cl (PM_PrUnChoke ev s cl)"
proof -
  show "keeps cl (PM_PrChoke s cl)" "keeps cl (PM_PrInterested s cl)" "keeps cl (PM_PrUnInterested s cl)"
    using keeps_flag_all [OF assms] by (simp_all add: pr_ops [OF assms])
  have "clock_ok ev \<Longrightarrow> keeps (flag_all SetPrUnChoke s cl) (SendReq ev (flag_all SetPrUnChoke s cl))"
    by (rule keeps_SendReq [OF coherent_flag_all [OF assms]])
  then show "clock_ok ev \<Longrightarrow> keeps cl (PM_PrUnChoke ev s cl)"
    using keeps_trans [OF keeps_flag_all [OF assms, of SetPrUnChoke s]] keeps_refl [OF assms] by (simp add: PM_PrUnChoke_eq [OF assms])
qed

lemma keeps_RecvHave: "coherent cl \<Longrightarrow> RecvHave s i cl = Inr cl' \<Longrightarrow> keeps cl cl'"
  by (auto simp: RecvHave_def rbind_Inr_iff Let_def split: if_splits intro!: keeps_refl keeps_need keeps_AmInterested)

lemma keeps_RecvBitField: "coherent cl \<Longrightarrow> RecvBitField s p n cl = Inr cl' \<Longrightarrow> keeps cl cl'"
  by (auto simp: RecvBitField_def rbind_Inr_iff Let_def PushNeed_list_frame split: if_splits option.splits
      intro!: keeps_refl keeps_need keeps_AmInterested)

lemma keeps_SendPiece: "coherent cl \<Longrightarrow> SendPiece rd t s i b n cl = Inr cl' \<Longrightarrow> keeps cl cl'"
  by (auto simp: SendPiece_def rbind_Inr_iff Let_def split: if_splits option.splits intro!: keeps_refl keeps_send)

text \<open>Every handler first notes when the peer was heard of.\<close>

lemma keeps_then: "coherent cl \<Longrightarrow> (\<And>cl'. coherent cl' \<Longrightarrow> keeps cl' (f cl')) \<Longrightarrow> keeps cl (f (UpdateExpire ev s cl))"
  using keeps_expire [of cl ev s] keeps_trans keeps_coherent by blast

lemma keeps_flags:
  assumes "coherent cl"
  shows "keeps cl (DKeepAlive ev s cl)" "keeps cl (DChoke ev s cl)" "clock_ok ev \<Longrightarrow> keeps cl (DUnChoke ev s cl)"
    "keeps cl (DInterested ev s cl)" "keeps cl (DUnInterested ev s cl)" "keeps cl (DCancle ev s cl)" "keeps cl (DPort ev s cl)"
  using keeps_expire [OF assms, of ev s] keeps_pr [OF keeps_coherent [OF keeps_expire [OF assms, of ev s]]]
  by (auto simp: DKeepAlive_def DChoke_def DUnChoke_def DInterested_def DUnInterested_def DCancle_def DPort_def intro: keeps_trans)

lemma keeps_DHave: "coherent cl \<Longrightarrow> DHave ev s buf cl = Inr cl' \<Longrightarrow> keeps cl cl'"
  by (auto simp: DHave_def rbind_Inr_iff Let_def
      intro: keeps_trans [OF keeps_expire keeps_RecvHave [OF keeps_coherent [OF keeps_expire]]])

lemma keeps_DBitField: "coherent cl \<Longrightarrow> DBitField ev s buf cl = Inr cl' \<Longrightarrow> keeps cl cl'"
  by (auto simp: DBitField_def intro: keeps_trans [OF keeps_expire keeps_RecvBitField [OF keeps_coherent [OF keeps_expire]]])

lemma keeps_DRequest: "coherent cl \<Longrightarrow> DRequest rd t ev s buf cl = Inr cl' \<Longrightarrow> keeps cl cl'"
  by (auto simp: DRequest_def rbind_Inr_iff Let_def split: if_splits intro: keeps_expire
      keeps_trans [OF keeps_expire keeps_SendPiece [OF keeps_coherent [OF keeps_expire]]])

lemma keeps_SendHave:
  assumes "coherent cl" and "all_sent ev"
  shows "keeps cl (PM_SendHave ev i cl)"
  using follows_keeps [OF follows_SendHave(1) [OF assms]] keeps_refl [OF assms(1)] by (cases "0 \<le> i") (simp_all add: PM_SendHave_def)

lemma keeps_indexes:
  assumes "keeps cl cl'"
  shows "keeps cl (cl'\<lparr>cl_need := NP_ClearIndex i (cl_need cl')\<rparr>)" "keeps cl (cl'\<lparr>cl_need := UnLockIndex i (cl_need cl')\<rparr>)"
    "keeps cl (cl'\<lparr>cl_need := snd (SetIndexW i (cl_need cl'))\<rparr>)"
  using assms coherent_indexes by (simp_all add: keeps_def)

lemma keeps_Write:
  assumes "coherent cl" and "all_sent ev" and "Client_Write a dk t ev i b p n cl = Inr (r, cl')"
  shows "keeps cl cl'"
proof -
  obtain complete log bm where w: "BM_Write a dk t i b p n (cl_memory cl) = Inr (r, complete, log, bm)"
    using assms(3) by (auto simp: Client_Write_def rbind_Inr_iff Let_def split: if_splits)
  let ?c = "cl\<lparr>cl_memory := bm, cl_written := cl_written cl @ log\<rparr>"
  have k: "keeps cl (PM_SendHave ev i (?c\<lparr>cl_bits := bf\<rparr>))" for bf
    using keeps_SendHave [of "?c\<lparr>cl_bits := bf\<rparr>" ev i] assms(1,2) by (simp add: keeps_def)
  show ?thesis
  proof (cases complete)
    case True
    then obtain bf where "cl' = (let c = PM_SendHave ev i (?c\<lparr>cl_bits := bf\<rparr>) in c\<lparr>cl_need := NP_ClearIndex i (cl_need c)\<rparr>)"
      using assms(3) by (auto simp: Client_Write_def w rbind_Inr_iff LBF_FillBitField_def Let_def)
    then show ?thesis using keeps_indexes(1) [OF k] by (simp add: Let_def)
  qed (use assms w in \<open>auto simp: Client_Write_def keeps_def\<close>)
qed

lemma keeps_total: "coherent cl \<Longrightarrow> peers cl s \<noteq> None \<Longrightarrow> keeps cl (cl\<lparr>cl_speed := AddTotal s n (cl_speed cl)\<rparr>)"
  by (rule follows_keeps [OF follows_total])

lemma keeps_sends: "coherent cl \<Longrightarrow> keeps cl (send_until ev s ms cl)"
proof (induction ms arbitrary: cl)
  case (Cons m ms)
  have "keeps cl (send_to s m cl)" using keeps_send [OF keeps_refl [OF Cons.prems]] .
  then show ?case using Cons.IH [of "send_to s m cl"] Cons.prems by (auto simp: Let_def intro: keeps_trans)
qed (simp add: keeps_refl)

lemma keeps_LockPiece:
  assumes "clock_ok ev" and "all_sent ev"
  shows "coherent cl \<Longrightarrow> peers cl s \<noteq> None \<Longrightarrow> LockPiece w ev s i fs n ret cl = Inr (code, cl') \<Longrightarrow> keeps cl cl'"
proof (induction fs arbitrary: n ret cl)
  case (Cons f fs)
  have go: "keeps cl cl'" if "keeps cl c" "LockPiece w ev s i fs m r c = Inr (code, cl')" for c m r
    using Cons.IH [OF keeps_coherent [OF that(1)] _ that(2)] keeps_peer [OF that(1)] Cons.prems(2) keeps_trans [OF that(1)] by simp
  have total: "keeps cl (c\<lparr>cl_speed := AddTotal s m (cl_speed c)\<rparr>)" if "keeps cl c" for c m
    using keeps_trans [OF that keeps_total [OF keeps_coherent [OF that]]] keeps_peer [OF that] Cons.prems(2) by simp
  note e = keeps_expire [OF Cons.prems(1), of ev s]
  have wr: "keeps cl c" if "Client_Write a dk t ev j b p m (UpdateExpire ev s cl) = Inr (r, c)" for a dk t j b p m r c
    using keeps_trans [OF e keeps_Write [OF keeps_coherent [OF e] assms(2) that]] .
  show ?case
    using Cons.prems(3) keeps_refl [OF Cons.prems(1)]
    by (auto simp: rbind_Inr_iff Let_def split: if_splits option.splits prod.splits)
      (blast intro: go total wr e keeps_flags [OF Cons.prems(1)] assms(1) keeps_DHave [OF Cons.prems(1)]
        keeps_DBitField [OF Cons.prems(1)] keeps_DRequest [OF Cons.prems(1)])+
qed (simp add: keeps_refl)

lemma coherent_give_up:
  "coherent cl \<Longrightarrow> coherent (PM_CloseSocket s (cl\<lparr>cl_need := UnLockIndex i (cl_need cl)\<rparr>))"
  using coherent_CloseSocket coherent_indexes(2) by blast

text \<open>What \<open>DPiece\<close> does once the first slice is written.\<close>

lemma coherent_after_write:
  assumes "keeps cl c" and "peers cl s \<noteq> None" and "clock_ok ev" and "all_sent ev"
    and "(if \<not> ok
          then Inr ((ClearPieceStatus s c)\<lparr>cl_need := UnLockIndex i (cl_need (ClearPieceStatus s c))\<rparr>)
          else if \<not> GetSocketMutex (c\<lparr>cl_speed := AddTotal s m (cl_speed c)\<rparr>) s
          then Inr (PM_CloseSocket s (c\<lparr>cl_speed := AddTotal s m (cl_speed c),
                      cl_need := UnLockIndex i (cl_need (c\<lparr>cl_speed := AddTotal s m (cl_speed c)\<rparr>))\<rparr>))
          else rbind (LockPiece w ev s i fs n 0 (send_until ev s ms (c\<lparr>cl_speed := AddTotal s m (cl_speed c)\<rparr>))) (\<lambda>(code, cl).
                 rbind (if 0 < code then LBF_CheckBitField cl i else Inr False) (\<lambda>complete.
                   if complete then Inr (ClearPieceStatus s cl)
                   else Inr (PM_CloseSocket s (cl\<lparr>cl_need := UnLockIndex i (cl_need cl)\<rparr>))))) = Inr cl'"
  shows "coherent cl'"
proof -
  let ?t = "c\<lparr>cl_speed := AddTotal s m (cl_speed c)\<rparr>"
  have c: "coherent c" "peers c s \<noteq> None" using keeps_coherent [OF assms(1)] keeps_peer [OF assms(1)] assms(2) by simp_all
  have t: "coherent ?t" "peers ?t s \<noteq> None" using keeps_coherent [OF keeps_total [OF c]] c(2) by simp_all
  show ?thesis
  proof (cases "ok \<and> GetSocketMutex ?t s")
    case True
    then obtain code cl2 where l: "LockPiece w ev s i fs n 0 (send_until ev s ms ?t) = Inr (code, cl2)"
      "cl' = ClearPieceStatus s cl2 \<or> cl' = PM_CloseSocket s (cl2\<lparr>cl_need := UnLockIndex i (cl_need cl2)\<rparr>)"
      using assms(5) by (auto simp: rbind_Inr_iff split: if_splits)
    note k = keeps_sends [OF t(1), of ev s ms]
    have "coherent cl2"
      using keeps_coherent [OF keeps_LockPiece [OF assms(3,4) keeps_coherent [OF k] _ l(1)]] keeps_peer [OF k] t(2) by simp
    then show ?thesis using l(2) coherent_give_up coherent_ClearPieceStatus by blast
  next
    case False
    then show ?thesis
      using assms(5) coherent_give_up [OF t(1), of s i] coherent_indexes(2) [OF coherent_ClearPieceStatus [OF c(1)]] by (auto split: if_splits)
  qed
qed

lemma coherent_DPiece:
  assumes "coherent cl" and "peers cl s \<noteq> None" and "clock_ok ev" and "all_sent ev" and "DPiece w ev s buf fs cl = Inr cl'"
  shows "coherent cl'"
proof -
  let ?e = "UpdateExpire ev s cl"
  note e = keeps_expire [OF assms(1), of ev s]
  have locked: "keeps cl (?e\<lparr>cl_need := np\<rparr>)" if "SetIndexW i (cl_need cl) = (b, np)" for i b np
    using keeps_indexes(3) [OF e, of i] that by simp
  have wr: "keeps cl c" if "SetIndexW i (cl_need cl) = (b, np)" "Client_Write a dk t ev j b' p m (?e\<lparr>cl_need := np\<rparr>) = Inr (r, c)"
    for a dk t j b b' p m r c i np
    using keeps_trans [OF locked [OF that(1)] keeps_Write [OF keeps_coherent [OF locked [OF that(1)]] assms(4) that(2)]] .
  have E: "rbind m f = Inr y \<Longrightarrow> (\<And>x. m = Inr x \<Longrightarrow> f x = Inr y \<Longrightarrow> P) \<Longrightarrow> P" for m and f :: "_ \<Rightarrow> client res" and y P
    by (auto simp: rbind_Inr_iff)
  show ?thesis using assms(5) unfolding DPiece_def Let_def
    by (elim E, simp only: split: if_splits prod.splits, auto simp: rbind_Inr_iff)
      (rule keeps_coherent [OF e]
        | rule coherent_ClearPieceStatus [OF keeps_coherent [OF locked]], assumption
        | rule coherent_after_write [OF wr assms(2-4)], assumption+)+
qed

lemma coherent_run_task:
  assumes "coherent cl" and "clock_ok ev" and "served ev s t cl" and "run_task w ev s fs t cl = Inr cl'"
  shows "coherent cl'"
proof (cases t)
  case (TPiece buf)
  then have "peers cl s \<noteq> None" "all_sent ev" "DPiece w ev s buf fs cl = Inr cl'" using assms(3,4) by (simp_all add: served_def)
  then show ?thesis using coherent_DPiece [OF assms(1) _ assms(2)] by blast
qed (use assms in \<open>auto intro: keeps_coherent keeps_DHave keeps_DBitField keeps_DRequest keeps_flags(6,7)\<close>)

lemma coherent_select_one: "coherent cl \<Longrightarrow> clock_ok ev \<Longrightarrow> coherent (snd (select_one ev s fo cl))"
  using coherent_CloseSocket [of cl s] keeps_coherent [OF keeps_flags(1), of cl ev s] keeps_coherent [OF keeps_flags(2), of cl ev s]
    keeps_coherent [OF keeps_flags(3), of cl ev s] keeps_coherent [OF keeps_flags(4), of cl ev s]
    keeps_coherent [OF keeps_flags(5), of cl ev s] coherent_RecvPiece [of cl s]
  by (auto simp: select_one_def Let_def split: option.split prod.split)

lemma coherent_select_round: "coherent cl \<Longrightarrow> clock_ok ev \<Longrightarrow> coherent (snd (select_round ev evs cl))"
proof (induction evs arbitrary: cl)
  case (Cons e evs)
  obtain s fo where e: "e = (s, fo)" by fastforce
  obtain t cl1 where o: "select_one ev s fo cl = (t, cl1)" by fastforce
  then have "coherent cl1" using coherent_select_one [OF Cons.prems, of s fo] by simp
  then show ?case using Cons.IH [of cl1] Cons.prems(2) o by (auto simp: e split: prod.split)
qed simp

lemma coherent_switch_once: "coherent cl \<Longrightarrow> clock_ok ev \<Longrightarrow> coherent (snd (snd (switch_once ev p cl)))"
  using coherent_select_round [of cl ev] by (auto simp: switch_once_def Let_def split: polled.split prod.split)

lemma connect_peers_coherent: "connect_peers co n addrs cl = Inr (ret, cl') \<Longrightarrow> coherent cl \<Longrightarrow> coherent cl'"
  by (induction co n addrs cl arbitrary: ret cl' rule: connect_peers.induct) (auto simp: Let_def rbind_Inr_iff split: if_splits)

lemma coherent_Connected:
  "coherent cl \<Longrightarrow> fresh_sockets ret cl \<Longrightarrow> Connected hs co ws ret cl = Inr cl' \<Longrightarrow> coherent cl'"
proof (cases "co_epoll co")
  case False
  then show "coherent cl \<Longrightarrow> Connected hs co ws ret cl = Inr cl' \<Longrightarrow> coherent cl'" by (simp add: Connected_def split: if_splits)
qed (use Connected_settles in blast)

lemma coherent_run_step: "run_step w r r' \<Longrightarrow> coherent (fst r) \<Longrightarrow> coherent (fst r')"
proof (induction rule: run_step.induct)
  case (dispatch ev p cl go ts cl' tasks)
  then show ?case using coherent_switch_once [of cl ev p] by simp
next
  case (work i tasks s t ev cl fs cl')
  then show ?case using coherent_run_task [OF _ work(3-5)] by simp
next
  case (new_peers answer addrs co cl ret cl1 hs ws cl' tasks)
  then show ?case using coherent_Connected [OF connect_peers_coherent [OF new_peers(3)] new_peers(4,5)] by simp
qed (simp_all add: coherent_Optimistic coherent_CalculateSpeed)

lemma coherent_runs: "(run_step w)\<^sup>*\<^sup>* r r' \<Longrightarrow> coherent (fst r) \<Longrightarrow> coherent (fst r')"
  by (induction rule: rtranclp_induct) (simp_all add: coherent_run_step)

text \<open>The end closes the connections that are left, and every lock is gone.\<close>

lemma main_end_closes:
  "cl_closed (fst (main_end (cl, t))) = cl_closed cl @ filter (\<lambda>s. 0 \<le> s) (map fst (pm_list (cl_peers cl)))
   \<and> dom (peers (fst (main_end (cl, t)))) = {} \<and> rwlock_wrlock (pm_lock (cl_peers (fst (main_end (cl, t))))) = None"
  by (simp add: main_end_def Let_def LBF_Clear_def PM_Clear_def fold_close_fd peers_def fun_eq_iff rwlock_destroy_def rwlock_wrlock_def)

text \<open>Without peers nothing is listed in \<open>DownSpeed\<close>.\<close>

lemma no_peers_no_speed:
  assumes "coherent cl" and "dom (peers cl) = {}"
  shows "ds_queue (cl_speed cl) = []"
proof (cases "ds_queue (cl_speed cl)")
  case (Cons v q)
  then have "ds_status (cl_speed cl) (de_socket v) \<noteq> None" by (simp add: ds_status_def)
  then have "peers cl (de_socket v) \<noteq> None" using coherentD(6) [OF assms(1)] unfolding agree_def by blast
  then show ?thesis using assms(2) by (auto simp: dom_def)
qed

text \<open>A lock nobody gets any more.\<close>

definition stuck :: "rwlock \<Rightarrow> bool" where
  "stuck l \<longleftrightarrow> rwlock_wrlock l = None \<and> rwlock_rdlock l = None"

lemma AddTotal_empty: "ds_queue ds = [] \<Longrightarrow> ds_lock ds = lock_idle \<Longrightarrow> stuck (ds_lock (AddTotal s n ds)) \<and> ds_queue (AddTotal s n ds) = []"
  by (simp add: AddTotal_def stuck_def rwlock_wrlock_def rwlock_rdlock_def lock_idle_def)

lemma stuck_AddSocket: "stuck (ds_lock (cl_speed cl)) \<Longrightarrow> cl_speed (PM_AddSocket s cl) = cl_speed cl"
  by (simp add: PM_AddSocket_def DS_AddSocket_def stuck_def Let_def split: option.split)

lemma CloseSocket_unknown:
  "pm_lock (cl_peers cl) = lock_idle \<Longrightarrow> peers cl s = None \<Longrightarrow> cl_speed (PM_CloseSocket s cl) = cl_speed cl"
  by (simp add: PM_CloseSocket_def peers_def pm_leave_def)

text \<open>Closing a connection forgets the peer, not the piece it was asked for.\<close>

lemma CloseSocket_awaits:
  assumes "awaits w i cl"
  shows "awaits w i (PM_CloseSocket s cl)"
proof -
  have "np_index_queue (NP_ClearSocket d np) = np_index_queue np" for d np
    by (simp add: NP_ClearSocket_def split: option.split)
  then show ?thesis
    using assms np_exec_inv [of "cl_need cl" "OClearSocket d" for d]
    by (auto simp: awaits_def PM_CloseSocket_def pm_leave_def Let_def split: option.split)
qed

definition left_alone :: client where
  "left_alone = PM_CloseSocket 10 (PM_CloseSocket 11 (PM_CloseSocket 12 one_client))"

lemma left_alone: "coherent left_alone" "awaits one_world 0 left_alone" "dom (peers left_alone) = {}"
proof -
  have c: "coherent one_client" "awaits one_world 0 one_client" using expectsD [OF one_client_expects] .
  have p: "peers one_client = peers three_peers" by (simp add: one_client_def)
  note close = coherent_CloseSocket [THEN conjunct1] coherent_CloseSocket [THEN conjunct2, THEN conjunct1]
  show "coherent left_alone" "awaits one_world 0 left_alone"
    using c by (simp_all add: left_alone_def close CloseSocket_awaits)
  show "dom (peers left_alone) = {}"
    using c(1) three_peers_coherent by (auto simp: left_alone_def close p split: if_splits)
qed

section \<open>Properties\<close>



text \<open>C36: a slice handled too late stops the client: when the first slice of a piece is taken up after its connection, the last one,
  was closed, \<open>DPiece\<close> writes it and counts its bytes in \<open>DownSpeed\<close>, which has no entry and returns with the lock held; from
  then on nobody gets this lock, and the next peer is not counted.\<close>

theorem late_slice_locks:
  assumes "good_world w i C" and "2 \<le> pieces_of (int (length C))" and "coherent cl" and "awaits w i cl" and "dom (peers cl) = {}"
  shows "\<exists>cl'. run_task w ev s fs (TPiece (slice_body i C 0)) cl = Inr cl' \<and> stuck (ds_lock (cl_speed cl'))
    \<and> ds_queue (cl_speed (PM_AddSocket s' cl')) = []"
proof -
  obtain np1 where np: "SetIndexW i (cl_need cl) = (True, np1)" "follows cl ((UpdateExpire ev s cl)\<lparr>cl_need := np1\<rparr>)"
    by (rule DPiece_locked [OF assms(1,3,4)])
  obtain log0 bm1 where wr: "BM_Write (wd_alloc w) (wd_disk w) (wd_torrent w) i 0 (Some (piece_slice C 0)) 16384 (cl_memory cl)
      = Inr (True, False, log0, bm1)"
    by (rule first_slice_written [OF assms(1,2,4), of "[1..<pieces_of (int (length C))]"]) auto
  let ?e = "(UpdateExpire ev s cl)\<lparr>cl_need := np1\<rparr>"
  let ?c = "?e\<lparr>cl_memory := bm1, cl_written := cl_written ?e @ log0\<rparr>"
  let ?t = "?c\<lparr>cl_speed := AddTotal s 16384 (cl_speed ?c)\<rparr>"
  have cw: "Client_Write (wd_alloc w) (wd_disk w) (wd_torrent w) ev i 0 (Some (piece_slice C 0)) 16384 ?e = Inr (True, ?c)"
    by (rule Client_Write_part) (simp add: wr)
  have p: "pm_lock (cl_peers ?t) = lock_idle" "peers ?t s = None"
    using coherentD(1) [OF follows_coherent [OF np(2)]] follows_peer [OF np(2), of s] assms(5) by (auto simp: dom_def peers_def)
  then have mx: "\<not> GetSocketMutex ?t s" by (simp add: GetSocketMutex_def peers_def split: option.split)
  have st: "stuck (ds_lock (cl_speed ?t)) \<and> ds_queue (cl_speed ?t) = []"
    using AddTotal_empty [OF no_peers_no_speed [OF assms(3,5)]] coherentD(3) [OF assms(3)] by (simp add: ds_ready_def)
  note sl = slice_ints [OF good_worldD(1) [OF assms(1)], of 0]
  have r: "run_task w ev s fs (TPiece (slice_body i C 0)) cl = Inr (PM_CloseSocket s (?t\<lparr>cl_need := UnLockIndex i (cl_need ?t)\<rparr>))"
    using sl first_slice_check [OF assms(1,2)] good_worldD(2) [OF assms(1)] np(1) cw mx
    by (simp add: DPiece_def Let_def SLICESIZE_def)
  have "cl_speed (PM_CloseSocket s (?t\<lparr>cl_need := UnLockIndex i (cl_need ?t)\<rparr>)) = cl_speed ?t"
    using p by (subst CloseSocket_unknown) (simp_all add: peers_def)
  then show ?thesis using r st stuck_AddSocket by auto
qed

theorem late_slice_locks_witness:
  "\<exists>cl'. run_task one_world quiet 10 [] (TPiece (slice_body 0 (replicate 20000 7) 0)) left_alone = Inr cl'
    \<and> stuck (ds_lock (cl_speed cl')) \<and> ds_queue (cl_speed (PM_AddSocket 13 cl')) = []"
proof -
  have "pieces_of (int (length (replicate 20000 (7 :: byte)))) = 2" by (simp only: length_replicate) (simp add: pieces_of_def)
  then show ?thesis using late_slice_locks [OF one_world_good _ left_alone] by simp
qed

end
