(* ===== verification/Swarm.thy ===== *)
theory Swarm
  imports Select_Switch
begin

text \<open>
  Two clients of this program: a piece that one has and the other asks for. The requests the loader sends are
  dispatched and served by the one, the answers are taken off the connection by the other.
\<close>

section \<open>A connection between two clients\<close>

text \<open>What the dispatch takes off the connection when a message has been sent whole.\<close>

definition message_in :: "byte list \<Rightarrow> frame_in" where
  "message_in m = \<lparr>fi_len = rd32 m, fi_id = Some (m ! 4), fi_data = drop 5 m\<rparr>"

text \<open>The client serves messages from socket \<open>s\<close> one after another: the dispatch and then the task.\<close>

fun serve :: "world \<Rightarrow> env \<Rightarrow> int \<Rightarrow> byte list list \<Rightarrow> client \<Rightarrow> client res" where
  "serve w ev s [] cl = Inr cl"
| "serve w ev s (m # ms) cl =
     (case select_one ev s (Some (message_in m)) cl of
        (None, cl) \<Rightarrow> serve w ev s ms cl
      | (Some t, cl) \<Rightarrow> rbind (run_task w ev s [] t cl) (serve w ev s ms))"

text \<open>A client that has all of the file and serves socket \<open>s\<close> piece \<open>i\<close>.\<close>

definition seeds :: "world \<Rightarrow> byte list \<Rightarrow> int \<Rightarrow> int \<Rightarrow> client \<Rightarrow> bool" where
  "seeds w content s i cl \<longleftrightarrow> on_disk (wd_torrent w) content \<and> wd_files w = whole_file (tf_name (wd_torrent w)) content
     \<and> coherent cl \<and> peers cl s \<noteq> None \<and> bf_inv (cl_bits cl) \<and> has_bit (bits (cl_bits cl)) (nat i) \<and> CheckSocket s (cl_speed cl)"

section \<open>Lemmas\<close>

lemma received_frame:
  assumes "length p < 2147483647"
  shows "message_in (frame k p) = \<lparr>fi_len = 1 + int (length p), fi_id = Some k, fi_data = p\<rparr>"
  using assms by (simp add: message_in_def frame_prefix frame_ident frame_drop i32_id)

lemma request_dispatched:
  "select_one ev s (Some (message_in (frame 6 (be32 i @ be32 b @ be32 l)))) cl = (Some (TRequest (be32 i @ be32 b @ be32 l)), cl)"
  by (simp add: received_frame select_one_def recv_body_def i32_id)

lemma slice_received:
  assumes "small_piece i C"
  shows "message_in (frame 7 (slice_body i C k)) = slice_frame i C k"
proof -
  have "length (slice_body i C k) < 2147483647" by (simp add: slice_body_def piece_slice_def)
  then show ?thesis by (simp add: received_frame slice_frame_def) (simp add: slice_body_def)
qed

text \<open>A piece that is not the last has whole slices only.\<close>

lemma whole_slice:
  assumes "good_world w i C" and "i \<noteq> GetIndexEnd (wd_torrent w)" and "k < pieces_of (int (length C))"
  shows "16384 * k + 16384 \<le> length C" "length (piece_slice C k) = 16384"
proof -
  note d = good_worldD [OF assms(1)]
  have "16384 dvd length C" using d(6) assms(2) by (simp add: mod_0_imp_dvd)
  then obtain q where q: "length C = 16384 * q" by (rule dvdE)
  have "q = pieces_of (int (length C))" using d(4,5) unfolding q by linarith
  then show "16384 * k + 16384 \<le> length C" using assms(3) q by linarith
  then show "length (piece_slice C k) = 16384" by (simp add: length_piece_slice)
qed

definition slice_request :: "int \<Rightarrow> nat \<Rightarrow> byte list" where
  "slice_request i k = frame 6 (be32 i @ be32 (16384 * int k) @ be32 16384)"

lemma upto_nat: "[1..int n - 1] = map int [1..<n]"
  by (induction n) (auto simp: upto_rec2)

lemma slice_requests_eq:
  assumes "good_world w i C" and "i \<noteq> GetIndexEnd (wd_torrent w)"
  shows "slice_requests (wd_torrent w) i = map (slice_request i) [1..<pieces_of (int (length C))]"
proof -
  let ?n = "pieces_of (int (length C))"
  note d = good_worldD [OF assms(1)]
  have "i32 (int k * SLICESIZE) = 16384 * int k" if "k < ?n" for k
    using whole_slice(1) [OF assms that] d(1) by (subst i32_id) (auto simp: SLICESIZE_def small_piece_def BT_size_def)
  then show ?thesis
    using assms(2) by (simp add: upto_nat slice_requests_def Let_def d(3,7) Request_def ReqCleBase_frame slice_request_def SLICESIZE_def comp_def)
qed

lemma seeds_expire: "seeds w content s i cl \<Longrightarrow> seeds w content s i (send_to s m (UpdateExpire ev s cl))"
  using follows_peer [OF follows_expire, of cl s ev s] by (simp add: seeds_def follows_coherent [OF follows_expire])

lemma serve_one:
  assumes "seeds v content s i cl" and "good_world w i C" and "wd_torrent v = wd_torrent w"
    and "C = piece_bytes (wd_torrent w) content i" and "0 \<le> i" and "i < pieces_num (wd_torrent w) - 1" and "k < pieces_of (int (length C))"
  shows "serve v ev s (slice_request i k # ms) cl
    = serve v ev s ms (send_to s (frame 7 (slice_body i C k)) (UpdateExpire ev s cl))"
proof -
  let ?t = "wd_torrent w"
  note h = assms(1) [unfolded seeds_def assms(3)]
  have w: "wf_torrent ?t" using h by (simp add: on_disk_def)
  have e: "i \<noteq> GetIndexEnd ?t" using GetIndexEnd_wf [OF w] assms(6) by simp
  note ws = whole_slice [OF assms(2) e assms(7)]
  have pl: "int (length C) = tf_piece_length ?t"
    using GetPieceLength_wf [OF w assms(5)] assms(2,6) by (simp add: good_world_def Let_def)
  have z: "0 \<le> i * tf_piece_length ?t" using w assms(5) by (simp add: wf_torrent_def)
  have "piece_slice C k = take 16384 (drop (16384 * k) (take (nat (tf_piece_length ?t)) (drop (nat (i * tf_piece_length ?t)) content)))"
    using assms(4,6) GetPieceLength_wf [OF w assms(5)] by (simp add: piece_slice_def piece_bytes_def)
  also have "\<dots> = take 16384 (drop (nat (i * tf_piece_length ?t + 16384 * int k)) content)"
    using ws(1) pl z by (simp add: drop_take nat_add_distrib nat_mult_distrib add.commute)
  finally have ps: "take 16384 (drop (nat (i * tf_piece_length ?t + 16384 * int k)) content) = piece_slice C k" ..
  have "DRequest (wd_files v) ?t ev s (be32 i @ be32 (16384 * int k) @ be32 16384) cl
      = Inr (send_to s (frame 7 (slice_body i C k)) (UpdateExpire ev s cl))"
    using DRequest_answers [of ?t content i "16384 * int k" 16384 cl s ev] h assms(5,6) ws(1) pl ps
    by (simp add: slice_body_def)
  then show ?thesis by (simp add: slice_request_def request_dispatched assms(3))
qed

lemma serve_slices:
  assumes "seeds v content s i cl" and "good_world w i C" and "wd_torrent v = wd_torrent w"
    and "C = piece_bytes (wd_torrent w) content i" and "0 \<le> i" and "i < pieces_num (wd_torrent w) - 1" and "\<forall>k \<in> set ks. k < pieces_of (int (length C))"
  shows "\<exists>cl'. serve v ev s (map (slice_request i) ks) cl = Inr cl' \<and> seeds v content s i cl'
    \<and> cl_sent cl' = cl_sent cl @ map (\<lambda>k. (s, frame 7 (slice_body i C k))) ks"
  using assms(1,7)
proof (induction ks arbitrary: cl)
  case (Cons k ks)
  from serve_one [OF Cons.prems(1) assms(2-6), of k ev "map (slice_request i) ks"]
  show ?case using Cons.IH [OF seeds_expire [OF Cons.prems(1)]] Cons.prems(2) by (fastforce simp: send_to_def)
qed simp

section \<open>Properties\<close>


text \<open>A file of 40000 bytes in pieces of 32768; one client has all of it, the other asks it for piece 0.\<close>

definition shared_torrent :: torrent where
  "shared_torrent = new_torrent\<lparr>tf_pieces := map (\<lambda>b. char_of (unat b)) (fips_sha1 (replicate 32768 7)) @ replicate 20 CHR ''h'',
     tf_name := ''f'', tf_length := 40000, tf_piece_length := 32768\<rparr>"

definition shared_world :: world where
  "shared_world = \<lparr>wd_alloc = blank_alloc, wd_disk = all_disk, wd_files = whole_file ''f'' (replicate 40000 7),
     wd_torrent = shared_torrent\<rparr>"

definition loading_client :: client where
  "loading_client = one_client\<lparr>cl_memory := BitMemory\<lparr>bm_index_end := 1, bm_length_end := 7232, bm_length_normal := 32768\<rparr>\<rparr>"

lemma shared_torrent_wf: "wf_torrent shared_torrent" "pieces_num shared_torrent = 2"
  by (simp_all add: shared_torrent_def wf_torrent_def pieces_num_def pieces_size_def GetFileTotal_def new_torrent_def)

lemma shared_torrent_lengths:
  "GetIndexEnd shared_torrent = 1" "end_length shared_torrent = 7232" "GetIndexNormalLength shared_torrent = 32768"
  "GetPieceLength shared_torrent 0 = 32768" "tf_piece_length shared_torrent = 32768" "tf_name shared_torrent = ''f''"
  using shared_torrent_wf by (simp_all add: GetIndexEnd_wf GetPieceLength_wf end_length_def)
    (simp_all add: shared_torrent_def GetFileTotal_def GetIndexNormalLength_def new_torrent_def i32_def)

lemma shared_good: "good_world shared_world 0 (replicate 32768 7)"
proof -
  have "bytes_of (take 20 (drop (nat (0 * 20)) (tf_pieces shared_torrent))) = fips_sha1 (replicate 32768 7)"
    by (simp add: shared_torrent_def bytes_of_char)
  moreover have "int (length (replicate 32768 (7 :: byte))) = GetPieceLength shared_torrent 0"
    by (simp only: shared_torrent_lengths length_replicate)
  ultimately show ?thesis
    unfolding good_world_def Let_def using shared_torrent_wf
    by (simp add: shared_world_def good_alloc_def blank_alloc_def good_disk_def all_disk_def BT_size_def)
      (simp add: shared_torrent_def new_torrent_def GetFileTotal_def SLICESIZE_def)
qed

lemma loading_client_expects: "expects shared_world 10 0 loading_client"
proof -
  note x = one_client_expects [unfolded expects_def awaits_def]
  have "BM_Init (GetIndexEnd shared_torrent) (GetIndexEndLength shared_torrent) (GetIndexNormalLength shared_torrent) BitMemory
      = Inr (cl_memory loading_client)"
    using shared_torrent_wf
    by (simp add: shared_torrent_lengths GetIndexEndLength_wf BM_Init_def BitMemory_def loading_client_def)
  moreover have "coherent loading_client" using x unfolding loading_client_def by (subst coherent_frame [of _ one_client]) simp_all
  moreover have "tfind (bm_pool (cl_memory loading_client)) 0 = None" by (simp add: loading_client_def BitMemory_def)
  ultimately show ?thesis using x by (auto simp: expects_def awaits_def shared_world_def loading_client_def)
qed


end
