(* ===== verification/Ping.thy ===== *)
theory Ping
  imports Prelude
begin

text \<open>
  \<open>src/Ping\<close>: the echo request (\<open>SendV4\<close>, \<open>SendV6\<close>), the internet checksum (\<open>InCksum\<close>), the difference of two times
  (\<open>TvSub\<close>) and the reading of an answer (\<open>ProcV4\<close>, \<open>ProcV6\<close>). A packet is a list of bytes; the structures of the system's
  headers are read at their offsets on a little-endian machine, a \<open>struct timeval\<close> is two 64 bit integers. Sockets, signals
  and the resolver are parameters or left out; what is printed is the result.
\<close>

section \<open>The checksum\<close>

text \<open>The loop: the sum of the 16 bit words, and of an odd byte at the end.\<close>

fun word_sum :: "byte list \<Rightarrow> 32 word" where
  "word_sum [] = 0"
| "word_sum [b] = ucast b"
| "word_sum (lo # hi # bs) = (ucast lo + push_bit 8 (ucast hi)) + word_sum bs"

definition InCksum :: "byte list \<Rightarrow> 16 word" where
  "InCksum T_data =
     (let sum = word_sum T_data;
          sum = drop_bit 16 sum + and sum 0xFFFF;
          sum = sum + drop_bit 16 sum
      in ucast (not sum))"

section \<open>Times\<close>

record timeval =
  tv_sec :: int
  tv_usec :: int

definition TvSub :: "timeval \<Rightarrow> timeval \<Rightarrow> timeval" where
  "TvSub T_last T_first =
     (let usec = tv_usec T_last - tv_usec T_first
      in if usec < 0 then \<lparr>tv_sec = tv_sec T_last - 1 - tv_sec T_first, tv_usec = usec + 1000000\<rparr>
         else \<lparr>tv_sec = tv_sec T_last - tv_sec T_first, tv_usec = usec\<rparr>)"

section \<open>Packets\<close>

text \<open>Integers in the order of a little-endian machine.\<close>

definition le16 :: "int \<Rightarrow> byte list" where
  "le16 x = [word_of_int x, word_of_int (x div 256)]"

definition rd16 :: "byte list \<Rightarrow> int" where
  "rd16 bs = uint (bs ! 0) + 256 * uint (bs ! 1)"

definition le64 :: "int \<Rightarrow> byte list" where
  "le64 x = map (\<lambda>i. word_of_int (x div 256 ^ i)) [0..<8]"

definition rd64 :: "byte list \<Rightarrow> int" where
  "rd64 bs = (\<Sum>i < 8. uint (bs ! i) * 256 ^ i)"

definition timeval_bytes :: "timeval \<Rightarrow> byte list" where
  "timeval_bytes tv = le64 (tv_sec tv) @ le64 (tv_usec tv)"

definition rd_timeval :: "byte list \<Rightarrow> timeval" where
  "rd_timeval bs = \<lparr>tv_sec = rd64 bs, tv_usec = rd64 (drop 8 bs)\<rparr>"

text \<open>The bytes in front of the data of an echo request: type, code, checksum, id and number.\<close>

definition echo_head :: "byte \<Rightarrow> byte list \<Rightarrow> int \<Rightarrow> int \<Rightarrow> byte list" where
  "echo_head kind cksum pid seq = [kind, 0] @ cksum @ le16 pid @ le16 seq"

definition echo_data :: "nat \<Rightarrow> timeval \<Rightarrow> byte list" where
  "echo_data Data_len tv = timeval_bytes tv @ replicate (Data_len - 16) 0xA5"

text \<open>The packet and the next number. \<open>Data_len\<close> is 56 and has room for the time.\<close>

definition SendV4 :: "int \<Rightarrow> int \<Rightarrow> nat \<Rightarrow> timeval \<Rightarrow> byte list \<times> int" where
  "SendV4 Pid Nsend Data_len tv =
     (let icmp_4 = echo_head 8 [0, 0] Pid Nsend @ echo_data Data_len tv;
          icmp_cksum = le16 (uint (InCksum icmp_4))
      in (echo_head 8 icmp_cksum Pid Nsend @ echo_data Data_len tv, i32 (Nsend + 1)))"

text \<open>The kernel fills in the checksum of ICMPv6.\<close>

definition SendV6 :: "int \<Rightarrow> int \<Rightarrow> nat \<Rightarrow> timeval \<Rightarrow> byte list \<times> int" where
  "SendV6 Pid Nsend Data_len tv = (echo_head 128 [0, 0] Pid Nsend @ echo_data Data_len tv, i32 (Nsend + 1))"

text \<open>What is printed for an answer, and with the option \<open>-v\<close> for another message.\<close>

datatype report = Reply int int int timeval | Other int int int

text \<open>\<open>T_buf\<close> is the receive buffer of 1500 bytes, of which \<open>T_buf_len\<close> were received.\<close>

definition ProcV4 :: "int \<Rightarrow> bool \<Rightarrow> byte list \<Rightarrow> int \<Rightarrow> timeval \<Rightarrow> report option" where
  "ProcV4 Pid Verbose T_buf T_buf_len T_tv_recv =
     (let ip_head_len = uint (and (T_buf ! 0) 0x0F) * 4;
          icmp_4 = drop (nat ip_head_len) T_buf; icmp_len = i32 (T_buf_len - ip_head_len)
      in if T_buf ! 9 \<noteq> 1 then None
         else if icmp_len < 8 then None
         else if icmp_4 ! 0 = 0
         then (if rd16 (drop 4 icmp_4) \<noteq> Pid then None
               else if icmp_len < 16 then None
               else Some (Reply icmp_len (rd16 (drop 6 icmp_4)) (uint (T_buf ! 8)) (TvSub T_tv_recv (rd_timeval (drop 8 icmp_4)))))
         else if Verbose then Some (Other icmp_len (uint (icmp_4 ! 0)) (uint (icmp_4 ! 1)))
         else None)"

text \<open>\<open>hlim\<close> comes with the ancillary data, if at all.\<close>

definition ProcV6 :: "int \<Rightarrow> bool \<Rightarrow> byte list \<Rightarrow> int \<Rightarrow> int option \<Rightarrow> timeval \<Rightarrow> report option" where
  "ProcV6 Pid Verbose T_buf T_buf_len hop_limit T_tv_recv =
     (if T_buf_len < 8 then None
      else if T_buf ! 0 = 129
      then (if rd16 (drop 4 T_buf) \<noteq> Pid then None
            else if T_buf_len < 16 then None
            else Some (Reply T_buf_len (rd16 (drop 6 T_buf)) (case hop_limit of None \<Rightarrow> - 1 | Some h \<Rightarrow> h)
                   (TvSub T_tv_recv (rd_timeval (drop 8 T_buf)))))
      else if Verbose then Some (Other T_buf_len (uint (T_buf ! 0)) (uint (T_buf ! 1)))
      else None)"

section \<open>Lemmas: the checksum\<close>

text \<open>RFC 1071: the sum with end-around carry.\<close>

definition carry_add :: "nat \<Rightarrow> nat \<Rightarrow> nat" where
  "carry_add a b = (let s = a + b in if s < 65536 then s else s - 65535)"

fun words_le :: "byte list \<Rightarrow> nat list" where
  "words_le [] = []"
| "words_le [b] = [unat b]"
| "words_le (lo # hi # bs) = (unat lo + 256 * unat hi) # words_le bs"

definition ones_sum :: "byte list \<Rightarrow> nat" where
  "ones_sum bs = foldr carry_add (words_le bs) 0"

text \<open>The sum with end-around carry is the sum modulo 65535, with 65535 for the multiples that are not 0.\<close>

definition wrap_carry :: "nat \<Rightarrow> nat" where
  "wrap_carry s = (if s = 0 then 0 else (s - 1) mod 65535 + 1)"

lemma byte_less: "unat (b :: byte) < 256"
  using unsigned_less [of b, where 'a = nat] by simp

lemma words_le_bound: "w \<in> set (words_le bs) \<Longrightarrow> w < 65536"
proof (induction bs rule: words_le.induct)
  case (3 lo hi bs)
  have "unat lo < 256" "unat hi < 256" using byte_less [of lo] byte_less [of hi] by simp_all
  then show ?case using 3 by auto
next
  case (2 b)
  then show ?case using byte_less [of b] by simp
qed simp

lemma wrap_carry_less: "wrap_carry s < 65536"
proof -
  have "(s - 1) mod 65535 < 65535" by (rule mod_less_divisor) simp
  then show ?thesis by (simp add: wrap_carry_def)
qed

lemma wrap_carry_small: "s < 65536 \<Longrightarrow> wrap_carry s = s"
  by (simp add: wrap_carry_def)

lemma wrap_carry_reduce: "65536 \<le> s \<Longrightarrow> wrap_carry (s - 65535) = wrap_carry s"
proof -
  assume s: "65536 \<le> s"
  have "s - 1 = (s - 65535 - 1) + 65535" using s by simp
  then have "(s - 1) mod 65535 = (s - 65535 - 1) mod 65535" by (metis mod_add_self2)
  then show ?thesis using s by (simp add: wrap_carry_def)
qed

lemma wrap_carry_mult: "0 < r \<Longrightarrow> wrap_carry (r + 65535 * k) = wrap_carry r"
proof -
  assume r: "0 < r"
  have "r + 65535 * k - 1 = (r - 1) + 65535 * k" using r by simp
  then have "(r + 65535 * k - 1) mod 65535 = (r - 1) mod 65535" by (metis mod_mult_self2)
  then show ?thesis using r by (simp add: wrap_carry_def)
qed

lemma carry_add_wrap:
  assumes "a < 65536"
  shows "carry_add a (wrap_carry s) = wrap_carry (a + s)"
proof (cases "s = 0")
  case True
  then show ?thesis using assms by (simp add: carry_add_def wrap_carry_def)
next
  case False
  define q r where "q = (s - 1) div 65535" and "r = (s - 1) mod 65535 + 1"
  have s: "s = r + 65535 * q" using False div_mult_mod_eq [of "s - 1" 65535] by (simp add: q_def r_def)
  have r: "0 < r" "r < 65536" using mod_less_divisor [of 65535 "s - 1"] by (auto simp: r_def)
  have w: "wrap_carry s = r" using False by (simp add: wrap_carry_def r_def)
  have "wrap_carry (a + s) = wrap_carry (a + r)"
    using wrap_carry_mult [of "a + r" q] r(1) unfolding s by (simp add: add.assoc)
  moreover have "carry_add a r = wrap_carry (a + r)"
    using assms r wrap_carry_small [of "a + r"] wrap_carry_reduce [of "a + r"] wrap_carry_small [of "a + r - 65535"]
    by (auto simp: carry_add_def Let_def)
  ultimately show ?thesis using w by simp
qed

lemma ones_sum_wrap: "ones_sum bs = wrap_carry (sum_list (words_le bs))"
proof -
  have "foldr carry_add ws 0 = wrap_carry (sum_list ws)" if "\<forall>w \<in> set ws. w < 65536" for ws
    using that by (induction ws) (simp_all add: carry_add_wrap wrap_carry_small)
  then show ?thesis using words_le_bound by (simp add: ones_sum_def)
qed

lemma sum_words_bound: "2 * sum_list (words_le bs) \<le> 65535 * (length bs + 1)"
proof (induction bs rule: words_le.induct)
  case (3 lo hi bs)
  have "unat lo + 256 * unat hi < 65536" using words_le_bound [of _ "lo # hi # bs"] by simp
  then show ?case using 3 by simp
next
  case (2 b)
  then show ?case using words_le_bound [of _ "[b]"] by simp
qed simp

lemma unat_wide: "unat (ucast (b :: byte) :: 32 word) = unat b"
  using byte_less [of b] by (simp add: unsigned_ucast_eq take_bit_eq_mod)

lemma word_sum_unat: "length bs < 131070 \<Longrightarrow> unat (word_sum bs) = sum_list (words_le bs)"
proof (induction bs rule: words_le.induct)
  case (3 lo hi bs)
  have "2 * sum_list (words_le (lo # hi # bs)) \<le> 65535 * (length (lo # hi # bs) + 1)" by (rule sum_words_bound)
  also have "\<dots> \<le> 65535 * 131070" using 3(2) by (intro mult_le_mono2) simp
  finally have "sum_list (words_le (lo # hi # bs)) < 4294967296" by simp
  then have b: "unat lo + 256 * unat hi + unat (word_sum bs) < 4294967296" using 3 by simp
  have p: "unat (push_bit 8 (ucast hi) :: 32 word) = 256 * unat hi"
    using byte_less [of hi] by (simp add: push_bit_eq_mult unat_word_ariths unat_wide)
  have "unat (ucast lo + push_bit 8 (ucast hi) :: 32 word) = unat lo + 256 * unat hi"
    using b p by (simp add: unat_word_ariths unat_wide)
  then show ?case using b 3 by (simp add: unat_word_ariths)
qed (simp_all add: unat_wide)

lemma fold_carries:
  fixes n m :: nat
  assumes "n < 4294967296" and "m = n div 65536 + n mod 65536"
  shows "(m + m div 65536) mod 65536 = wrap_carry n" and "m + m div 65536 < 4294967296"
proof -
  have b: "n div 65536 < 65536" "n mod 65536 < 65536" using assms(1) by (simp_all add: div_less_iff_less_mult)
  have n: "n = m + 65535 * (n div 65536)" using div_mult_mod_eq [of n 65536] assms(2) by simp
  show "m + m div 65536 < 4294967296" using b assms(2) by simp
  show "(m + m div 65536) mod 65536 = wrap_carry n"
  proof (cases "m = 0")
    case True
    then show ?thesis using assms(2) by (simp add: wrap_carry_def) (metis div_mult_mod_eq add_is_0 mult_0)
  next
    case False
    then have w: "wrap_carry n = wrap_carry m" using wrap_carry_mult [of m "n div 65536"] n by simp
    show ?thesis
    proof (cases "m < 65536")
      case True
      then show ?thesis by (simp add: w wrap_carry_small)
    next
      case False
      have d: "m div 65536 = 1" "m + 1 - 65536 < 65536" using False b assms(2) by (simp_all add: div_nat_eqI)
      have "m + 1 = (m - 65535) + 65536" using False by simp
      then have "(m + m div 65536) mod 65536 = (m - 65535) mod 65536" unfolding d(1) by (metis mod_add_self2)
      also have "\<dots> = wrap_carry m"
        using False d(2) wrap_carry_reduce [of m] wrap_carry_small [of "m - 65535"] by simp
      finally show ?thesis by (simp add: w)
    qed
  qed
qed

lemma unat_low_not: "unat (ucast (not w) :: 16 word) = 65535 - unat (w :: 32 word) mod 65536"
proof -
  have "(ucast (not w) :: 16 word) = not (ucast w)" by (rule bit_word_eqI) (simp add: bit_simps)
  moreover have "unat (not x) = 65535 - unat x" for x :: "16 word"
  proof -
    have "not x = - 1 - x" by (simp add: not_eq_complement)
    moreover have "x \<le> - 1" by simp
    moreover have "unat (- 1 :: 16 word) = 65535" by (simp add: unsigned_minus_1_eq_mask mask_eq_exp_minus_1)
    ultimately show ?thesis by (simp add: unat_sub)
  qed
  moreover have "unat (ucast w :: 16 word) = unat w mod 65536" by (simp add: unsigned_ucast_eq take_bit_eq_mod)
  ultimately show ?thesis by simp
qed

lemma InCksum_ones:
  assumes "length bs < 131070"
  shows "unat (InCksum bs) = 65535 - ones_sum bs"
proof -
  define s where "s = word_sum bs"
  define n where "n = unat s"
  define m where "m = n div 65536 + n mod 65536"
  have n: "n < 4294967296" using unsigned_less [of s, where 'a = nat] by (simp add: n_def)
  have f: "(m + m div 65536) mod 65536 = wrap_carry n" "m + m div 65536 < 4294967296" using fold_carries [OF n m_def] .
  have "and s 0xFFFF = take_bit 16 s" by (simp add: take_bit_eq_mask mask_eq_exp_minus_1)
  then have "unat (and s 0xFFFF) = take_bit 16 n" by (simp only: n_def unsigned_take_bit_eq)
  then have a: "unat (and s 0xFFFF) = n mod 65536" by (simp add: take_bit_eq_mod)
  have d: "unat (drop_bit 16 w) = unat w div 65536" for w :: "32 word"
    by (simp add: unat_drop_bit_eq drop_bit_eq_div [where 'a = nat])
  have u: "unat (drop_bit 16 s + and s 0xFFFF) = m"
    using f(2) by (simp add: unat_word_ariths a d m_def flip: n_def)
  have "unat (drop_bit 16 s + and s 0xFFFF + drop_bit 16 (drop_bit 16 s + and s 0xFFFF)) = m + m div 65536"
    using f(2) by (simp add: unat_word_ariths(1) [of "drop_bit 16 s + and s 0xFFFF"] u d)
  then have "unat (InCksum bs) = 65535 - wrap_carry n"
    unfolding InCksum_def Let_def s_def [symmetric] unat_low_not by (simp add: f(1))
  then show ?thesis using ones_sum_wrap [of bs] word_sum_unat [OF assms] by (simp add: n_def s_def)
qed

section \<open>Lemmas: the packet\<close>

lemma wrap_carry_complement: "wrap_carry (s + (65535 - wrap_carry s)) = 65535"
proof (cases "s = 0")
  case True
  then show ?thesis by (simp add: wrap_carry_def)
next
  case False
  define q where "q = (s - 1) div 65535"
  have "wrap_carry s \<le> 65535" "0 < wrap_carry s" using wrap_carry_less [of s] False by (simp_all add: wrap_carry_def)
  moreover have "s = wrap_carry s + 65535 * q"
    using False div_mult_mod_eq [of "s - 1" 65535] by (simp add: q_def wrap_carry_def)
  ultimately have "s + (65535 - wrap_carry s) = 65535 + 65535 * q" by linarith
  then show ?thesis using wrap_carry_mult [of 65535 q] by (simp add: wrap_carry_small)
qed

lemma two_bytes:
  assumes "0 \<le> x" and "x < 65536"
  shows "unat (word_of_int x :: byte) + 256 * unat (word_of_int (x div 256) :: byte) = nat x"
proof -
  have "uint (word_of_int x :: byte) + 256 * uint (word_of_int (x div 256) :: byte) = x"
    unfolding uint_word_of_int using assms by simp
  then show ?thesis by (metis nat_int of_nat_add of_nat_mult of_nat_numeral uint_nat)
qed

lemma words_le_16: "words_le (le16 (uint c) @ bs) = unat (c :: 16 word) # words_le bs"
proof -
  have "0 \<le> uint c" "uint c < 65536" using unsigned_less [of c, where 'a = int] by simp_all
  from two_bytes [OF this] have "unat (word_of_int (uint c) :: byte) + 256 * unat (word_of_int (uint c div 256) :: byte) = unat c"
    by (simp only: nat_uint_eq)
  then show ?thesis unfolding le16_def append_Cons append_Nil words_le.simps by (simp only:)
qed

lemma words_le_head: "words_le (echo_head k ck p n @ d) = unat k # words_le (ck @ le16 p @ le16 n @ d)"
  by (simp add: echo_head_def)

lemma sum_checksum: "sum_list (words_le (echo_head k (le16 (uint (c :: 16 word))) p n @ d)) = sum_list (words_le (echo_head k [0, 0] p n @ d)) + unat c"
  by (simp add: words_le_head words_le_16)

lemma checksum_valid:
  assumes "length d < 100000"
  shows "InCksum (echo_head k (le16 (uint (InCksum (echo_head k [0, 0] p n @ d)))) p n @ d) = 0"
proof -
  let ?zeroed = "echo_head k [0, 0] p n @ d"
  let ?m = "echo_head k (le16 (uint (InCksum ?zeroed))) p n @ d"
  have l: "length ?zeroed < 131070" "length ?m < 131070" using assms by (simp_all add: echo_head_def le16_def)
  have "sum_list (words_le ?m) = sum_list (words_le ?zeroed) + unat (InCksum ?zeroed)" by (rule sum_checksum)
  then have o: "ones_sum ?m = 65535"
    unfolding ones_sum_wrap InCksum_ones [OF l(1)] by (simp only: wrap_carry_complement)
  have "unat (InCksum ?m) = 65535 - ones_sum ?m" by (rule InCksum_ones [OF l(2)])
  also have "\<dots> = 0" using o by arith
  finally show ?thesis unfolding unsigned_eq_0_iff .
qed

lemma sum_digits: "(\<Sum>i < n. (x div 256 ^ i mod 256) * 256 ^ i) = (x :: int) mod 256 ^ n"
proof (induction n)
  case (Suc n)
  have "x mod 256 ^ Suc n = 256 ^ n * (x div 256 ^ n mod 256) + x mod 256 ^ n"
    using zmod_zmult2_eq [of 256 x "256 ^ n"] by (simp add: mult.commute)
  then show ?case using Suc by (simp add: mult.commute)
qed simp

lemma length_le64 [simp]: "length (le64 x) = 8"
  by (simp only: le64_def length_map length_upt)

lemma le64_nth: "i < 8 \<Longrightarrow> (le64 x @ r) ! i = word_of_int (x div 256 ^ i)"
proof -
  assume i: "i < 8"
  have "le64 x ! i = word_of_int (x div 256 ^ ([0..<8] ! i))"
    unfolding le64_def by (rule nth_map) (use i in \<open>simp only: length_upt diff_zero\<close>)
  also have "[0..<8] ! i = i" using i by (simp only: nth_upt add_0)
  finally show ?thesis using i by (simp add: nth_append)
qed

lemma rd64_le64:
  assumes "0 \<le> x" and "x < 18446744073709551616"
  shows "rd64 (le64 x @ r) = x"
proof -
  have "rd64 (le64 x @ r) = (\<Sum>i < 8. (x div 256 ^ i mod 256) * 256 ^ i)"
    unfolding rd64_def by (intro sum.cong) (simp_all only: lessThan_iff le64_nth uint_word_of_int, simp)
  also have "\<dots> = x mod 256 ^ 8" by (rule sum_digits)
  finally show ?thesis using assms by simp
qed

lemma rd_timeval_bytes:
  assumes "0 \<le> tv_sec tv" "tv_sec tv < 18446744073709551616" "0 \<le> tv_usec tv" "tv_usec tv < 18446744073709551616"
  shows "rd_timeval (timeval_bytes tv @ r) = tv"
proof -
  have "drop 8 (timeval_bytes tv @ r) = le64 (tv_usec tv) @ r" by (simp add: timeval_bytes_def)
  then show ?thesis using rd64_le64 [OF assms(1,2)] rd64_le64 [OF assms(3,4)]
    by (simp add: rd_timeval_def timeval_bytes_def)
qed

lemma rd16_le16: "rd16 (le16 x @ r) = x mod 65536"
proof -
  have "rd16 (le16 x @ r) = x mod 256 + 256 * (x div 256 mod 256)" by (simp add: rd16_def le16_def uint_word_of_int)
  also have "\<dots> = x mod 65536" using zmod_zmult2_eq [of 256 x 256] by simp
  finally show ?thesis .
qed

lemma length_echo: "16 \<le> D \<Longrightarrow> length ck = 2 \<Longrightarrow> length (echo_head k ck p n @ echo_data D tv) = 8 + D"
  by (simp add: echo_head_def echo_data_def timeval_bytes_def le16_def)

lemma echo_fields:
  assumes "length ck = 2"
  shows "(echo_head k ck p n @ d) ! 0 = k" "drop 4 (echo_head k ck p n @ d) = le16 p @ le16 n @ d"
    "drop 6 (echo_head k ck p n @ d) = le16 n @ d" "drop 8 (echo_head k ck p n @ d) = d"
proof -
  obtain a b where "ck = [a, b]" using assms by (auto simp: numeral_2_eq_2 length_Suc_conv)
  then show "(echo_head k ck p n @ d) ! 0 = k" "drop 4 (echo_head k ck p n @ d) = le16 p @ le16 n @ d"
    "drop 6 (echo_head k ck p n @ d) = le16 n @ d" "drop 8 (echo_head k ck p n @ d) = d"
    by (simp_all add: echo_head_def le16_def)
qed

lemma answer_reported:
  assumes "0 \<le> Pid" and "Pid < 65536" and "16 \<le> D" and "D < 1000" and "fst (SendV4 Pid Nsend D tv) = request"
    and "0 \<le> tv_sec tv" and "tv_sec tv < 9223372036854775808" and "0 \<le> tv_usec tv" and "tv_usec tv < 1000000"
    and "length ip = 4 * unat (and (ip ! 0) 0x0F)" and "20 \<le> length ip" and "ip ! 9 = 1" and "length ck = 2"
    and "reply = ip @ [0, 0] @ ck @ drop 4 request" and "buf = reply @ rest"
  shows "InCksum request = 0
    \<and> ProcV4 Q Verbose buf (int (length reply)) now
      = (if Pid \<noteq> Q then None else Some (Reply (8 + int D) (Nsend mod 65536) (uint (ip ! 8)) (TvSub now tv)))"
proof -
  let ?d = "echo_data D tv"
  obtain c :: "16 word" where c: "request = echo_head 8 (le16 (uint c)) Pid Nsend @ ?d" "c = InCksum (echo_head 8 [0, 0] Pid Nsend @ ?d)"
    using assms(5) by (auto simp: SendV4_def Let_def)
  have "length ?d < 100000" using assms(3,4) by (simp add: echo_data_def timeval_bytes_def)
  from checksum_valid [OF this] have valid: "InCksum request = 0" unfolding c .
  have r: "reply = ip @ echo_head 0 ck Pid Nsend @ ?d"
    using echo_fields(2) [of "le16 (uint c)" 8 Pid Nsend ?d] assms(13,14) c(1) by (simp add: le16_def echo_head_def)
  have "uint (and (ip ! 0) 0x0F) * 4 = int (length ip)" by (simp add: assms(10))
  then have hl: "nat (uint (and (ip ! 0) 0x0F) * 4) = length ip" "uint (and (ip ! 0) 0x0F) * 4 = int (length ip)" by simp_all
  have len: "length reply = length ip + (8 + D)" using length_echo [OF assms(3,13), of 0 Pid Nsend tv] by (simp add: r)
  have "length ip < 1000"
  proof -
    have "and (ip ! 0) 0x0F \<le> 0x0F" by (simp add: word_and_le1)
    then have "uint (and (ip ! 0) 0x0F) \<le> 15" by (simp add: word_le_def)
    then show ?thesis using hl(2) by linarith
  qed
  then have il: "i32 (int (length reply) - int (length ip)) = 8 + int D" using len assms(4) by (subst i32_id) auto
  have b: "buf ! 0 = ip ! 0" "buf ! 9 = 1" "buf ! 8 = ip ! 8" "drop (length ip) buf = echo_head 0 ck Pid Nsend @ ?d @ rest"
    using assms(11,12,15) r by (cases ip, simp_all add: nth_append)
  note e = echo_fields(1,2) [OF assms(13), of 0 Pid Nsend "?d @ rest"] echo_fields(3,4) [OF assms(13), of 0 _ Nsend "?d @ rest"]
  have t: "rd_timeval (?d @ rest) = tv"
    using rd_timeval_bytes [of tv "replicate (D - 16) 0xA5 @ rest"] assms(6-9) by (simp add: echo_data_def)
  have id: "rd16 (le16 Pid @ le16 Nsend @ ?d @ rest) = Pid" "rd16 (le16 Nsend @ ?d @ rest) = Nsend mod 65536"
    using rd16_le16 [of Pid] rd16_le16 [of Nsend] assms(1,2) by simp_all
  show ?thesis
    using assms(3) valid by (simp add: ProcV4_def b(1-3) hl il b(4) e t id Let_def del: drop_append)
qed

lemma TvSub_normal:
  assumes "0 \<le> tv_usec tv" and "tv_usec tv < 1000000" and "0 \<le> tv_usec now" and "tv_usec now < 1000000"
  shows "0 \<le> tv_usec (TvSub now tv) \<and> tv_usec (TvSub now tv) < 1000000
    \<and> tv_sec (TvSub now tv) * 1000000 + tv_usec (TvSub now tv) = (tv_sec now * 1000000 + tv_usec now) - (tv_sec tv * 1000000 + tv_usec tv)"
  using assms by (simp add: TvSub_def Let_def)

section \<open>Properties\<close>

text \<open>C27: \<open>InCksum\<close> is the checksum of RFC 1071: the complement of the sum of the 16 bit words with end-around carry, although it
  adds in 32 bits and folds twice at the end; no packet of IP is long enough for the sum to overflow.\<close>

theorem InCksum_is_rfc1071:
  assumes "length bs < 131070"
  shows "unat (InCksum bs) = 65535 - ones_sum bs"
  by (rule InCksum_ones [OF assms])

theorem InCksum_is_rfc1071_witness: "unat (InCksum [8, 0, 1]) = 65535 - ones_sum [8, 0, 1]"
  by (rule InCksum_is_rfc1071) simp

text \<open>A host that checks the echo request finds the checksum 0; its answer (type 0, whatever checksum, behind an IP header of any
  length) is reported with the number the request had and the time between the two as a normalised difference; an answer for
  another process is not reported.\<close>

theorem ping_roundtrip:
  assumes "0 \<le> Pid" and "Pid < 65536" and "16 \<le> D" and "D < 1000" and "fst (SendV4 Pid Nsend D tv) = request"
    and "0 \<le> tv_sec tv" and "tv_sec tv < 9223372036854775808" and "0 \<le> tv_usec tv" and "tv_usec tv < 1000000"
    and "0 \<le> tv_usec now" and "tv_usec now < 1000000"
    and "length ip = 4 * unat (and (ip ! 0) 0x0F)" and "20 \<le> length ip" and "ip ! 9 = 1" and "length ck = 2"
    and "reply = ip @ [0, 0] @ ck @ drop 4 request" and "buf = reply @ rest"
  shows "InCksum request = 0
    \<and> (\<exists>rtt. ProcV4 Pid Verbose buf (int (length reply)) now = Some (Reply (8 + int D) (Nsend mod 65536) (uint (ip ! 8)) rtt)
        \<and> 0 \<le> tv_usec rtt \<and> tv_usec rtt < 1000000
        \<and> tv_sec rtt * 1000000 + tv_usec rtt = (tv_sec now * 1000000 + tv_usec now) - (tv_sec tv * 1000000 + tv_usec tv))
    \<and> (Pid' \<noteq> Pid \<longrightarrow> ProcV4 Pid' Verbose buf (int (length reply)) now = None)"
  using answer_reported [OF assms(1-9,12-17), where Q = Pid] answer_reported [OF assms(1-9,12-17), where Q = Pid'] TvSub_normal [OF assms(8-11)] by auto

theorem ping_roundtrip_witness:
  "InCksum (fst (SendV4 77 65537 56 \<lparr>tv_sec = 5, tv_usec = 900000\<rparr>)) = 0"
proof -
  let ?ip = "[0x45, 0, 0, 0, 0, 0, 0, 0, 64, 1, 0, 0, 0, 0, 0, 0, 0, 0, 0, 0] :: byte list"
  have "length ?ip = 4 * unat (and (?ip ! 0) 0x0F)" by simp
  from ping_roundtrip [of 77 56 65537 "\<lparr>tv_sec = 5, tv_usec = 900000\<rparr>" _ "\<lparr>tv_sec = 6, tv_usec = 100000\<rparr>" ?ip "[0, 0]",
      OF _ _ _ _ refl _ _ _ _ _ _ this _ _ _ refl refl]
  show ?thesis by simp
qed

end
