(* ===== verification/Sock_Util.thy ===== *)
theory Sock_Util
  imports Prelude
begin

text \<open>
  \<open>src/Sock\<close>: the wrappers of the socket calls, \<open>Accept\<close> and \<open>TcpConnect\<close> with their loops, and the texts of
  addresses, \<open>SocketNtoP\<close> and \<open>SocketNtoPHost\<close>. The result of a system call is an argument. \<open>ErrSys\<close> and \<open>ErrQuit\<close> end
  the process, the result \<open>Inl Exit\<close>.
\<close>

section \<open>The wrappers\<close>

definition CreateSocket :: "int \<Rightarrow> int res" where
  "CreateSocket socket_fd = (if - 1 = socket_fd then Inl Exit else Inr socket_fd)"

definition Fcntl :: "int \<Rightarrow> int res" where
  "Fcntl flag = (if flag < 0 then Inl Exit else Inr flag)"

definition Bind :: "int \<Rightarrow> int res" where
  "Bind r = (if r < 0 then Inl Exit else Inr 0)"

definition Listen :: "int \<Rightarrow> int res" where
  "Listen r = (if r < 0 then Inl Exit else Inr 0)"

text \<open>\<open>getaddrinfo\<close>: the list of addresses, or an error.\<close>

definition SocketHostServ :: "'a list option \<Rightarrow> 'a list res" where
  "SocketHostServ r = (case r of None \<Rightarrow> Inl Exit | Some res \<Rightarrow> Inr res)"

definition SocketHostServNull :: "'a list option \<Rightarrow> 'a list option" where
  "SocketHostServNull r = r"

text \<open>The results of \<open>accept\<close>: a connection that was given up before it was taken is skipped.\<close>

datatype accept_result = Taken int | Aborted | AcceptFailed

fun Accept :: "accept_result list \<Rightarrow> int res" where
  "Accept [] = Inl Fuel"
| "Accept (Taken socket # rs) = Inr socket"
| "Accept (Aborted # rs) = Accept rs"
| "Accept (AcceptFailed # rs) = Inr (- 1)"

section \<open>Connecting\<close>

text \<open>One address: the result of \<open>socket\<close> and whether \<open>connect\<close> succeeds. The result is the socket and the sockets closed.\<close>

type_synonym address = "int \<times> bool"

fun tcp_loop :: "address list \<Rightarrow> int option \<times> int list" where
  "tcp_loop [] = (None, [])"
| "tcp_loop ((socket_fd, connects) # res) =
     (if socket_fd < 0 then tcp_loop res
      else if connects then (Some socket_fd, [])
      else let (r, closed) = tcp_loop res in (r, socket_fd # closed))"

definition TcpConnect :: "address list option \<Rightarrow> (int \<times> int list) res" where
  "TcpConnect r =
     (case r of None \<Rightarrow> Inl Exit
      | Some res \<Rightarrow> (case tcp_loop res of (None, closed) \<Rightarrow> Inr (- 1, closed) | (Some socket_fd, closed) \<Rightarrow> Inr (socket_fd, closed)))"

section \<open>The text of an address\<close>

text \<open>An address of IPv4 or IPv6 with its bytes and port, or the number of another family.\<close>

datatype sockaddr = In4 "byte list" nat | In6 "byte list" nat | OtherFamily nat

definition dotted :: "byte list \<Rightarrow> string" where
  "dotted a = dec (unat (a ! 0)) @ ''.'' @ dec (unat (a ! 1)) @ ''.'' @ dec (unat (a ! 2)) @ ''.'' @ dec (unat (a ! 3))"

text \<open>
  \<open>inet_ntop\<close>. The text of an IPv6 address is the parameter \<open>ntop6\<close>; POSIX bounds its length by 45 characters. \<open>strcat\<close> into the
  buffer of 128 bytes needs room for the terminator.
\<close>

definition strcat128 :: "string \<Rightarrow> string \<Rightarrow> string res" where
  "strcat128 buff_addr port = (if 128 \<le> length buff_addr + length port then Inl Undef else Inr (buff_addr @ port))"

definition port_text :: "nat \<Rightarrow> string" where
  "port_text port = (if port \<noteq> 0 then take 6 ('':'' @ dec port) else [])"

definition SocketNtoP :: "(byte list \<Rightarrow> string option) \<Rightarrow> sockaddr \<Rightarrow> nat \<Rightarrow> string option res" where
  "SocketNtoP ntop6 T_sa T_sa_len =
     (case T_sa of
        In4 a port \<Rightarrow> rbind (strcat128 (dotted a) (port_text port)) (\<lambda>buff. Inr (Some buff))
      | In6 a port \<Rightarrow> (case ntop6 a of None \<Rightarrow> Inr None
          | Some addr \<Rightarrow> rbind (strcat128 addr (port_text port)) (\<lambda>buff. Inr (Some buff)))
      | OtherFamily family \<Rightarrow> Inr (Some (take 127 (''SockNtoP: unknow AF_XXX:'' @ dec family @ '',len '' @ dec T_sa_len))))"

definition SocketNtoPHost :: "(byte list \<Rightarrow> string option) \<Rightarrow> sockaddr \<Rightarrow> nat \<Rightarrow> string option" where
  "SocketNtoPHost ntop6 T_sa T_sa_len =
     (case T_sa of
        In4 a port \<Rightarrow> Some (dotted a)
      | In6 a port \<Rightarrow> ntop6 a
      | OtherFamily family \<Rightarrow> Some (take 127 (''SockNtoPHost: unknow AF_XXX: '' @ dec family @ '',len:'' @ dec T_sa_len)))"

section \<open>Lemmas\<close>

lemma length_dec_pow: "n < 10 ^ Suc k \<Longrightarrow> length (dec n) \<le> Suc k"
proof (induction k arbitrary: n)
  case 0
  then show ?case by (subst dec.simps) simp
next
  case (Suc k)
  have "n div 10 < 10 ^ Suc k" using Suc.prems by (simp add: div_less_iff_less_mult mult.commute)
  then show ?case using Suc.IH [of "n div 10"] by (subst dec.simps) simp
qed

lemma dec_inj: "dec m = dec n \<Longrightarrow> m = n"
  by (metis dec_spec)

text \<open>A number is read back up to the first character that is no digit.\<close>

lemma dec_split:
  assumes "dec m @ c # x = dec n @ d # y" and "\<not> is_digit c" and "\<not> is_digit d"
  shows "m = n \<and> c = d \<and> x = y"
proof -
  have t: "takeWhile is_digit (dec k @ e # z) = dec k" "dropWhile is_digit (dec k @ e # z) = e # z" if "\<not> is_digit e" for k e z
    using that dec_digits [of _ k] by (simp_all add: takeWhile_append2 dropWhile_append2)
  have "dec m = dec n" "c # x = d # y" using assms t by metis+
  then show ?thesis using dec_inj by simp
qed

lemma dec_end:
  assumes "dec m @ x = dec n @ y" and "x = [] \<or> \<not> is_digit (hd x)" and "y = [] \<or> \<not> is_digit (hd y)"
  shows "m = n \<and> x = y"
proof -
  have t: "takeWhile is_digit (dec k @ z) = dec k" "dropWhile is_digit (dec k @ z) = z" if "z = [] \<or> \<not> is_digit (hd z)" for k z
    using that dec_digits [of _ k] by (cases z; simp add: takeWhile_append2 dropWhile_append2 takeWhile_digits)+
  have "dec m = dec n" "x = y" using assms t by metis+
  then show ?thesis using dec_inj by simp
qed

lemma not_digit: "\<not> is_digit CHR ''.''" "\<not> is_digit CHR '':''"
  by (simp_all add: is_digit_def)

lemma length_byte: "length (dec (unat (b :: byte))) \<le> 3"
  using length_dec_pow [of "unat b" 2] unsigned_less [of b, where 'a = nat] by (simp add: eval_nat_numeral)

lemma length_dotted: "length (dotted a) \<le> 15"
  using length_byte [of "a ! 0"] length_byte [of "a ! 1"] length_byte [of "a ! 2"] length_byte [of "a ! 3"] by (simp add: dotted_def)

lemma port_text_eq:
  assumes "port < 65536"
  shows "port_text port = (if port = 0 then [] else '':'' @ dec port)" "length (port_text port) \<le> 6"
  using length_dec_pow [of port 4] assms by (simp_all add: port_text_def)

text \<open>The loop ends at socket \<open>fd\<close>, with the sockets opened before it closed.\<close>

definition ends_at :: "address list \<Rightarrow> int \<Rightarrow> int list \<Rightarrow> bool" where
  "ends_at res fd closed \<longleftrightarrow> (\<exists>pre post. res = pre @ (fd, True) # post \<and> 0 \<le> fd \<and> closed = filter ((\<le>) 0) (map fst pre)
     \<and> (\<forall>(s, connects) \<in> set pre. connects \<longrightarrow> s < 0))"

lemma ends_at_here: "0 \<le> fd \<Longrightarrow> ends_at ((fd, True) # res) fd []"
  unfolding ends_at_def by (rule exI [of _ "[]"], rule exI [of _ res]) simp

lemma ends_at_later:
  "ends_at res fd closed \<Longrightarrow> s < 0 \<or> \<not> connects \<Longrightarrow> ends_at ((s, connects) # res) fd (if s < 0 then closed else s # closed)"
  unfolding ends_at_def by (elim exE, rule exI [of _ "(s, connects) # pre" for pre], rule exI) (auto split: if_splits)

lemma tcp_loop_spec:
  "tcp_loop res = (r, closed) \<Longrightarrow>
     (case r of None \<Rightarrow> closed = filter ((\<le>) 0) (map fst res) \<and> (\<forall>(s, connects) \<in> set res. connects \<longrightarrow> s < 0)
      | Some fd \<Rightarrow> ends_at res fd closed)"
proof (induction res arbitrary: closed rule: tcp_loop.induct)
  case (2 fd connects res)
  consider (skip) "fd < 0" "tcp_loop res = (r, closed)" | (found) "0 \<le> fd" "connects" "r = Some fd" "closed = []"
    | (next_one) c where "0 \<le> fd" "\<not> connects" "tcp_loop res = (r, c)" "closed = fd # c"
    using "2.prems" by (cases "tcp_loop res") (auto simp: Let_def split: if_splits)
  then show ?case
  proof cases
    case skip
    then show ?thesis using "2.IH"(1) [OF skip] ends_at_later [of res _ closed fd connects] by (cases r) auto
  next
    case found
    then show ?thesis by (simp add: ends_at_here)
  next
    case next_one
    then have f: "\<not> fd < 0" by simp
    show ?thesis using "2.IH"(2) [OF f next_one(2,3)] next_one(1,2,4) ends_at_later [of res _ c fd connects] by (cases r) auto
  qed
qed auto

section \<open>Properties\<close>

text \<open>The text of an endpoint of IPv4 tells the address and the port: \<open>SocketNtoP\<close> gives different texts for different ones.\<close>

theorem SocketNtoP_injective:
  assumes "length a = 4" and "length b = 4" and "port < 65536" and "port' < 65536"
    and "SocketNtoP ntop6 (In4 a port) len = SocketNtoP ntop6 (In4 b port') len'"
  shows "a = b \<and> port = port'"
proof -
  have eq: "dotted a @ port_text port = dotted b @ port_text port'"
    using assms(5) length_dotted [of a] length_dotted [of b] port_text_eq(2) [OF assms(3)] port_text_eq(2) [OF assms(4)]
    by (simp add: SocketNtoP_def strcat128_def split: if_splits)
  obtain a0 a1 a2 a3 b0 b1 b2 b3 where ab: "a = [a0, a1, a2, a3]" "b = [b0, b1, b2, b3]"
    using assms(1,2) by (auto simp: eval_nat_numeral length_Suc_conv)
  have e: "port_text n = [] \<or> \<not> is_digit (hd (port_text n))" for n by (simp add: port_text_def not_digit)
  have "unat a0 = unat b0 \<and> unat a1 = unat b1 \<and> unat a2 = unat b2 \<and> unat a3 = unat b3 \<and> port_text port = port_text port'"
    using eq not_digit(1) dec_end [OF _ e e, of "unat a3" port "unat b3" port'] by (auto simp: ab dotted_def dest!: dec_split)
  moreover from this have "port = port'"
    using port_text_eq(1) [OF assms(3)] port_text_eq(1) [OF assms(4)] dec_inj by (auto split: if_splits)
  ultimately show ?thesis by (simp add: ab word_unat_eq_iff)
qed

theorem SocketNtoP_injective_witness:
  "[10, 0, 0, 1] = [10, 0, 0, 1 :: byte] \<and> 80 = (80 :: nat)"
  using SocketNtoP_injective [of "[10, 0, 0, 1]" "[10, 0, 0, 1]" 80 80 Map.empty 16 16] by simp

text \<open>The buffer of 128 bytes is large enough: for every address whose IPv6 text has the length POSIX allows \<open>SocketNtoP\<close> stays inside
  it, and the text is the address with the port, if there is one, behind a colon, never cut off.\<close>

theorem SocketNtoP_bounds:
  assumes "\<forall>a t. ntop6 a = Some t \<longrightarrow> length t \<le> 45" and "port < 65536"
  shows "SocketNtoP ntop6 (In4 a port) len = Inr (Some (dotted a @ (if port = 0 then [] else '':'' @ dec port)))
    \<and> SocketNtoP ntop6 (In6 a port) len = Inr (map_option (\<lambda>t. t @ (if port = 0 then [] else '':'' @ dec port)) (ntop6 a))
    \<and> (\<forall>sa t. sa \<in> {In4 a port, In6 a port, OtherFamily f} \<longrightarrow> SocketNtoP ntop6 sa len = Inr (Some t) \<longrightarrow> length t < 128)"
proof -
  note p = port_text_eq [OF assms(2)]
  have 4: "SocketNtoP ntop6 (In4 a port) len = Inr (Some (dotted a @ port_text port))"
    using length_dotted [of a] p(2) by (simp add: SocketNtoP_def strcat128_def)
  have 6: "SocketNtoP ntop6 (In6 a port) len = Inr (map_option (\<lambda>t. t @ port_text port) (ntop6 a))"
    using assms(1) p(2) by (fastforce simp: SocketNtoP_def strcat128_def split: option.split)
  have "length t < 128" if "sa \<in> {In4 a port, In6 a port, OtherFamily f}" "SocketNtoP ntop6 sa len = Inr (Some t)" for sa t
    using that by (auto simp: SocketNtoP_def strcat128_def rbind_Inr_iff split: option.splits if_splits)
  then show ?thesis using 4 6 p(1) by auto
qed

theorem SocketNtoP_bounds_witness:
  "SocketNtoP (\<lambda>_. Some ''::1'') (In4 [127, 0, 0, 1] 6881) 16 = Inr (Some (dotted [127, 0, 0, 1] @ '':'' @ dec 6881))"
  using SocketNtoP_bounds [of "\<lambda>_. Some ''::1''" 6881 "[127, 0, 0, 1]" 16] by simp

text \<open>\<open>TcpConnect\<close> loses no socket: it returns the first one that connects, or -1 if none does, and every other socket it had
  opened until then has been closed, once each and in order; the returned socket stays open.\<close>

theorem TcpConnect_accounts:
  assumes "TcpConnect (Some res) = Inr (fd, closed)"
  shows "(fd = - 1 \<and> closed = filter ((\<le>) 0) (map fst res) \<and> (\<forall>(s, connects) \<in> set res. connects \<longrightarrow> s < 0))
    \<or> (\<exists>pre post. res = pre @ (fd, True) # post \<and> 0 \<le> fd \<and> closed = filter ((\<le>) 0) (map fst pre)
        \<and> (\<forall>(s, connects) \<in> set pre. connects \<longrightarrow> s < 0))"
proof -
  obtain r where "tcp_loop res = (r, closed)" "fd = (case r of None \<Rightarrow> - 1 | Some s \<Rightarrow> s)"
    using assms by (auto simp: TcpConnect_def split: prod.splits option.splits)
  then show ?thesis using tcp_loop_spec [of res r closed] unfolding ends_at_def by (cases r) auto
qed

theorem TcpConnect_accounts_witness:
  "\<exists>pre post. [(- 1, True), (5, False), (6, True), (7, True)] = pre @ (6, True) # post \<and> [5 :: int] = filter ((\<le>) 0) (map fst pre)"
proof -
  have "TcpConnect (Some [(- 1, True), (5, False), (6, True), (7, True)]) = Inr (6, [5])" by (simp add: TcpConnect_def)
  from TcpConnect_accounts [OF this] show ?thesis by auto
qed

end
