(* ===== verification/Ping_Run.thy ===== *)
theory Ping_Run
  imports Ping Sock_Util
begin

text \<open>
  The ping program: \<open>main\<close>, \<open>ReadLoop\<close> and the handler of the alarm (\<open>src/Ping\<close>). What the program meets while it waits
  for packets is a list of events; an alarm sends the next request. The buffer of \<open>recvmsg\<close> keeps what earlier
  packets left in it.
\<close>

section \<open>The loop\<close>

datatype proto = V4 | V6

text \<open>A packet arrives with the hop limit, if the system gives it, and the time it is taken up.\<close>

datatype ping_event = Alarm timeval | Interrupted | RecvError | Arrives "byte list" "int option" timeval

record ping =
  pg_nsend :: int
  pg_sent :: "byte list list"
  pg_buf :: "byte list"
  pg_out :: "report list"

definition PINGBUFSIZE :: nat where
  "PINGBUFSIZE = 1500"

definition Data_len :: nat where
  "Data_len = 56"

definition SigAlrm :: "proto \<Rightarrow> int \<Rightarrow> timeval \<Rightarrow> ping \<Rightarrow> ping" where
  "SigAlrm Pr Pid tv p =
     (let (packet, n) = (case Pr of V4 \<Rightarrow> SendV4 Pid (pg_nsend p) Data_len tv | V6 \<Rightarrow> SendV6 Pid (pg_nsend p) Data_len tv)
      in p\<lparr>pg_nsend := n, pg_sent := pg_sent p @ [packet]\<rparr>)"

definition func_proc :: "proto \<Rightarrow> int \<Rightarrow> bool \<Rightarrow> byte list \<Rightarrow> int \<Rightarrow> int option \<Rightarrow> timeval \<Rightarrow> report option" where
  "func_proc Pr Pid Verbose T_buf n hop_limit tval =
     (case Pr of V4 \<Rightarrow> ProcV4 Pid Verbose T_buf n tval | V6 \<Rightarrow> ProcV6 Pid Verbose T_buf n hop_limit tval)"

text \<open>\<open>left\<close> is \<open>30 - i\<close>. An alarm restarts \<open>recvmsg\<close>.\<close>

fun recv_packets :: "proto \<Rightarrow> int \<Rightarrow> bool \<Rightarrow> nat \<Rightarrow> ping_event list \<Rightarrow> ping \<Rightarrow> ping res" where
  "recv_packets Pr Pid Verbose 0 es p = Inr p"
| "recv_packets Pr Pid Verbose (Suc left) [] p = Inl Fuel"
| "recv_packets Pr Pid Verbose (Suc left) (e # es) p =
     (case e of
        Alarm tv \<Rightarrow> recv_packets Pr Pid Verbose (Suc left) es (SigAlrm Pr Pid tv p)
      | Interrupted \<Rightarrow> recv_packets Pr Pid Verbose left es p
      | RecvError \<Rightarrow> Inl Exit
      | Arrives packet hop_limit tval \<Rightarrow>
          let received = take PINGBUFSIZE packet; recv_buf = received @ drop (length received) (pg_buf p)
          in recv_packets Pr Pid Verbose left es
               (p\<lparr>pg_buf := recv_buf,
                  pg_out := pg_out p @ (case func_proc Pr Pid Verbose recv_buf (int (length received)) hop_limit tval of
                     None \<Rightarrow> [] | Some r \<Rightarrow> [r])\<rparr>))"

definition ReadLoop :: "proto \<Rightarrow> int \<Rightarrow> bool \<Rightarrow> int \<Rightarrow> timeval \<Rightarrow> ping_event list \<Rightarrow> ping \<Rightarrow> ping res" where
  "ReadLoop Pr Pid Verbose socket now es p =
     rbind (CreateSocket socket) (\<lambda>_.
       recv_packets Pr Pid Verbose 30 es (SigAlrm Pr Pid now (p\<lparr>pg_buf := replicate PINGBUFSIZE 0\<rparr>)))"

section \<open>The program\<close>

definition v4_mapped :: "byte list \<Rightarrow> bool" where
  "v4_mapped a = (take 12 a = replicate 10 0 @ [0xFF, 0xFF])"

definition proto_of :: "sockaddr \<Rightarrow> proto res" where
  "proto_of sa =
     (case sa of In4 a port \<Rightarrow> Inr V4
      | In6 a port \<Rightarrow> if v4_mapped a then Inl Exit else Inr V6
      | OtherFamily family \<Rightarrow> Inl Exit)"

text \<open>
  \<open>opts\<close> is what \<open>getopt\<close> found, the number of \<open>-v\<close> or an unknown option; \<open>operand\<close> says that one argument is left. The
  list \<open>getaddrinfo\<close> gives is not empty.
\<close>

definition ping_main :: "nat option \<Rightarrow> bool \<Rightarrow> int \<Rightarrow> bool \<Rightarrow> sockaddr list option \<Rightarrow> bool \<Rightarrow> int \<Rightarrow> timeval \<Rightarrow> ping_event list \<Rightarrow> ping res" where
  "ping_main opts operand pid signal_ok addrs calloc_ok socket now es =
     (case opts of None \<Rightarrow> Inl Exit
      | Some Verbose \<Rightarrow>
          if \<not> operand then Inl Exit
          else let Pid = pid mod 65536
               in if \<not> signal_ok then Inl Exit
                  else rbind (SocketHostServ addrs) (\<lambda>addr_info.
                       case addr_info of [] \<Rightarrow> Inl Undef
                       | sa # _ \<Rightarrow> rbind (proto_of sa) (\<lambda>Pr.
                           if \<not> calloc_ok then Inl Exit
                           else ReadLoop Pr Pid (Verbose \<noteq> 0) socket now es \<lparr>pg_nsend = 0, pg_sent = [], pg_buf = [], pg_out = []\<rparr>)))"

section \<open>Lemmas\<close>

text \<open>A time as \<open>gettimeofday\<close> gives it, and the header of an IP packet that carries ICMP.\<close>

definition clock_time :: "timeval \<Rightarrow> bool" where
  "clock_time tv \<longleftrightarrow> 0 \<le> tv_sec tv \<and> tv_sec tv < 9223372036854775808 \<and> 0 \<le> tv_usec tv \<and> tv_usec tv < 1000000"

definition micros :: "timeval \<Rightarrow> int" where
  "micros tv = tv_sec tv * 1000000 + tv_usec tv"

definition icmp_header :: "byte list \<Rightarrow> bool" where
  "icmp_header ip \<longleftrightarrow> length ip = 4 * unat (and (ip ! 0) 0x0F) \<and> 20 \<le> length ip \<and> ip ! 9 = 1"

text \<open>The request with number \<open>k\<close>, and the answer to a request.\<close>

definition request_of :: "int \<Rightarrow> nat \<Rightarrow> timeval \<Rightarrow> byte list" where
  "request_of Pid k tv = fst (SendV4 Pid (int k) Data_len tv)"

definition answer_of :: "byte list \<Rightarrow> byte list \<Rightarrow> byte list \<Rightarrow> byte list" where
  "answer_of ip ck request = ip @ [0, 0] @ ck @ drop 4 request"

lemma length_answer:
  assumes "icmp_header ip" and "length ck = 2"
  shows "length (answer_of ip ck (request_of Pid k tv)) \<le> 1500"
proof -
  have "and (ip ! 0) 0x0F \<le> 0x0F" by (simp add: word_and_le1)
  then have "unat (and (ip ! 0) 0x0F) \<le> 15" by (simp add: word_le_nat_alt)
  then have "length ip \<le> 60" using assms(1) by (simp add: icmp_header_def)
  then show ?thesis
    using assms(2) by (simp add: answer_of_def request_of_def SendV4_def echo_head_def echo_data_def timeval_bytes_def le16_def Data_len_def Let_def)
qed

lemma answer_printed:
  assumes "0 \<le> Pid" and "Pid < 65536" and "k < 65536" and "clock_time tv" and "icmp_header ip" and "length ck = 2"
  shows "ProcV4 Pid Verbose (answer_of ip ck (request_of Pid k tv) @ rest) (int (length (answer_of ip ck (request_of Pid k tv)))) now
    = Some (Reply 64 (int k) (uint (ip ! 8)) (TvSub now tv))"
  using answer_reported [of Pid Data_len "int k" tv "request_of Pid k tv" ip ck "answer_of ip ck (request_of Pid k tv)" _ rest Pid Verbose now]
    assms(1-3,6) assms(4) [unfolded clock_time_def] assms(5) [unfolded icmp_header_def]
  by (simp add: request_of_def answer_of_def Data_len_def)

lemma SigAlrm_V4:
  assumes "pg_nsend p = int k" and "k < 2147483647"
  shows "SigAlrm V4 Pid tv p = p\<lparr>pg_nsend := int (Suc k), pg_sent := pg_sent p @ [request_of Pid k tv]\<rparr>"
  using assms by (simp add: SigAlrm_def request_of_def SendV4_def Let_def i32_id add.commute)

text \<open>One answer is received: the buffer keeps its length, and a line is printed.\<close>

lemma receive_answer:
  assumes "0 \<le> Pid" and "Pid < 65536" and "k < 65536" and "clock_time tv" and "icmp_header ip" and "length ck = 2"
    and "length (pg_buf p) = 1500"
  shows "\<exists>buf. length buf = 1500 \<and>
    recv_packets V4 Pid Verbose (Suc left) (Arrives (answer_of ip ck (request_of Pid k tv)) hop_limit now # es) p
    = recv_packets V4 Pid Verbose left es
        (p\<lparr>pg_buf := buf, pg_out := pg_out p @ [Reply 64 (int k) (uint (ip ! 8)) (TvSub now tv)]\<rparr>)"
proof -
  let ?a = "answer_of ip ck (request_of Pid k tv)"
  have l: "length ?a \<le> 1500" by (rule length_answer [OF assms(5,6)])
  then have t: "take PINGBUFSIZE ?a = ?a" by (simp add: PINGBUFSIZE_def)
  have "length (?a @ drop (length ?a) (pg_buf p)) = 1500" using l assms(7) by simp
  then show ?thesis using answer_printed [OF assms(1-6)] by (intro exI conjI) (auto simp: t func_proc_def Let_def)
qed

text \<open>What comes in when a host answers every request before the next alarm.\<close>

definition rounds :: "int \<Rightarrow> (nat \<Rightarrow> timeval) \<Rightarrow> (nat \<Rightarrow> timeval) \<Rightarrow> (nat \<Rightarrow> byte list) \<Rightarrow> (nat \<Rightarrow> byte list) \<Rightarrow> nat list \<Rightarrow> ping_event list" where
  "rounds Pid t now ip ck ks = concat (map (\<lambda>k. [Alarm (t k), Arrives (answer_of (ip k) (ck k) (request_of Pid k (t k))) None (now k)]) ks)"

lemma run_rounds:
  assumes "0 \<le> Pid" and "Pid < 65536" and "\<forall>k < 65536. clock_time (t k) \<and> icmp_header (ip k) \<and> length (ck k) = 2"
    and "m + n \<le> 65536" and "length (pg_buf p) = 1500" and "pg_nsend p = int m"
  shows "\<exists>buf. recv_packets V4 Pid Verbose n (rounds Pid t now ip ck [m..<m + n]) p
    = Inr (p\<lparr>pg_nsend := int (m + n), pg_sent := pg_sent p @ map (\<lambda>k. request_of Pid k (t k)) [m..<m + n], pg_buf := buf,
        pg_out := pg_out p @ map (\<lambda>k. Reply 64 (int k) (uint (ip k ! 8)) (TvSub (now k) (t k))) [m..<m + n]\<rparr>)"
  using assms(4-)
proof (induction n arbitrary: m p)
  case 0
  then show ?case by (intro exI [of _ "pg_buf p"]) (simp add: rounds_def)
next
  case (Suc n)
  let ?p = "p\<lparr>pg_nsend := int (Suc m), pg_sent := pg_sent p @ [request_of Pid m (t m)]\<rparr>"
  have c: "clock_time (t m)" "icmp_header (ip m)" "length (ck m) = 2" using assms(3) Suc.prems(1) by simp_all
  have m: "m < 65536" "length (pg_buf ?p) = 1500" using Suc.prems(1,2) by simp_all
  have u: "[m..<m + Suc n] = m # [Suc m..<Suc m + n]" by (simp add: upt_rec)
  have s: "SigAlrm V4 Pid (t m) p = ?p" by (rule SigAlrm_V4) (use Suc.prems in simp_all)
  let ?es = "rounds Pid t now ip ck [Suc m..<Suc m + n]"
  have r: "rounds Pid t now ip ck [m..<m + Suc n]
      = Alarm (t m) # Arrives (answer_of (ip m) (ck m) (request_of Pid m (t m))) None (now m) # ?es"
    unfolding u by (simp add: rounds_def del: upt_Suc)
  have a: "recv_packets V4 Pid Verbose (Suc n) (Alarm (t m) # es) p = recv_packets V4 Pid Verbose (Suc n) es ?p" for es
    by (simp only: recv_packets.simps ping_event.case s)
  let ?out = "pg_out p @ [Reply 64 (int m) (uint (ip m ! 8)) (TvSub (now m) (t m))]"
  obtain buf where b: "length buf = 1500" "recv_packets V4 Pid Verbose (Suc n) (rounds Pid t now ip ck [m..<m + Suc n]) p
      = recv_packets V4 Pid Verbose n ?es (?p\<lparr>pg_buf := buf, pg_out := ?out\<rparr>)"
    using receive_answer [OF assms(1,2) m(1) c m(2), of Verbose n None "now m" ?es] unfolding r a by auto
  obtain buf' where f: "recv_packets V4 Pid Verbose n ?es (?p\<lparr>pg_buf := buf, pg_out := ?out\<rparr>)
      = Inr (?p\<lparr>pg_nsend := int (Suc m + n), pg_sent := pg_sent ?p @ map (\<lambda>k. request_of Pid k (t k)) [Suc m..<Suc m + n], pg_buf := buf',
          pg_out := ?out @ map (\<lambda>k. Reply 64 (int k) (uint (ip k ! 8)) (TvSub (now k) (t k))) [Suc m..<Suc m + n]\<rparr>)"
    using Suc.IH [of "Suc m" "?p\<lparr>pg_buf := buf, pg_out := ?out\<rparr>"] Suc.prems(1) b(1) by auto
  show ?case by (intro exI [of _ buf']) (simp only: b(2) f, simp only: u, simp del: upt_Suc)
qed

lemma recv_alarm: "0 < left \<Longrightarrow> recv_packets Pr Pid Verbose left (Alarm tv # es) p = recv_packets Pr Pid Verbose left es (SigAlrm Pr Pid tv p)"
  by (cases left) simp_all

lemma request_valid: "InCksum (request_of Pid k tv) = 0"
proof -
  have "length (echo_data Data_len tv) < 100000" by (simp add: echo_data_def timeval_bytes_def Data_len_def)
  then show ?thesis using checksum_valid by (simp add: request_of_def SendV4_def Let_def)
qed

section \<open>Properties\<close>

text \<open>C26: a session: when a host on IPv4 answers every request before the next alarm, the program sends thirty requests with valid
  checksums, one at the start and one per alarm, prints one line for each with its number, the time to live of the answer and
  the time between the two, and ends.\<close>

theorem ping_session:
  assumes "socket \<noteq> - 1" and "\<forall>k < 65536. clock_time (t k) \<and> icmp_header (ip k) \<and> length (ck k) = 2" and "\<forall>k. clock_time (now k)"
    and "es = tl (rounds (pid mod 65536) t now ip ck [0..<30])"
  shows "\<exists>p. ping_main (Some v) True pid True (Some (In4 a port # addrs)) True socket (t 0) es = Inr p
    \<and> pg_sent p = map (\<lambda>k. request_of (pid mod 65536) k (t k)) [0..<30] \<and> (\<forall>r \<in> set (pg_sent p). InCksum r = 0)
    \<and> pg_out p = map (\<lambda>k. Reply 64 (int k) (uint (ip k ! 8)) (TvSub (now k) (t k))) [0..<30]
    \<and> (\<forall>k < 30. micros (TvSub (now k) (t k)) = micros (now k) - micros (t k))"
proof -
  let ?Pid = "pid mod 65536" let ?V = "v \<noteq> 0"
  let ?p = "\<lparr>pg_nsend = 0, pg_sent = [], pg_buf = replicate PINGBUFSIZE 0, pg_out = []\<rparr>"
  have "0 \<le> ?Pid" "?Pid < 65536" by simp_all
  then obtain buf where run: "recv_packets V4 ?Pid ?V 30 (rounds ?Pid t now ip ck [0..<0 + 30]) ?p
    = Inr (?p\<lparr>pg_nsend := int (0 + 30), pg_sent := pg_sent ?p @ map (\<lambda>k. request_of ?Pid k (t k)) [0..<0 + 30], pg_buf := buf,
        pg_out := pg_out ?p @ map (\<lambda>k. Reply 64 (int k) (uint (ip k ! 8)) (TvSub (now k) (t k))) [0..<0 + 30]\<rparr>)"
    using run_rounds [of ?Pid t ip ck 0 30 ?p ?V now] assms(2) by (auto simp: PINGBUFSIZE_def)
  have "[0..<30] = 0 # [1..<30 :: nat]" by (simp add: upt_rec)
  then have "rounds ?Pid t now ip ck [0..<30] = Alarm (t 0) # es" by (simp add: rounds_def assms(4) del: upt_rec_numeral upt_Suc)
  then have "recv_packets V4 ?Pid ?V 30 (rounds ?Pid t now ip ck [0..<0 + 30]) ?p = recv_packets V4 ?Pid ?V 30 es (SigAlrm V4 ?Pid (t 0) ?p)"
    by (simp only: add_0 recv_alarm zero_less_numeral)
  then have m: "ping_main (Some v) True pid True (Some (In4 a port # addrs)) True socket (t 0) es
      = Inr (?p\<lparr>pg_nsend := int (0 + 30), pg_sent := pg_sent ?p @ map (\<lambda>k. request_of ?Pid k (t k)) [0..<0 + 30], pg_buf := buf,
        pg_out := pg_out ?p @ map (\<lambda>k. Reply 64 (int k) (uint (ip k ! 8)) (TvSub (now k) (t k))) [0..<0 + 30]\<rparr>)"
    using run assms(1) by (simp add: ping_main_def SocketHostServ_def proto_of_def ReadLoop_def CreateSocket_def Let_def)
  have "micros (TvSub (now k) (t k)) = micros (now k) - micros (t k)" if "k < 30" for k
    using TvSub_normal [of "t k" "now k"] assms(2,3) that by (simp add: clock_time_def micros_def)
  then show ?thesis unfolding m by (auto simp: request_valid simp del: upt_rec_numeral)
qed

text \<open>A host that answers after 2.5 ms; the requests are a second apart.\<close>

definition sample_sent :: "nat \<Rightarrow> timeval" where
  "sample_sent k = \<lparr>tv_sec = int k mod 65536, tv_usec = 0\<rparr>"

definition sample_now :: "nat \<Rightarrow> timeval" where
  "sample_now k = \<lparr>tv_sec = int k mod 65536, tv_usec = 2500\<rparr>"

definition sample_ip :: "nat \<Rightarrow> byte list" where
  "sample_ip k = [0x45, 0, 0, 0, 0, 0, 0, 0, 64, 1, 0, 0, 0, 0, 0, 0, 0, 0, 0, 0]"

lemma sample_session: "clock_time (sample_sent k)" "clock_time (sample_now k)" "icmp_header (sample_ip k)"
proof -
  have "int k mod 65536 < 9223372036854775808" by (rule less_trans [of _ 65536]) simp_all
  then show "clock_time (sample_sent k)" "clock_time (sample_now k)" by (simp_all add: clock_time_def sample_sent_def sample_now_def)
  show "icmp_header (sample_ip k)" by (simp add: icmp_header_def sample_ip_def)
qed

theorem ping_session_witness:
  "\<exists>p. ping_main (Some 0) True 70000 True (Some [In4 [127, 0, 0, 1] 0]) True 3 (sample_sent 0)
      (tl (rounds (70000 mod 65536) sample_sent sample_now sample_ip (\<lambda>_. [0, 0]) [0..<30])) = Inr p
    \<and> length (pg_sent p) = 30 \<and> length (pg_out p) = 30"
proof -
  have s: "\<forall>k < 65536. clock_time (sample_sent k) \<and> icmp_header (sample_ip k) \<and> length [0, 0 :: byte] = 2"
    "\<forall>k. clock_time (sample_now k)"
    using sample_session by simp_all
  have "(3 :: int) \<noteq> - 1" by simp
  from ping_session [OF this s refl, of 0 70000 "[127, 0, 0, 1]" 0 "[]"] obtain p where
    "ping_main (Some 0) True 70000 True (Some [In4 [127, 0, 0, 1] 0]) True 3 (sample_sent 0)
      (tl (rounds (70000 mod 65536) sample_sent sample_now sample_ip (\<lambda>_. [0, 0]) [0..<30])) = Inr p"
    "pg_sent p = map (\<lambda>k. request_of (70000 mod 65536) k (sample_sent k)) [0..<30]"
    "pg_out p = map (\<lambda>k. Reply 64 (int k) (uint (sample_ip k ! 8)) (TvSub (sample_now k) (sample_sent k))) [0..<30]"
    by blast
  then show ?thesis by (intro exI [of _ p]) (simp only: length_map length_upt, simp)
qed

end
