(* ===== verification/Error_Log.thy ===== *)
theory Error_Log
  imports Prelude
begin

text \<open>
  \<open>src/Error\<close>: \<open>ErrDoit\<close>, which completes a message in a buffer of 4096 bytes and hands it to \<open>syslog\<close> or prints it, and the
  functions that call it. The other theories take these functions to do nothing but end the process where they
  do; what they do besides is here. The message is the text \<open>printf\<close> would make of the arguments.
\<close>

section \<open>The buffer\<close>

text \<open>Whether \<open>vsnprintf\<close> is used, \<open>daemon_proc\<close>, and the text of \<open>errno\<close>.\<close>

record logger =
  lg_safe :: bool
  lg_daemon :: bool
  lg_strerror :: string

definition STRBUFMAX :: nat where
  "STRBUFMAX = 4096"

datatype level = LOG_ERR | LOG_NOTICE | LOG_INFO

text \<open>
  \<open>syslog (level, str_buf, 0)\<close> takes the message for a format, with one argument that is an \<open>int\<close>. A directive without an
  argument for it, or for another type, is undefined; one with flags or a width is taken to be so too.
\<close>

fun syslog_text :: "string \<Rightarrow> bool \<Rightarrow> string \<Rightarrow> string res" where
  "syslog_text err arg [] = Inr []"
| "syslog_text err arg (c # cs) =
     (if c \<noteq> CHR ''%'' then rbind (syslog_text err arg cs) (\<lambda>t. Inr (c # t))
      else (case cs of [] \<Rightarrow> Inl Undef
        | d # ds \<Rightarrow>
            if d = CHR ''%'' then rbind (syslog_text err arg ds) (\<lambda>t. Inr (CHR ''%'' # t))
            else if d = CHR ''m'' then rbind (syslog_text err arg ds) (\<lambda>t. Inr (err @ t))
            else if arg \<and> d \<in> set ''diuoxX'' then rbind (syslog_text err False ds) (\<lambda>t. Inr (CHR ''0'' # t))
            else Inl Undef))"

definition ErrDoit :: "logger \<Rightarrow> bool \<Rightarrow> level \<Rightarrow> string \<Rightarrow> (level \<times> string) res" where
  "ErrDoit lg T_error_flag T_level text =
     rbind (if lg_safe lg then Inr (take (STRBUFMAX - 1) text)
            else if STRBUFMAX \<le> length text then Inl Undef else Inr text) (\<lambda>str_buf.
       let str_buf = (if T_error_flag then str_buf @ take (STRBUFMAX - length str_buf - 1) ('':'' @ lg_strerror lg) else str_buf)
       in if STRBUFMAX \<le> length str_buf + 1 then Inl Undef
          else let str_buf = str_buf @ [CHR 0x0A]
               in if lg_daemon lg then rbind (syslog_text (lg_strerror lg) True str_buf) (\<lambda>t. Inr (T_level, t))
                  else Inr (T_level, str_buf))"

section \<open>The functions\<close>

text \<open>What is logged, and whether the process ends.\<close>

type_synonym logged = "((level \<times> string) \<times> bool) res"

definition ErrDump :: "logger \<Rightarrow> string \<Rightarrow> logged" where
  "ErrDump lg text = rbind (ErrDoit lg True LOG_ERR text) (\<lambda>l. Inr (l, True))"

definition ErrSys :: "logger \<Rightarrow> string \<Rightarrow> logged" where
  "ErrSys lg text = rbind (ErrDoit lg True LOG_ERR text) (\<lambda>l. Inr (l, True))"

definition ErrRet :: "logger \<Rightarrow> string \<Rightarrow> logged" where
  "ErrRet lg text = rbind (ErrDoit lg True LOG_NOTICE text) (\<lambda>l. Inr (l, False))"

definition ErrMsg :: "logger \<Rightarrow> string \<Rightarrow> logged" where
  "ErrMsg lg text = rbind (ErrDoit lg False LOG_NOTICE text) (\<lambda>l. Inr (l, False))"

definition ErrQuit :: "logger \<Rightarrow> string \<Rightarrow> logged" where
  "ErrQuit lg text = rbind (ErrDoit lg False LOG_ERR text) (\<lambda>l. Inr (l, True))"

definition LI :: "logger \<Rightarrow> string \<Rightarrow> logged" where
  "LI lg text = rbind (ErrDoit lg False LOG_INFO text) (\<lambda>l. Inr (l, False))"

text \<open>The message of \<open>BDict::Decode\<close> about a key it has seen before, which \<open>%s\<close> copies up to the first zero.\<close>

definition duplicate_message :: "string \<Rightarrow> string" where
  "duplicate_message key = ''[BDice decode]->failed,dumplicate message '' @ takeWhile (\<lambda>c. c \<noteq> CHR 0x00) key"

text \<open>The message of \<open>Tracker::GetPeerList\<close> with what a tracker answered.\<close>

definition body_message :: "string \<Rightarrow> string" where
  "body_message body = ''body:'' @ takeWhile (\<lambda>c. c \<noteq> CHR 0x00) body"

section \<open>Lemmas\<close>

lemma syslog_plain: "CHR ''%'' \<notin> set t \<Longrightarrow> syslog_text err arg t = Inr t"
  by (induction t) auto

lemma syslog_string: "CHR ''%'' \<notin> set pre \<Longrightarrow> syslog_text err arg (pre @ ''%s'' @ post) = Inl Undef"
  by (induction pre) auto

text \<open>What the buffer holds before it is handed on.\<close>

definition full_text :: "logger \<Rightarrow> bool \<Rightarrow> string \<Rightarrow> string" where
  "full_text lg T_error_flag text = text @ (if T_error_flag then '':'' @ lg_strerror lg else [])"

lemma ErrDoit_eq:
  "ErrDoit lg T_error_flag T_level text =
     (if STRBUFMAX - 1 \<le> length (full_text lg T_error_flag text) then Inl Undef
      else rbind (if lg_daemon lg then syslog_text (lg_strerror lg) True (full_text lg T_error_flag text @ [CHR 0x0A])
                  else Inr (full_text lg T_error_flag text @ [CHR 0x0A])) (\<lambda>t. Inr (T_level, t)))"
  by (auto simp: ErrDoit_def full_text_def STRBUFMAX_def Let_def)

text \<open>A text that others choose, behind some words of the program.\<close>

lemma ErrDoit_foreign:
  assumes "CHR 0x00 \<notin> set s" and "CHR ''%'' \<notin> set words"
    and "4095 \<le> length words + length s \<or> lg_daemon lg \<and> s = pre @ ''%s'' @ post \<and> CHR ''%'' \<notin> set pre"
  shows "ErrDoit lg False lv (words @ takeWhile (\<lambda>c. c \<noteq> CHR 0x00) s) = Inl Undef"
proof -
  have "takeWhile (\<lambda>c. c \<noteq> CHR 0x00) s = s" using assms(1) by (auto simp: takeWhile_eq_all_conv)
  then have f: "full_text lg False (words @ takeWhile (\<lambda>c. c \<noteq> CHR 0x00) s) = words @ s" by (simp add: full_text_def)
  show ?thesis
  proof (cases "4095 \<le> length words + length s")
    case True
    then show ?thesis by (simp add: ErrDoit_eq f STRBUFMAX_def)
  next
    case False
    then have g: "lg_daemon lg" "words @ s @ [CHR 0x0A] = (words @ pre) @ ''%s'' @ post @ [CHR 0x0A]" "CHR ''%'' \<notin> set (words @ pre)"
      using assms(2,3) by auto
    have "syslog_text (lg_strerror lg) True (words @ s @ [CHR 0x0A]) = Inl Undef"
      unfolding g(2) by (rule syslog_string [OF g(3)])
    then show ?thesis using g(1) by (simp add: ErrDoit_eq f)
  qed
qed

section \<open>Properties\<close>

text \<open>C30: the bound of a message: a text without percent signs is logged whole, with the text of \<open>errno\<close> where it belongs, and a line end,
  if all that has at most 4094 bytes before the line end; if it has more, the buffer is written past its end, whether or not \<open>vsnprintf\<close> is
  used, because the line end is appended without a test.\<close>

theorem ErrDoit_bounds:
  assumes "CHR ''%'' \<notin> set text" and "CHR ''%'' \<notin> set (lg_strerror lg)"
  shows "ErrDoit lg flag lv text = (if length (full_text lg flag text) \<le> 4094
    then Inr (lv, full_text lg flag text @ [CHR 0x0A]) else Inl Undef)"
proof -
  have "CHR ''%'' \<notin> set (full_text lg flag text @ [CHR 0x0A])" using assms by (auto simp: full_text_def)
  then show ?thesis by (simp add: ErrDoit_eq STRBUFMAX_def syslog_plain)
qed

theorem ErrDoit_bounds_witness:
  "ErrDoit \<lparr>lg_safe = True, lg_daemon = True, lg_strerror = ''EIO''\<rparr> True LOG_ERR ''bind failed'' = Inr (LOG_ERR, ''bind failed:EIO'' @ [CHR 0x0A])
    \<and> ErrDoit \<lparr>lg_safe = True, lg_daemon = True, lg_strerror = ''EIO''\<rparr> False LOG_ERR (replicate 4095 CHR ''a'') = Inl Undef"
  using ErrDoit_bounds [of "''bind failed''" "\<lparr>lg_safe = True, lg_daemon = True, lg_strerror = ''EIO''\<rparr>" True LOG_ERR]
    ErrDoit_bounds [of "replicate 4095 CHR ''a''" "\<lparr>lg_safe = True, lg_daemon = True, lg_strerror = ''EIO''\<rparr>" False LOG_ERR]
  by (simp add: full_text_def)

text \<open>C37: strangers choose messages of the log: the text of a key that a torrent repeats and the body of a tracker's answer are
  part of one, so that 4090 bytes overrun the buffer, and \<open>%s\<close> makes \<open>syslog\<close> fetch an argument that is not there.\<close>

theorem foreign_text_breaks_log:
  assumes "CHR 0x00 \<notin> set s" and "4090 \<le> length s \<or> lg_daemon lg \<and> s = pre @ ''%s'' @ post \<and> CHR ''%'' \<notin> set pre"
  shows "ErrMsg lg (duplicate_message s) = Inl Undef \<and> LI lg (body_message s) = Inl Undef"
proof -
  have "ErrDoit lg False LOG_NOTICE (duplicate_message s) = Inl Undef" unfolding duplicate_message_def
    by (rule ErrDoit_foreign [OF assms(1), where pre = pre and post = post]) (use assms(2) in auto)
  moreover have "ErrDoit lg False LOG_INFO (body_message s) = Inl Undef" unfolding body_message_def
    by (rule ErrDoit_foreign [OF assms(1), where pre = pre and post = post]) (use assms(2) in auto)
  ultimately show ?thesis by (simp add: ErrMsg_def LI_def)
qed

theorem foreign_text_breaks_log_witness:
  "ErrMsg \<lparr>lg_safe = False, lg_daemon = True, lg_strerror = []\<rparr> (duplicate_message ''info%s'') = Inl Undef
    \<and> LI \<lparr>lg_safe = False, lg_daemon = True, lg_strerror = []\<rparr> (body_message ''info%s'') = Inl Undef"
  by (rule foreign_text_breaks_log [where pre = "''info''" and post = "[]"]) simp_all

end
