(* ===== verification/Progress.thy ===== *)
theory Progress
  imports Error_Log Bit_Field
begin

text \<open>
  \<open>BitField::ProgressBar\<close>, which \<open>LocalBitField::FillBitField\<close> calls for every piece that is complete when the program is
  built with \<open>CszTest\<close>, as \<open>CszBitTorrent.h\<close> sets it: the bit field is logged bit by bit.
\<close>

section \<open>The text\<close>

text \<open>\<open>std::bitset<8>::to_string\<close>: the highest bit first.\<close>

definition bitset_text :: "byte \<Rightarrow> string" where
  "bitset_text b = map (\<lambda>i. if bit b (7 - i) then CHR ''1'' else CHR ''0'') [0..<8]"

definition int_text :: "int \<Rightarrow> string" where
  "int_text i = (if i < 0 then CHR ''-'' # dec (nat (- i)) else dec (nat i))"

text \<open>\<open>pct\<close> is what \<open>%f\<close> makes of the quotient, six digits behind the point.\<close>

definition ProgressBar :: "logger \<Rightarrow> string \<Rightarrow> bitfield \<Rightarrow> (level \<times> string) list res" where
  "ProgressBar lg pct bf =
     (case rwlock_rdlock (bf_lock bf) of
        None \<Rightarrow> rbind (ErrMsg lg ''[Bit Field progress bar]->failed,read lock failed'') (\<lambda>(l, _). Inr [l])
      | Some _ \<Rightarrow>
          let bit_info = concat (map bitset_text (drop 5 (bf_data bf)))
          in if bit_info = [] then Inr []
             else rbind (LI lg (bit_info @ '',cur_sum='' @ int_text (bf_cur_sum bf) @ '' -> total='' @ int_text (bf_total bf)
                    @ '',= '' @ pct @ ''%'')) (\<lambda>(l, _). Inr [l]))"

section \<open>Lemmas\<close>

lemma length_bitset [simp]: "length (bitset_text b) = 8"
  unfolding bitset_text_def by (simp only: length_map length_upt)

lemma length_bit_info: "length (concat (map bitset_text bs)) = 8 * length bs"
  by (induction bs) simp_all

lemma int_text_Cons: "int_text i \<noteq> []"
  using dec_spec by (simp add: int_text_def)

lemma no_percent: "CHR ''%'' \<notin> set (bitset_text b)" "CHR ''%'' \<notin> set (int_text i)"
proof -
  show "CHR ''%'' \<notin> set (bitset_text b)" unfolding bitset_text_def set_map by (rule notI) (elim imageE, simp split: if_splits)
  have "CHR ''%'' \<notin> set (dec n)" for n using dec_digits [of "CHR ''%''" n] by (auto simp: is_digit_def)
  then show "CHR ''%'' \<notin> set (int_text i)" by (simp add: int_text_def)
qed

lemma syslog_dangling: "CHR ''%'' \<notin> set pre \<Longrightarrow> syslog_text err arg (pre @ [CHR ''%'', CHR 0x0A]) = Inl Undef"
  by (induction pre) auto

section \<open>Properties\<close>

text \<open>C38: the progress report cannot be made: of a torrent with more than 4056 pieces, whose bit field has 508 bytes, it overruns the
  buffer of the log each time it is made; and of any torrent it ends with a percent sign in front of the line end,
  which \<open>syslog\<close> takes for a directive there is none of.\<close>

theorem ProgressBar_undefined:
  assumes "rwlock_rdlock (bf_lock bf) \<noteq> None" and "8 \<le> length pct" and "CHR ''%'' \<notin> set pct"
    and "508 \<le> length (bits bf) \<or> lg_daemon lg \<and> bits bf \<noteq> []"
  shows "ProgressBar lg pct bf = Inl Undef"
proof -
  let ?b = "concat (map bitset_text (drop 5 (bf_data bf)))"
  let ?pre = "?b @ '',cur_sum='' @ int_text (bf_cur_sum bf) @ '' -> total='' @ int_text (bf_total bf) @ '',= '' @ pct"
  have "0 < length (bits bf)" using assms(4) by auto
  then have "0 < length ?b" unfolding length_bit_info by (simp add: bits_def)
  then have ne: "?b \<noteq> []" by (simp only: length_greater_0_conv not_False_eq_True)
  have n: "1 \<le> length (int_text (bf_cur_sum bf))" "1 \<le> length (int_text (bf_total bf))"
    using int_text_Cons by (simp_all add: Suc_le_eq)
  have f: "full_text lg False (?pre @ ''%'') = ?pre @ ''%''" by (simp add: full_text_def)
  have "ErrDoit lg False LOG_INFO (?pre @ ''%'') = Inl Undef"
  proof (cases "508 \<le> length (bits bf)")
    case True
    then have "4064 \<le> length ?b" using length_bit_info [of "bits bf"] by (simp add: bits_def)
    then show ?thesis using n assms(2) unfolding ErrDoit_eq f STRBUFMAX_def by simp
  next
    case False
    have "CHR ''%'' \<notin> set ?pre" using no_percent assms(3) by auto
    then show ?thesis using False assms(4) syslog_dangling [of ?pre] unfolding ErrDoit_eq f by simp
  qed
  then show ?thesis using assms(1) ne by (auto simp: ProgressBar_def LI_def Let_def)
qed

theorem ProgressBar_undefined_witness:
  "ProgressBar \<lparr>lg_safe = True, lg_daemon = True, lg_strerror = []\<rparr> ''50.000000''
     \<lparr>bf_data = [0, 0, 0, 2, 5, 0x80], bf_total = 2, bf_cur_sum = 1, bf_lock = lock_idle\<rparr> = Inl Undef"
  by (rule ProgressBar_undefined) (simp_all add: bits_def rwlock_rdlock_def lock_idle_def)

end
