(* ===== verification/Daemon.thy ===== *)
theory Daemon
  imports Prelude
begin

text \<open>
  \<open>src/Signal\<close>, the installation of signal handlers, and \<open>src/Daemon\<close>, \<open>DaemonInit\<close>. The results of the system calls are
  arguments; the state is what the process has afterwards: its handlers, its place among the processes and its
  descriptors. A parent that leaves and an error both end the process, \<open>Inl Exit\<close>.
\<close>

section \<open>Signal handlers\<close>

datatype handler = SIG_DFL | SIG_IGN | Function nat

record sigact =
  sa_handler :: handler
  sa_interrupt :: bool
  sa_restart :: bool

type_synonym handlers = "int \<Rightarrow> sigact"

definition SIGALRM :: int where
  "SIGALRM = 14"

definition SIGHUP :: int where
  "SIGHUP = 1"

text \<open>\<open>sigaction\<close> with the new entry; the result is the old handler, \<open>None\<close> for \<open>SIG_ERR\<close>.\<close>

definition install :: "bool \<Rightarrow> int \<Rightarrow> sigact \<Rightarrow> handlers \<Rightarrow> handler option \<times> handlers" where
  "install ok T_signum act hs = (if \<not> ok then (None, hs) else (Some (sa_handler (hs T_signum)), hs(T_signum := act)))"

definition Signal :: "bool \<Rightarrow> int \<Rightarrow> handler \<Rightarrow> handlers \<Rightarrow> handler option \<times> handlers" where
  "Signal ok T_signum T_handler hs =
     install ok T_signum \<lparr>sa_handler = T_handler, sa_interrupt = (SIGALRM = T_signum), sa_restart = (SIGALRM \<noteq> T_signum)\<rparr> hs"

definition SignalAlarm :: "bool \<Rightarrow> int \<Rightarrow> handler \<Rightarrow> handlers \<Rightarrow> handler option \<times> handlers" where
  "SignalAlarm ok T_signum T_handler hs =
     install ok T_signum \<lparr>sa_handler = T_handler, sa_interrupt = False, sa_restart = True\<rparr> hs"

definition SignalBT :: "bool \<Rightarrow> int \<Rightarrow> handler \<Rightarrow> handlers \<Rightarrow> handler option \<times> handlers" where
  "SignalBT ok T_signum T_handler hs =
     install ok T_signum \<lparr>sa_handler = T_handler, sa_interrupt = False, sa_restart = True\<rparr> hs"

section \<open>The process\<close>

record process =
  pr_handlers :: handlers
  pr_leader :: bool
  pr_cwd :: string
  pr_fds :: "nat list"
  pr_daemon :: bool
  pr_log :: "(string \<times> int) option"

datatype forked = ForkFailed | InParent | InChild

record daemon_calls =
  dm_fork1 :: forked
  dm_setsid :: bool
  dm_sigaction :: bool
  dm_fork2 :: forked
  dm_chdir :: bool
  dm_limit :: "nat option"
  dm_exists :: "string \<Rightarrow> bool"

text \<open>\<open>fork\<close> as the child sees it: it leads no session.\<close>

definition fork_child :: "forked \<Rightarrow> process \<Rightarrow> process res" where
  "fork_child f p = (case f of InChild \<Rightarrow> Inr (p\<lparr>pr_leader := False\<rparr>) | _ \<Rightarrow> Inl Exit)"

text \<open>\<open>open\<close> takes the lowest descriptor that is free; a relative path starts at the working directory.\<close>

definition lowest_free :: "nat list \<Rightarrow> nat" where
  "lowest_free fds = hd (filter (\<lambda>n. n \<notin> set fds) [0..<Suc (length fds)])"

definition open_file :: "daemon_calls \<Rightarrow> string \<Rightarrow> process \<Rightarrow> process" where
  "open_file d path p =
     (let full = (if path \<noteq> [] \<and> hd path = CHR ''/'' then path else pr_cwd p @ path)
      in if dm_exists d full then p\<lparr>pr_fds := lowest_free (pr_fds p) # pr_fds p\<rparr> else p)"

definition DaemonInit :: "daemon_calls \<Rightarrow> string \<Rightarrow> int \<Rightarrow> process \<Rightarrow> process res" where
  "DaemonInit d T_name T_facility p =
     rbind (fork_child (dm_fork1 d) p) (\<lambda>p.
       if \<not> dm_setsid d then Inl Exit
       else let p = p\<lparr>pr_leader := True\<rparr>
            in if \<not> dm_sigaction d then Inl Exit
               else let p = p\<lparr>pr_handlers := (pr_handlers p)(SIGHUP := \<lparr>sa_handler = SIG_IGN, sa_interrupt = False, sa_restart = False\<rparr>)\<rparr>
                    in rbind (fork_child (dm_fork2 d) p) (\<lambda>p.
                         if \<not> dm_chdir d then Inl Exit
                         else let p = p\<lparr>pr_cwd := ''/home/hello-wxx/'', pr_daemon := True\<rparr>;
                                  rlim_max = (case dm_limit d of None \<Rightarrow> 1024 | Some n \<Rightarrow> n);
                                  p = p\<lparr>pr_fds := filter (\<lambda>i. \<not> i < rlim_max) (pr_fds p)\<rparr>;
                                  p = open_file d ''dev/null'' (open_file d ''/dev/null'' (open_file d ''/dev/null'' p))
                              in Inr (p\<lparr>pr_log := Some (T_name, T_facility)\<rparr>)))"

section \<open>Lemmas\<close>

lemma lowest_free_start: "lowest_free [] = 0" "lowest_free [0] = 1" "lowest_free [1, 0] = 2" "lowest_free [Suc 0, 0] = 2" "lowest_free [2, 1, 0] = 3"
  by (simp_all add: lowest_free_def upt_rec)

lemma signals_install:
  "Signal ok s h hs = install ok s \<lparr>sa_handler = h, sa_interrupt = (s = SIGALRM), sa_restart = (s \<noteq> SIGALRM)\<rparr> hs"
  by (simp add: Signal_def eq_commute [of SIGALRM])

lemma open_null:
  "dm_exists d ''/dev/null'' \<Longrightarrow> open_file d ''/dev/null'' p = p\<lparr>pr_fds := lowest_free (pr_fds p) # pr_fds p\<rparr>"
  "\<not> dm_exists d (pr_cwd p @ ''dev/null'') \<Longrightarrow> open_file d ''dev/null'' p = p"
  by (simp_all add: open_file_def)

section \<open>Properties\<close>

text \<open>A handler for the alarm interrupts system calls, every other handler restarts them; the handler \<open>Signal\<close> returns is
  the one that was there, so that giving it back restores it, and a failure changes nothing.\<close>

theorem Signal_installs:
  assumes "Signal True s h hs = (old, hs1)" and "Signal True s (the old) hs1 = (r, hs2)"
  shows "sa_handler (hs1 s) = h \<and> sa_restart (hs1 s) = (s \<noteq> SIGALRM) \<and> sa_interrupt (hs1 s) = (s = SIGALRM)
    \<and> old = Some (sa_handler (hs s)) \<and> r = Some h \<and> sa_handler (hs2 s) = sa_handler (hs s)
    \<and> (\<forall>s'. s' \<noteq> s \<longrightarrow> hs2 s' = hs s') \<and> Signal False s h hs = (None, hs)"
  using assms by (auto simp: signals_install install_def)

theorem Signal_installs_witness:
  "sa_handler ((snd (Signal True SIGALRM SIG_DFL (snd (Signal True SIGALRM (Function 1) (\<lambda>_. \<lparr>sa_handler = SIG_DFL, sa_interrupt = False, sa_restart = False\<rparr>)))))
     SIGALRM) = SIG_DFL"
  using Signal_installs [of SIGALRM "Function 1" "\<lambda>_. \<lparr>sa_handler = SIG_DFL, sa_interrupt = False, sa_restart = False\<rparr>"]
  by (simp add: Signal_def install_def)

text \<open>C39: a daemon has no session to lead, ignores the hangup and has given up its files; but of the three descriptors
  that are to stand for the standard streams only two are opened, since the last path is relative: the next file or connection it
  opens becomes descriptor 2, the standard error output.\<close>

theorem DaemonInit_streams:
  assumes "DaemonInit d T_name T_facility p = Inr p'" and "\<forall>fd \<in> set (pr_fds p). fd < (case dm_limit d of None \<Rightarrow> 1024 | Some n \<Rightarrow> n)"
    and "dm_exists d ''/dev/null''" and "\<not> dm_exists d ''/home/hello-wxx/dev/null''" and "path = CHR ''/'' # rest" and "dm_exists d path"
  shows "\<not> pr_leader p' \<and> sa_handler (pr_handlers p' SIGHUP) = SIG_IGN \<and> pr_fds p' = [1, 0] \<and> pr_fds (open_file d path p') = [2, 1, 0]"
proof -
  have none: "filter (\<lambda>i. \<not> i < (case dm_limit d of None \<Rightarrow> 1024 | Some n \<Rightarrow> n)) (pr_fds p) = []"
    using assms(2) by (simp add: filter_empty_conv)
  have p': "\<not> pr_leader p' \<and> sa_handler (pr_handlers p' SIGHUP) = SIG_IGN \<and> pr_fds p' = [1, 0]"
    using assms(1,3,4) none
    by (auto simp: DaemonInit_def Let_def rbind_Inr_iff fork_child_def open_null lowest_free_start split: if_splits forked.splits)
  then show ?thesis using assms(5,6) by (auto simp: open_file_def lowest_free_start)
qed

definition sample_daemon :: daemon_calls where
  "sample_daemon = \<lparr>dm_fork1 = InChild, dm_setsid = True, dm_sigaction = True, dm_fork2 = InChild, dm_chdir = True,
     dm_limit = Some 1024, dm_exists = (\<lambda>path. path = ''/dev/null'' \<or> path = ''/tmp/log'')\<rparr>"

definition sample_process :: process where
  "sample_process = \<lparr>pr_handlers = (\<lambda>_. \<lparr>sa_handler = SIG_DFL, sa_interrupt = False, sa_restart = False\<rparr>), pr_leader = True,
     pr_cwd = ''/'', pr_fds = [2, 1, 0], pr_daemon = False, pr_log = None\<rparr>"

theorem DaemonInit_streams_witness:
  "\<exists>p'. DaemonInit sample_daemon ''ping'' 3 sample_process = Inr p' \<and> \<not> pr_leader p' \<and> pr_fds p' = [1, 0]
    \<and> pr_fds (open_file sample_daemon ''/tmp/log'' p') = [2, 1, 0]"
proof -
  have "\<exists>p'. DaemonInit sample_daemon ''ping'' 3 sample_process = Inr p'"
    by (simp add: DaemonInit_def Let_def fork_child_def sample_daemon_def)
  then obtain p' where p': "DaemonInit sample_daemon ''ping'' 3 sample_process = Inr p'" ..
  from DaemonInit_streams [OF this _ _ _ refl] show ?thesis using p' by (auto simp: sample_daemon_def sample_process_def)
qed

end
